(* ===== verification/Prelude.thy ===== *)
theory Prelude
  imports Main "HOL-Library.Word"
begin

text \<open>
  Shared vocabulary of the development: the C integer types at their rv64 widths, the
  three ways a kernel routine can end (a value, a negative errno, or \<^verbatim>\<open>BUG()\<close> /
  \<^verbatim>\<open>panic()\<close>), the named collections the component theories feed, and the generic
  lemmas on words, lists and powers of two that more than one component uses.
\<close>

unbundle bit_operations_syntax

section \<open>Machine types\<close>

type_synonym u8 = "8 word"
type_synonym u16 = "16 word"
type_synonym u32 = "32 word"
type_synonym u64 = "64 word"

text \<open>Signed machine integers are \<open>int\<close> in their range; a result outside of it wraps.\<close>

definition s32_of :: "int \<Rightarrow> int" where
  "s32_of x = signed_take_bit 31 x"

definition s64_of :: "int \<Rightarrow> int" where
  "s64_of x = signed_take_bit 63 x"

lemma s32_of_small: "- (2 ^ 31) \<le> x \<Longrightarrow> x < 2 ^ 31 \<Longrightarrow> s32_of x = x"
  by (simp add: s32_of_def signed_take_bit_int_eq_self)

lemma s64_of_small: "- (2 ^ 63) \<le> x \<Longrightarrow> x < 2 ^ 63 \<Longrightarrow> s64_of x = x"
  by (simp add: s64_of_def signed_take_bit_int_eq_self)

lemma s64_of_idem: "s64_of (s64_of x) = s64_of x"
  by (simp add: s64_of_def)

lemma s64_of_add: "s64_of (s64_of x + y) = s64_of (x + y)"
  using signed_take_bit_add [of 63 "signed_take_bit 63 x" y] signed_take_bit_add [of 63 x y] by (simp add: s64_of_def)

lemma s64_of_mod: "s64_of x mod 2 ^ 64 = x mod 2 ^ 64"
  using take_bit_signed_take_bit [of 64 63 x] by (simp add: s64_of_def take_bit_eq_mod)

section \<open>Outcomes\<close>

text \<open>
  \<open>Err e\<close> stands for the C value \<^verbatim>\<open>-e\<close> (or \<^verbatim>\<open>ERR_PTR(-e)\<close>), \<open>Panic\<close> for
  a call of \<^verbatim>\<open>BUG()\<close> or \<^verbatim>\<open>panic()\<close>, after which the kernel does not go on.
\<close>

datatype errno =
    EPERM | ENOENT | EIO | E2BIG | EBADF | ECHILD | EAGAIN | ENOMEM | EFAULT | EBUSY
  | EEXIST | ENODEV | ENOTDIR | EISDIR | EINVAL | EFBIG | EROFS | ERANGE | ENOSYS
  | ENAMETOOLONG | EMSGSIZE

datatype 'a result = Ok 'a | Err errno | Panic

fun is_ok :: "'a result \<Rightarrow> bool" where
  "is_ok (Ok _) = True"
| "is_ok _ = False"

fun and_then :: "'a result \<Rightarrow> ('a \<Rightarrow> 'b result) \<Rightarrow> 'b result" where
  "and_then (Ok a) f = f a"
| "and_then (Err e) f = Err e"
| "and_then Panic f = Panic"

lemma and_then_cong [fundef_cong]:
  "r = r' \<Longrightarrow> (\<And>a. r' = Ok a \<Longrightarrow> f a = g a) \<Longrightarrow> and_then r f = and_then r' g"
  by (cases r') auto

lemma and_then_Ok: "and_then r f = Ok b \<longleftrightarrow> (\<exists>a. r = Ok a \<and> f a = Ok b)"
  by (cases r) auto

section \<open>Named collections\<close>

named_theorems word_to_nat \<open>moves word expressions to their nat value\<close>
named_theorems op_defs \<open>definitions of component operations\<close>
named_theorems inv_intros \<open>operations preserve their component's invariant\<close>

section \<open>Powers of two\<close>

lemma and_pred_zero_imp_power2_nat:
  fixes n :: nat
  assumes "0 < n" and "n AND (n - 1) = 0"
  shows "\<exists>k. n = 2 ^ k"
  using assms
proof (induction n rule: less_induct)
  case (less n)
  show ?case
  proof (cases "even n")
    case True
    then obtain m where m: "n = 2 * m" by (auto elim: evenE)
    with less.prems have "0 < m" by simp
    have "(n - 1) div 2 = m - 1" using m \<open>0 < m\<close> by linarith
    then have "n AND (n - 1) = 2 * (m AND (m - 1))"
      using m by (subst and_nat_rec) simp
    with less.prems have "m AND (m - 1) = 0" by simp
    with less.IH [of m] m \<open>0 < m\<close> obtain k where "m = 2 ^ k" by auto
    with m have "n = 2 ^ Suc k" by simp
    then show ?thesis by blast
  next
    case False
    then obtain m where m: "n = 2 * m + 1" by (auto elim: oddE)
    then have "n AND (n - 1) = 2 * (m AND m)"
      by (subst and_nat_rec) simp
    with less.prems m have "n = 2 ^ 0" by simp
    then show ?thesis by blast
  qed
qed

lemma unat_and [word_to_nat]: "unat (a AND b) = unat a AND unat b"
  by (simp add: unsigned_and_eq)

lemma and_pred_zero_imp_power2:
  fixes w :: "'a::len word"
  assumes "w \<noteq> 0" and "w AND (w - 1) = 0"
  shows "\<exists>k. unat w = 2 ^ k"
proof (rule and_pred_zero_imp_power2_nat)
  show "0 < unat w" using assms(1) by (simp add: unat_gt_0)
  have "unat (w - 1) = unat w - 1"
    using assms(1) by (metis One_nat_def unat_minus_one)
  then show "unat w AND (unat w - 1) = 0"
    using arg_cong [OF assms(2), of unat] by (simp add: unat_and)
qed

lemma unat_lt2p: "unat (w :: 'a::len word) < 2 ^ LENGTH('a)"
  by (rule unsigned_less)

lemma power2_le_len:
  fixes w :: "'a::len word"
  assumes "unat w = 2 ^ k"
  shows "k < LENGTH('a)"
  using unat_lt2p [of w] assms by simp

lemma mod_power2_cong:
  fixes a b :: nat
  assumes "a mod 2 ^ n = b mod 2 ^ n" and "k \<le> n"
  shows "a mod 2 ^ k = b mod 2 ^ k"
  using assms by (metis le_imp_power_dvd mod_mod_cancel)

lemma unat_of_nat_small:
  "n < 2 ^ LENGTH('a::len) \<Longrightarrow> unat (of_nat n :: 'a word) = n"
  by (simp add: unat_of_nat take_bit_nat_eq_self)

lemma take_bit_zero_iff:
  fixes w :: "'a::len word"
  shows "take_bit n w = 0 \<longleftrightarrow> (\<forall>j < n. \<not> bit w j)"
  by (auto simp: bit_eq_iff bit_take_bit_iff dest: bit_imp_le_length)

section \<open>Lists\<close>

lemma nth_list_update_map:
  "map (\<lambda>i. xs[j := v] ! f i) is = map (\<lambda>i. if f i = j \<and> j < length xs then v else xs ! f i) is"
  by (auto simp: nth_list_update list_update_beyond)

end
