(* ===== verification/Errno.thy ===== *)
theory Errno
  imports Prelude
begin

text \<open>
  Error numbers and error pointers: \<^verbatim>\<open>common/include/grinch/errno.h\<close> (the numbers, and
  \<^verbatim>\<open>ERR_PTR\<close>, \<^verbatim>\<open>PTR_ERR\<close>, \<^verbatim>\<open>IS_ERR\<close>, which pack a negative errno into a
  pointer) and the name table of \<^verbatim>\<open>common/src/errno.c\<close>. The other theories use
  \<open>Err e\<close> for a packed error; the theorems here are why that is sound.
\<close>

fun errno_num :: "errno \<Rightarrow> int" where
  "errno_num EPERM = 1"
| "errno_num ENOENT = 2"
| "errno_num EIO = 5"
| "errno_num E2BIG = 7"
| "errno_num EBADF = 9"
| "errno_num ECHILD = 10"
| "errno_num EAGAIN = 11"
| "errno_num ENOMEM = 12"
| "errno_num EFAULT = 14"
| "errno_num EBUSY = 16"
| "errno_num EEXIST = 17"
| "errno_num ENODEV = 19"
| "errno_num ENOTDIR = 20"
| "errno_num EISDIR = 21"
| "errno_num EINVAL = 22"
| "errno_num EFBIG = 27"
| "errno_num EROFS = 30"
| "errno_num ERANGE = 34"
| "errno_num ENOSYS = 38"
| "errno_num ENAMETOOLONG = 78"
| "errno_num EMSGSIZE = 97"

abbreviation EWOULDBLOCK :: errno where
  "EWOULDBLOCK \<equiv> EAGAIN"

definition MAX_ERRNO :: int where
  "MAX_ERRNO = 97"

definition ERR_PTR :: "int \<Rightarrow> u64" where
  "ERR_PTR error = word_of_int error"

definition PTR_ERR :: "u64 \<Rightarrow> int" where
  "PTR_ERR ptr = sint ptr"

definition IS_ERR :: "u64 \<Rightarrow> bool" where
  "IS_ERR ptr \<longleftrightarrow> word_of_int (- MAX_ERRNO) \<le> ptr"

text \<open>
  The table \<^verbatim>\<open>errnames\<close> is indexed by the number; the gaps between the designated
  initialisers are null pointers, and it ends at \<^verbatim>\<open>EMSGSIZE\<close>.
\<close>

definition errno_list :: "errno list" where
  "errno_list = [EPERM, ENOENT, EIO, E2BIG, EBADF, ECHILD, EAGAIN, ENOMEM, EFAULT, EBUSY,
     EEXIST, ENODEV, ENOTDIR, EISDIR, EINVAL, EFBIG, EROFS, ERANGE, ENOSYS, ENAMETOOLONG,
     EMSGSIZE]"

fun errno_string :: "errno \<Rightarrow> string" where
  "errno_string EPERM = ''-EPERM''"
| "errno_string ENOENT = ''-ENOENT''"
| "errno_string EIO = ''-EIO''"
| "errno_string E2BIG = ''-E2BIG''"
| "errno_string EBADF = ''-EBADF''"
| "errno_string ECHILD = ''-ECHILD''"
| "errno_string EAGAIN = ''-EAGAIN''"
| "errno_string ENOMEM = ''-ENOMEM''"
| "errno_string EFAULT = ''-EFAULT''"
| "errno_string EBUSY = ''-EBUSY''"
| "errno_string EEXIST = ''-EEXIST''"
| "errno_string ENODEV = ''-ENODEV''"
| "errno_string ENOTDIR = ''-ENOTDIR''"
| "errno_string EISDIR = ''-EISDIR''"
| "errno_string EINVAL = ''-EINVAL''"
| "errno_string EFBIG = ''-EFBIG''"
| "errno_string EROFS = ''-EROFS''"
| "errno_string ERANGE = ''-ERANGE''"
| "errno_string ENOSYS = ''-ENOSYS''"
| "errno_string ENAMETOOLONG = ''-ENAMETOOLONG''"
| "errno_string EMSGSIZE = ''-EMSGSIZE''"

definition errname :: "int \<Rightarrow> string option" where
  "errname err =
     (let no = (if err < 0 then - err else err)
      in if no < 98 then map_of (map (\<lambda>e. (errno_num e, errno_string e)) errno_list) no
         else None)"

lemma errno_num_range: "1 \<le> errno_num e \<and> errno_num e \<le> MAX_ERRNO"
  by (cases e) (simp_all add: MAX_ERRNO_def)

lemma errno_num_inj: "errno_num e = errno_num e' \<Longrightarrow> e = e'"
  by (cases e; cases e') simp_all

text \<open>
  C40. Error pointers round-trip: every errno of the header, packed with \<^verbatim>\<open>ERR_PTR\<close>, is
  recognised by \<^verbatim>\<open>IS_ERR\<close> and unpacked to the same number by \<^verbatim>\<open>PTR_ERR\<close>, its
  name is printed for it, and a pointer is taken for an error only in the last
  \<^verbatim>\<open>MAX_ERRNO\<close> bytes of the address space (in particular never for the null pointer).
\<close>

theorem err_ptr_roundtrip:
  "IS_ERR (ERR_PTR (- errno_num e)) \<and>
   PTR_ERR (ERR_PTR (- errno_num e)) = - errno_num e \<and>
   errname (PTR_ERR (ERR_PTR (- errno_num e))) = Some (errno_string e) \<and>
   (IS_ERR p \<longleftrightarrow> 2 ^ 64 - MAX_ERRNO \<le> uint p)"
proof -
  have "IS_ERR p \<longleftrightarrow> 2 ^ 64 - MAX_ERRNO \<le> uint p"
    by (simp add: IS_ERR_def MAX_ERRNO_def word_le_def)
  then show ?thesis
    by (cases e)
       (simp_all add: IS_ERR_def ERR_PTR_def PTR_ERR_def MAX_ERRNO_def errname_def errno_list_def
          word_le_def unsigned_minus_1_eq_mask mask_eq_exp_minus_1)
qed

end
