(* ===== verification/Ringbuf.thy ===== *)
theory Ringbuf
  imports Prelude
begin

text \<open>
  The byte ring buffer of \<^verbatim>\<open>lib/ringbuf.c\<close> and \<^verbatim>\<open>include/grinch/ringbuf.h\<close>:
  free-running 32-bit head and tail counters over a power-of-two array, a writer that drops
  the oldest byte when the buffer is full, and a reader that hands out contiguous slices.
  The abstraction \<open>rb_list\<close> is the sequence of bytes the buffer holds; every operation is
  shown to act on it as the bounded queue interface \<open>byte_queue\<close> says, also when the
  counters wrap around.
\<close>

section \<open>State and operations\<close>

record ringbuf =
  rb_buf :: "u8 list"
  rb_head :: u32
  rb_tail :: u32
  rb_size :: u32

text \<open>
  \<open>blk\<close> is the block \<^verbatim>\<open>kzalloc(size)\<close> returns, \<open>None\<close> for the null pointer.
\<close>

definition ringbuf_init :: "u8 list option \<Rightarrow> u32 \<Rightarrow> ringbuf result" where
  "ringbuf_init blk sz =
     (if sz = 0 then Err ERANGE
      else if sz AND (sz - 1) \<noteq> 0 then Err ERANGE
      else case blk of
        None \<Rightarrow> Err ENOMEM
      | Some b \<Rightarrow> Ok \<lparr>rb_buf = b, rb_head = 0, rb_tail = 0, rb_size = sz\<rparr>)"

definition ringbuf_count :: "ringbuf \<Rightarrow> u32" where
  "ringbuf_count rb = rb_tail rb - rb_head rb"

definition ringbuf_write :: "ringbuf \<Rightarrow> u8 \<Rightarrow> ringbuf" where
  "ringbuf_write rb c =
     (let pos = rb_tail rb mod rb_size rb;
          rb = rb\<lparr>rb_buf := (rb_buf rb)[unat pos := c]\<rparr>;
          rb = rb\<lparr>rb_tail := rb_tail rb + 1\<rparr>
      in if rb_tail rb - rb_head rb > rb_size rb
         then rb\<lparr>rb_head := rb_head rb + 1\<rparr>
         else rb)"

text \<open>
  \<open>ringbuf_read\<close> returns the index of the first readable byte (\<^verbatim>\<open>&rb->buf[pos]\<close>,
  \<open>None\<close> for the null pointer) and stores the length of the readable slice in
  \<^verbatim>\<open>*sz\<close>.
\<close>

definition ringbuf_read :: "ringbuf \<Rightarrow> u32 option \<times> u32" where
  "ringbuf_read rb =
     (let cnt = ringbuf_count rb
      in if cnt = 0 then (None, 0)
         else let pos = rb_head rb mod rb_size rb
              in (Some pos, min cnt (rb_size rb - pos)))"

definition ringbuf_consume :: "ringbuf \<Rightarrow> u32 \<Rightarrow> ringbuf" where
  "ringbuf_consume rb sz = rb\<lparr>rb_head := rb_head rb + sz\<rparr>"

section \<open>Abstraction and invariant\<close>

definition ringbuf_ok :: "ringbuf \<Rightarrow> bool" where
  "ringbuf_ok rb \<longleftrightarrow>
     rb_size rb \<noteq> 0 \<and> rb_size rb AND (rb_size rb - 1) = 0 \<and>
     length (rb_buf rb) = unat (rb_size rb) \<and> ringbuf_count rb \<le> rb_size rb"

definition rb_cell :: "ringbuf \<Rightarrow> nat \<Rightarrow> nat" where
  "rb_cell rb i = (unat (rb_head rb) + i) mod unat (rb_size rb)"

definition rb_list :: "ringbuf \<Rightarrow> u8 list" where
  "rb_list rb = map (\<lambda>i. rb_buf rb ! rb_cell rb i) [0..<unat (ringbuf_count rb)]"

text \<open>What a slice \<open>(pos, n)\<close> handed out by \<open>ringbuf_read\<close> reads in memory.\<close>

definition rb_slice :: "ringbuf \<Rightarrow> u32 option \<times> u32 \<Rightarrow> u8 list" where
  "rb_slice rb r =
     (case fst r of None \<Rightarrow> []
      | Some pos \<Rightarrow> take (unat (snd r)) (drop (unat pos) (rb_buf rb)))"

section \<open>The queue interface\<close>

text \<open>
  A bounded byte queue that loses its oldest byte on overflow, and is drained in two moves:
  look at a slice, then consume a prefix of it.
\<close>

locale byte_queue =
  fixes ok :: "'q \<Rightarrow> bool"
    and contents :: "'q \<Rightarrow> u8 list"
    and capacity :: "'q \<Rightarrow> nat"
    and put :: "'q \<Rightarrow> u8 \<Rightarrow> 'q"
    and peek :: "'q \<Rightarrow> u8 list"
    and consume :: "'q \<Rightarrow> nat \<Rightarrow> 'q"
  assumes bounded: "ok q \<Longrightarrow> length (contents q) \<le> capacity q"
    and capacity_pos: "ok q \<Longrightarrow> 0 < capacity q"
    and put_ok: "ok q \<Longrightarrow> ok (put q c)"
    and put_contents: "ok q \<Longrightarrow>
      contents (put q c) = drop (Suc (length (contents q)) - capacity q) (contents q @ [c])"
    and put_capacity: "ok q \<Longrightarrow> capacity (put q c) = capacity q"
    and peek_prefix: "ok q \<Longrightarrow> peek q = take (length (peek q)) (contents q)"
    and peek_empty: "ok q \<Longrightarrow> peek q = [] \<longleftrightarrow> contents q = []"
    and consume_ok: "ok q \<Longrightarrow> n \<le> length (contents q) \<Longrightarrow> ok (consume q n)"
    and consume_contents: "ok q \<Longrightarrow> n \<le> length (contents q) \<Longrightarrow>
      contents (consume q n) = drop n (contents q)"
    and consume_capacity: "ok q \<Longrightarrow> n \<le> length (contents q) \<Longrightarrow>
      capacity (consume q n) = capacity q"
begin

text \<open>Writing a string keeps exactly its last \<open>capacity\<close> bytes behind what was there.\<close>

lemma put_many_ok: "ok q \<Longrightarrow> ok (fold (\<lambda>c q. put q c) cs q)"
  by (induction cs arbitrary: q) (simp_all add: put_ok)

lemma put_many_contents:
  assumes "ok q"
  shows "contents (fold (\<lambda>c q. put q c) cs q)
    = drop (length (contents q) + length cs - capacity q) (contents q @ cs)"
  using assms
proof (induction cs arbitrary: q)
  case Nil
  then show ?case using bounded [of q] by simp
next
  case (Cons c cs)
  let ?q = "put q c" and ?n = "length (contents q)" and ?k = "capacity q"
  have "contents (fold (\<lambda>c q. put q c) (c # cs) q)
      = drop (length (contents ?q) + length cs - ?k) (contents ?q @ cs)"
    using Cons by (simp add: put_ok put_capacity)
  also have "contents ?q = drop (Suc ?n - ?k) (contents q @ [c])"
    using Cons.prems by (rule put_contents)
  also have "drop (length (drop (Suc ?n - ?k) (contents q @ [c])) + length cs - ?k)
        (drop (Suc ?n - ?k) (contents q @ [c]) @ cs)
      = drop (?n + length (c # cs) - ?k) (contents q @ c # cs)"
    using bounded [OF Cons.prems] capacity_pos [OF Cons.prems]
    by (cases "?n = ?k") auto
  finally show ?case .
qed

text \<open>Looking and consuming what was seen loses and invents nothing.\<close>

lemma drain_step:
  assumes "ok q" and "n \<le> length (peek q)"
  shows "take n (peek q) @ contents (consume q n) = contents q"
    and "ok (consume q n)"
proof -
  have le: "n \<le> length (contents q)"
    using assms peek_prefix [OF assms(1)] by (metis length_take min.cobounded1 order_trans)
  have "take n (peek q) = take n (contents q)"
    using peek_prefix [OF assms(1)] assms(2) by (metis min.absorb1 take_take)
  then show "take n (peek q) @ contents (consume q n) = contents q"
    using le assms(1) by (simp add: consume_contents)
  show "ok (consume q n)" using assms(1) le by (rule consume_ok)
qed

end

section \<open>The ring buffer implements the queue\<close>

lemma ringbuf_okE:
  assumes "ringbuf_ok rb"
  obtains k where "unat (rb_size rb) = 2 ^ k" and "k < 32"
    and "length (rb_buf rb) = 2 ^ k" and "unat (ringbuf_count rb) \<le> 2 ^ k"
proof -
  from assms obtain k where "unat (rb_size rb) = 2 ^ k"
    using and_pred_zero_imp_power2 [of "rb_size rb"] by (auto simp: ringbuf_ok_def)
  with assms power2_le_len [of "rb_size rb" k] that [of k] show thesis
    by (simp add: ringbuf_ok_def word_le_nat_alt)
qed

lemma mod_add_inj:
  fixes h i j s :: nat
  assumes "(h + i) mod s = (h + j) mod s" and "i < s" and "j < s"
  shows "i = j"
proof -
  have *: "x = y" if "(h + x) mod s = (h + y) mod s" "x \<le> y" "y < s" for x y
  proof -
    have "s dvd (h + y) - (h + x)"
      using that by (subst mod_eq_dvd_iff_nat [symmetric]) auto
    then have "s dvd y - x" by simp
    with that show ?thesis by (metis diff_is_0_eq dvd_imp_le le_antisym less_imp_diff_less not_gr_zero not_less)
  qed
  show ?thesis using * [of i j] * [of j i] assms by (metis nat_le_linear)
qed

lemma unat_add_mod_power2:
  fixes a b :: u32
  assumes "k < 32"
  shows "(unat (a + b) + i) mod 2 ^ k = (unat a + unat b + i) mod 2 ^ k"
proof -
  have "unat (a + b) mod 2 ^ 32 = (unat a + unat b) mod 2 ^ 32"
    by (simp add: unat_word_ariths)
  then have "unat (a + b) mod 2 ^ k = (unat a + unat b) mod 2 ^ k"
    using assms by (rule mod_power2_cong [OF _ less_imp_le])
  then show ?thesis by (metis mod_add_left_eq)
qed

lemma rb_tail_cell:
  assumes "unat (rb_size rb) = 2 ^ k" and "k < 32"
  shows "unat (rb_tail rb mod rb_size rb) = rb_cell rb (unat (ringbuf_count rb))"
proof -
  have "rb_tail rb = rb_head rb + ringbuf_count rb" by (simp add: ringbuf_count_def)
  then show ?thesis
    using unat_add_mod_power2 [OF assms(2), of "rb_head rb" "ringbuf_count rb" 0] assms(1)
    by (simp add: unat_mod rb_cell_def)
qed

lemma rb_cell_less: "ringbuf_ok rb \<Longrightarrow> rb_cell rb i < length (rb_buf rb)"
  by (auto simp: ringbuf_ok_def rb_cell_def unat_gt_0)

lemma rb_cell_inj:
  assumes "rb_cell rb i = rb_cell rb j" and "i < unat (rb_size rb)" and "j < unat (rb_size rb)"
  shows "i = j"
  using assms unfolding rb_cell_def by (rule mod_add_inj)

lemma rb_cell_head_add:
  assumes "unat (rb_size rb) = 2 ^ k" and "k < 32"
  shows "rb_cell (rb\<lparr>rb_head := rb_head rb + w\<rparr>) i = rb_cell rb (unat w + i)"
  using unat_add_mod_power2 [OF assms(2), of "rb_head rb" w i] assms(1)
  by (simp add: rb_cell_def add.assoc)

lemma ringbuf_write_cases:
  fixes rb :: ringbuf and c :: u8
  assumes "ringbuf_ok rb"
  defines "n \<equiv> unat (ringbuf_count rb)" and "s \<equiv> unat (rb_size rb)"
  defines "rb1 \<equiv> rb\<lparr>rb_buf := (rb_buf rb)[rb_cell rb n := c], rb_tail := rb_tail rb + 1\<rparr>"
  shows "n < s \<Longrightarrow> ringbuf_write rb c = rb1 \<and> unat (ringbuf_count rb1) = Suc n"
    and "n = s \<Longrightarrow> ringbuf_write rb c = rb1\<lparr>rb_head := rb_head rb + 1\<rparr>
           \<and> unat (ringbuf_count (rb1\<lparr>rb_head := rb_head rb + 1\<rparr>)) = n"
proof -
  obtain k where k: "unat (rb_size rb) = 2 ^ k" "k < 32" "n \<le> 2 ^ k"
    using assms(1) unfolding n_def by (rule ringbuf_okE)
  have pow: "(2::nat) ^ k \<le> 2 ^ 31" using k(2) by (intro power_increasing) simp_all
  have cnt: "rb_tail rb + 1 - rb_head rb = ringbuf_count rb + 1"
    by (simp add: ringbuf_count_def)
  have unat1: "unat (ringbuf_count rb + 1) = Suc n"
    using k(3) pow unfolding n_def by (subst unat_word_ariths) simp
  have pos: "unat (rb_tail rb mod rb_size rb) = rb_cell rb n"
    unfolding n_def using k(1,2) by (rule rb_tail_cell)
  have over: "rb_size rb < rb_tail rb + 1 - rb_head rb \<longleftrightarrow> n = s"
    using k by (auto simp: cnt word_less_nat_alt unat1 s_def)
  have count1: "ringbuf_count rb1 = ringbuf_count rb + 1"
    by (simp add: ringbuf_count_def rb1_def)
  have count2: "ringbuf_count (rb1\<lparr>rb_head := rb_head rb + 1\<rparr>) = ringbuf_count rb"
    by (simp add: ringbuf_count_def rb1_def)
  have wr: "ringbuf_write rb c
      = (if n = s then rb1\<lparr>rb_head := rb_head rb + 1\<rparr> else rb1)"
    by (simp add: ringbuf_write_def Let_def over pos rb1_def)
  show "n < s \<Longrightarrow> ringbuf_write rb c = rb1 \<and> unat (ringbuf_count rb1) = Suc n"
    by (simp add: wr count1 unat1)
  show "n = s \<Longrightarrow> ringbuf_write rb c = rb1\<lparr>rb_head := rb_head rb + 1\<rparr>
      \<and> unat (ringbuf_count (rb1\<lparr>rb_head := rb_head rb + 1\<rparr>)) = n"
    by (simp add: wr count2 n_def)
qed

lemma rb_list_write:
  assumes "ringbuf_ok rb"
  shows "rb_list (ringbuf_write rb c)
    = drop (Suc (length (rb_list rb)) - unat (rb_size rb)) (rb_list rb @ [c])"
proof -
  let ?n = "unat (ringbuf_count rb)" and ?s = "unat (rb_size rb)"
  let ?b = "(rb_buf rb)[rb_cell rb ?n := c]"
  obtain k where k: "unat (rb_size rb) = 2 ^ k" "k < 32" "?n \<le> ?s"
    using ringbuf_okE [OF assms] by metis
  have cell: "?b ! rb_cell rb i = (if i = ?n then c else rb_buf rb ! rb_cell rb i)"
    if "i < ?s \<or> ?n < ?s \<and> i = ?n" "?n < ?s" for i
    using that rb_cell_inj [of rb i ?n] rb_cell_less [OF assms] by (auto simp: nth_list_update)
  show ?thesis
  proof (cases "?n = ?s")
    case False
    with k(3) have lt: "?n < ?s" by simp
    have "rb_list (ringbuf_write rb c) = map (\<lambda>i. ?b ! rb_cell rb i) [0..<Suc ?n]"
      using ringbuf_write_cases(1) [OF assms lt, of c] by (simp add: rb_list_def rb_cell_def)
    also have "\<dots> = rb_list rb @ [c]"
      using lt by (auto simp: rb_list_def cell)
    finally show ?thesis using lt by (simp add: rb_list_def)
  next
    case True
    have zero: "rb_cell rb ?n = rb_cell rb 0"
      using True k(1) by (simp add: rb_cell_def)
    have "rb_list (ringbuf_write rb c) = map (\<lambda>i. ?b ! rb_cell rb (Suc i)) [0..<?n]"
      using ringbuf_write_cases(2) [OF assms True, of c] rb_cell_head_add [OF k(1,2), of 1]
      by (simp add: rb_list_def rb_cell_def)
    also have "\<dots> = tl (rb_list rb) @ [c]"
    proof (rule nth_equalityI)
      show "length (map (\<lambda>i. ?b ! rb_cell rb (Suc i)) [0..<?n]) = length (tl (rb_list rb) @ [c])"
        using True k(1) by (simp add: rb_list_def)
    next
      fix i assume "i < length (map (\<lambda>i. ?b ! rb_cell rb (Suc i)) [0..<?n])"
      then have i: "i < ?n" by simp
      show "map (\<lambda>i. ?b ! rb_cell rb (Suc i)) [0..<?n] ! i = (tl (rb_list rb) @ [c]) ! i"
      proof (cases "Suc i = ?n")
        case True
        then have "\<not> i < ?n - 1" by arith
        then show ?thesis using i True rb_cell_less [OF assms]
          by (simp add: nth_append rb_list_def)
      next
        case False
        then have "rb_cell rb (Suc i) \<noteq> rb_cell rb ?n"
          using rb_cell_inj [of rb "Suc i" 0] i True zero by auto
        moreover have "i < ?n - 1" using i False by arith
        ultimately show ?thesis using i by (simp add: nth_append rb_list_def nth_tl less_diff_conv)
      qed
    qed
    finally have "rb_list (ringbuf_write rb c) = tl (rb_list rb) @ [c]" .
    moreover have "length (rb_list rb) = ?s" "0 < ?s" using True k(1) by (simp_all add: rb_list_def)
    ultimately show ?thesis by (simp add: drop_Suc)
  qed
qed

lemma ringbuf_write_ok [inv_intros]:
  assumes "ringbuf_ok rb"
  shows "ringbuf_ok (ringbuf_write rb c)"
proof (cases "unat (ringbuf_count rb) = unat (rb_size rb)")
  case True
  from ringbuf_write_cases(2) [OF assms this, of c] assms show ?thesis
    by (simp add: ringbuf_ok_def word_le_nat_alt)
next
  case False
  with assms have lt: "unat (ringbuf_count rb) < unat (rb_size rb)"
    by (simp add: ringbuf_ok_def word_le_nat_alt)
  from ringbuf_write_cases(1) [OF assms lt, of c] assms lt show ?thesis
    by (simp add: ringbuf_ok_def word_le_nat_alt)
qed

lemma rb_size_write [simp]: "rb_size (ringbuf_write rb c) = rb_size rb"
  by (simp add: ringbuf_write_def Let_def)

lemma ringbuf_consume_sim:
  assumes "ringbuf_ok rb" and "n \<le> length (rb_list rb)"
  shows "ringbuf_ok (ringbuf_consume rb (of_nat n))"
    and "rb_list (ringbuf_consume rb (of_nat n)) = drop n (rb_list rb)"
proof -
  let ?rb = "ringbuf_consume rb (of_nat n)" and ?c = "ringbuf_count rb"
  obtain k where k: "unat (rb_size rb) = 2 ^ k" "k < 32"
    using ringbuf_okE [OF assms(1)] by metis
  have n: "n \<le> unat ?c" using assms(2) by (simp add: rb_list_def)
  then have unat_n: "unat (of_nat n :: u32) = n"
    by (intro unat_of_nat_small) (use unat_lt2p [of ?c] in simp)
  have "ringbuf_count ?rb = ?c - of_nat n"
    by (simp add: ringbuf_consume_def ringbuf_count_def)
  then have cnt: "unat (ringbuf_count ?rb) = unat ?c - n"
    using n by (simp add: unat_sub_if' unat_n)
  show "ringbuf_ok ?rb"
    using assms(1) cnt by (auto simp: ringbuf_ok_def ringbuf_consume_def word_le_nat_alt)
  have "rb_cell ?rb i = rb_cell rb (n + i)" for i
    using rb_cell_head_add [OF k, of "of_nat n"] by (simp add: ringbuf_consume_def unat_n)
  moreover have "rb_buf ?rb = rb_buf rb" by (simp add: ringbuf_consume_def)
  ultimately show "rb_list ?rb = drop n (rb_list rb)"
    by (intro nth_equalityI) (auto simp: rb_list_def cnt less_diff_conv add.commute)
qed

lemma ringbuf_read_sim:
  assumes "ringbuf_ok rb"
  shows "rb_slice rb (ringbuf_read rb)
      = take (length (rb_slice rb (ringbuf_read rb))) (rb_list rb)"
    and "rb_slice rb (ringbuf_read rb) = [] \<longleftrightarrow> rb_list rb = []"
    and "length (rb_slice rb (ringbuf_read rb)) = unat (snd (ringbuf_read rb))"
proof -
  let ?c = "ringbuf_count rb" and ?pos = "rb_head rb mod rb_size rb"
  let ?sl = "rb_slice rb (ringbuf_read rb)"
  obtain k where k: "unat (rb_size rb) = 2 ^ k" "k < 32" "length (rb_buf rb) = 2 ^ k"
    using ringbuf_okE [OF assms] by metis
  have pos: "unat ?pos = rb_cell rb 0" by (simp add: unat_mod rb_cell_def)
  then have pos_less: "unat ?pos < 2 ^ k" using rb_cell_less [OF assms, of 0] k by simp
  then have sub: "unat (rb_size rb - ?pos) = 2 ^ k - unat ?pos"
    using k by (simp add: unat_sub_if')
  have sl: "?sl = take (min (unat ?c) (2 ^ k - unat ?pos)) (drop (unat ?pos) (rb_buf rb))"
    by (auto simp: rb_slice_def ringbuf_read_def Let_def sub min_def word_le_nat_alt)
  have snd: "unat (snd (ringbuf_read rb)) = min (unat ?c) (2 ^ k - unat ?pos)"
    by (auto simp: ringbuf_read_def Let_def sub min_def word_le_nat_alt)
  show len: "length ?sl = unat (snd (ringbuf_read rb))" using k by (simp add: sl snd)
  show "?sl = [] \<longleftrightarrow> rb_list rb = []"
    using k pos_less by (auto simp: sl rb_list_def)
  have "rb_cell rb i = unat ?pos + i" if "i < 2 ^ k - unat ?pos" for i
  proof -
    have "rb_cell rb i = (unat ?pos + i) mod 2 ^ k"
      using k by (simp add: rb_cell_def unat_mod mod_add_left_eq)
    with that show ?thesis by simp
  qed
  then show "?sl = take (length ?sl) (rb_list rb)"
    using k by (intro nth_equalityI) (auto simp: sl rb_list_def)
qed

interpretation rbq: byte_queue ringbuf_ok rb_list "\<lambda>rb. unat (rb_size rb)" ringbuf_write
    "\<lambda>rb. rb_slice rb (ringbuf_read rb)" "\<lambda>rb n. ringbuf_consume rb (of_nat n)"
proof (unfold_locales, goal_cases)
  case (1 q) then show ?case by (simp add: ringbuf_ok_def rb_list_def word_le_nat_alt)
next
  case (2 q) then show ?case by (simp add: ringbuf_ok_def unat_gt_0)
next
  case (3 q c) then show ?case by (rule ringbuf_write_ok)
next
  case (4 q c) then show ?case by (rule rb_list_write)
next
  case (5 q c) show ?case by simp
next
  case (6 q) then show ?case by (rule ringbuf_read_sim(1))
next
  case (7 q) then show ?case by (rule ringbuf_read_sim(2))
next
  case (8 q n) then show ?case by (rule ringbuf_consume_sim(1))
next
  case (9 q n) then show ?case by (rule ringbuf_consume_sim(2))
next
  case (10 q n) then show ?case by (simp add: ringbuf_consume_def)
qed

section \<open>Properties\<close>

text \<open>
  Every accepted \<^verbatim>\<open>size\<close> gives a well-formed empty buffer, when the allocator hands out
  a block of that length; every other size is refused with \<^verbatim>\<open>-ERANGE\<close>.
\<close>

lemma ringbuf_init_Ok:
  assumes "ringbuf_init (Some b) sz = Ok rb" and "length b = unat sz"
  shows "ringbuf_ok rb \<and> rb_list rb = [] \<and> unat (rb_size rb) = unat sz"
  using assms
  by (auto simp: ringbuf_init_def ringbuf_ok_def rb_list_def ringbuf_count_def split: if_splits)



text \<open>
  C16. Reading is lossless: the slice \<^verbatim>\<open>ringbuf_read\<close> hands out, followed by what the
  buffer holds once any prefix of that slice has been consumed, is what the buffer held
  before; the slice lies inside the array, and it is empty only if the buffer is.
\<close>

theorem ringbuf_read_consume_lossless:
  assumes "ringbuf_ok rb" and "n \<le> unat (snd (ringbuf_read rb))"
  shows "take n (rb_slice rb (ringbuf_read rb)) @ rb_list (ringbuf_consume rb (of_nat n))
      = rb_list rb \<and>
    ringbuf_ok (ringbuf_consume rb (of_nat n)) \<and>
    (snd (ringbuf_read rb) = 0 \<longleftrightarrow> rb_list rb = [])"
proof (intro conjI)
  note len = ringbuf_read_sim(3) [OF assms(1)]
  show "take n (rb_slice rb (ringbuf_read rb)) @ rb_list (ringbuf_consume rb (of_nat n))
      = rb_list rb"
    using assms len by (intro rbq.drain_step(1)) simp_all
  show "ringbuf_ok (ringbuf_consume rb (of_nat n))"
    using assms len by (intro rbq.drain_step(2)) simp_all
  show "snd (ringbuf_read rb) = 0 \<longleftrightarrow> rb_list rb = []"
    using len rbq.peek_empty [OF assms(1)] by (metis length_0_conv unat_eq_zero)
qed

theorem ringbuf_read_consume_lossless_witness:
  "let rb = \<lparr>rb_buf = [7, 8], rb_head = 4294967295, rb_tail = 1, rb_size = 2\<rparr> in
   ringbuf_ok rb \<and> rb_list rb = [8, 7] \<and> rb_list (ringbuf_consume rb 1) = [7]"
proof -
  let ?rb = "\<lparr>rb_buf = [7, 8], rb_head = 4294967295, rb_tail = 1, rb_size = 2\<rparr>"
  have ok: "ringbuf_ok ?rb" by code_simp
  have n: "1 \<le> unat (snd (ringbuf_read ?rb))" by code_simp
  have l: "rb_list ?rb = [8, 7]"
    by (simp add: rb_list_def ringbuf_count_def rb_cell_def upt_rec)
  have r: "ringbuf_read ?rb = (Some 1, 1)" by code_simp
  have s: "rb_slice ?rb (ringbuf_read ?rb) = [8]" by (simp add: r rb_slice_def)
  show ?thesis
    using ringbuf_read_consume_lossless [OF ok n] ok by (simp add: l s)
qed

end
