(* ===== verification/Bitmap.thy ===== *)
theory Bitmap
  imports Prelude
begin

text \<open>
  The bit arrays of \<^verbatim>\<open>lib/bitmap.c\<close> with the bit scans of
  \<^verbatim>\<open>common/include/grinch/bitops.h\<close>. A bitmap is the list of its 64-bit words, so all
  masks, shifts and scans are the word operations of the source; bit numbers and sizes
  (\<^verbatim>\<open>unsigned long\<close>) are \<open>nat\<close>: they index an array in memory, so no sum of them
  reaches $2^{64}$. Where the source narrows to \<^verbatim>\<open>unsigned int\<close> or \<^verbatim>\<open>int\<close>
  (\<open>bitmap_set\<close>, \<open>bitmap_clear\<close>) the conversion is written out. The run length \<^verbatim>\<open>nr\<close> and the
  alignment mask of the search for a run are values the callers have narrowed already.
\<close>

type_synonym bitmap = "u64 list"

abbreviation BITS_PER_LONG :: nat where
  "BITS_PER_LONG \<equiv> 64"

section \<open>Bit scans and masks\<close>

definition u32_of :: "nat \<Rightarrow> nat" where
  "u32_of n = n mod 2 ^ 32"

definition int_of_uint :: "nat \<Rightarrow> int" where
  "int_of_uint n = (if u32_of n < 2 ^ 31 then int (u32_of n) else int (u32_of n) - 2 ^ 32)"

text \<open>One halving step of \<^verbatim>\<open>__ffsl\<close>: if the low \<open>k\<close> bits are clear, skip them.\<close>

definition ffsl_step :: "nat \<Rightarrow> nat \<times> u64 \<Rightarrow> nat \<times> u64" where
  "ffsl_step k = (\<lambda>(num, word).
     if word AND mask k = 0 then (num + k, drop_bit k word) else (num, word))"

definition ffsl :: "u64 \<Rightarrow> nat" where
  "ffsl word =
     (let (num, word) = ffsl_step 2 (ffsl_step 4 (ffsl_step 8 (ffsl_step 16
            (ffsl_step 32 (0, word)))))
      in if word AND 1 = 0 then num + 1 else num)"

definition swab32 :: "u32 \<Rightarrow> u32" where
  "swab32 x =
     push_bit 24 (take_bit 8 x) OR push_bit 16 (take_bit 8 (drop_bit 8 x)) OR
     push_bit 8 (take_bit 8 (drop_bit 16 x)) OR take_bit 8 (drop_bit 24 x)"

definition swab :: "u64 \<Rightarrow> u64" where
  "swab x = push_bit 32 (ucast (swab32 (ucast x))) OR ucast (swab32 (ucast (drop_bit 32 x)))"

definition BITMAP_FIRST_WORD_MASK :: "nat \<Rightarrow> u64" where
  "BITMAP_FIRST_WORD_MASK start = push_bit (start mod BITS_PER_LONG) (- 1)"

text \<open>\<open>-nbits\<close> is taken in \<^verbatim>\<open>unsigned int\<close>; only its low six bits are used.\<close>

definition BITMAP_LAST_WORD_MASK :: "nat \<Rightarrow> u64" where
  "BITMAP_LAST_WORD_MASK nbits = drop_bit (nat ((- int nbits) mod int BITS_PER_LONG)) (- 1)"

definition BIT_WORD :: "nat \<Rightarrow> nat" where
  "BIT_WORD nr = nr div BITS_PER_LONG"

definition test_bit :: "nat \<Rightarrow> bitmap \<Rightarrow> bool" where
  "test_bit nr addr \<longleftrightarrow> push_bit (nr mod BITS_PER_LONG) 1 AND addr ! (nr div BITS_PER_LONG) \<noteq> 0"

section \<open>Searching\<close>

definition fetch_word :: "bitmap \<Rightarrow> bitmap option \<Rightarrow> u64 \<Rightarrow> nat \<Rightarrow> u64" where
  "fetch_word addr1 addr2 invert start =
     (let tmp = addr1 ! (start div BITS_PER_LONG);
          tmp = (case addr2 of None \<Rightarrow> tmp | Some a2 \<Rightarrow> tmp AND a2 ! (start div BITS_PER_LONG))
      in tmp XOR invert)"

function find_next_bit_loop ::
    "bitmap \<Rightarrow> bitmap option \<Rightarrow> nat \<Rightarrow> u64 \<Rightarrow> u64 \<Rightarrow> nat \<Rightarrow> u64 \<Rightarrow> nat" where
  "find_next_bit_loop addr1 addr2 nbits invert le start tmp =
     (if tmp = 0 then
        (let start = start + BITS_PER_LONG
         in if start \<ge> nbits then nbits
            else find_next_bit_loop addr1 addr2 nbits invert le start
                   (fetch_word addr1 addr2 invert start))
      else let tmp = (if le \<noteq> 0 then swab tmp else tmp)
           in min (start + ffsl tmp) nbits)"
  by pat_completeness auto
termination
  by (relation "measure (\<lambda>(a1, a2, nbits, invert, le, start, tmp). nbits - start)") auto

definition find_next_bit_gen ::
    "bitmap \<Rightarrow> bitmap option \<Rightarrow> nat \<Rightarrow> nat \<Rightarrow> u64 \<Rightarrow> u64 \<Rightarrow> nat" where
  "find_next_bit_gen addr1 addr2 nbits start invert le =
     (if start \<ge> nbits then nbits
      else let tmp = fetch_word addr1 addr2 invert start;
               msk = BITMAP_FIRST_WORD_MASK start;
               msk = (if le \<noteq> 0 then swab msk else msk);
               tmp = tmp AND msk;
               start = start - start mod BITS_PER_LONG
           in find_next_bit_loop addr1 addr2 nbits invert le start tmp)"

definition find_next_bit :: "bitmap \<Rightarrow> nat \<Rightarrow> nat \<Rightarrow> nat" where
  "find_next_bit addr sz offset = find_next_bit_gen addr None sz offset 0 0"

definition find_next_zero_bit :: "bitmap \<Rightarrow> nat \<Rightarrow> nat \<Rightarrow> nat" where
  "find_next_zero_bit addr sz offset = find_next_bit_gen addr None sz offset (- 1) 0"

section \<open>Setting and clearing ranges\<close>

text \<open>
  The loop over whole words, shared by both routines (\<open>f\<close> is \<^verbatim>\<open>*p |= mask\<close> or
  \<^verbatim>\<open>*p &= ~mask\<close>). It returns the array, the word it stopped at, the rest of
  \<^verbatim>\<open>len\<close> and the mask for that word.
\<close>

function bitmap_range_loop ::
    "(u64 \<Rightarrow> u64 \<Rightarrow> u64) \<Rightarrow> bitmap \<Rightarrow> nat \<Rightarrow> int \<Rightarrow> int \<Rightarrow> u64 \<Rightarrow> bitmap \<times> nat \<times> int \<times> u64" where
  "bitmap_range_loop f bm p len bits msk =
     (if len - bits \<ge> 0 then
        bitmap_range_loop f (bm[p := f (bm ! p) msk]) (p + 1) (len - bits) 64 (- 1)
      else (bm, p, len, msk))"
  by pat_completeness auto
termination
  by (relation "measures [\<lambda>(f, bm, p, len, bits, msk). if bits = 64 then 0 else 1,
                          \<lambda>(f, bm, p, len, bits, msk). nat len]") auto

definition bitmap_range :: "(u64 \<Rightarrow> u64 \<Rightarrow> u64) \<Rightarrow> bitmap \<Rightarrow> nat \<Rightarrow> nat \<Rightarrow> bitmap" where
  "bitmap_range f bm start nbits =
     (let start = u32_of start;
          len = int_of_uint nbits;
          p = BIT_WORD start;
          sz = u32_of (nat ((int start + len) mod 2 ^ 32));
          bits = int BITS_PER_LONG - int (start mod BITS_PER_LONG);
          (bm, p, len, msk) =
            bitmap_range_loop f bm p len bits (BITMAP_FIRST_WORD_MASK start)
      in if len \<noteq> 0
         then bm[p := f (bm ! p) (msk AND BITMAP_LAST_WORD_MASK sz)]
         else bm)"

definition bitmap_clear :: "bitmap \<Rightarrow> nat \<Rightarrow> nat \<Rightarrow> bitmap" where
  "bitmap_clear = bitmap_range (\<lambda>w msk. w AND NOT msk)"

definition bitmap_set :: "bitmap \<Rightarrow> nat \<Rightarrow> nat \<Rightarrow> bitmap" where
  "bitmap_set = bitmap_range (\<lambda>w msk. w OR msk)"

declare find_next_bit_loop.simps [simp del] bitmap_range_loop.simps [simp del]

section \<open>Correctness of the scans\<close>

definition ffs_window :: "u64 \<Rightarrow> nat \<Rightarrow> nat \<times> u64 \<Rightarrow> bool" where
  "ffs_window W K nw \<longleftrightarrow>
     snd nw = drop_bit (fst nw) W \<and> take_bit (fst nw) W = 0 \<and> take_bit K (snd nw) \<noteq> 0"

lemma ffs_window_step:
  assumes "ffs_window W (2 * k) nw"
  shows "ffs_window W k (ffsl_step k nw)"
proof -
  obtain n w where nw: "nw = (n, w)" by (cases nw)
  from assms nw have w: "w = drop_bit n W" and low: "take_bit n W = 0"
    and win: "take_bit (2 * k) w \<noteq> 0" by (auto simp: ffs_window_def)
  show ?thesis
  proof (cases "take_bit k w = 0")
    case False
    then show ?thesis using w low by (simp add: nw ffs_window_def ffsl_step_def take_bit_eq_mask)
  next
    case True
    then have zero: "\<not> bit W (n + j)" if "j < k" for j
      using that w by (simp add: take_bit_zero_iff bit_drop_bit_eq)
    have low': "take_bit (n + k) W = 0"
      unfolding take_bit_zero_iff
    proof (intro allI impI)
      fix j assume "j < n + k"
      then show "\<not> bit W j"
        using low zero [of "j - n"] by (cases "j < n") (auto simp: take_bit_zero_iff)
    qed
    obtain j where j: "j < 2 * k" "bit w j" using win by (auto simp: take_bit_zero_iff)
    with True have "k \<le> j" by (metis not_le take_bit_zero_iff)
    then have "take_bit k (drop_bit k w) \<noteq> 0"
      using j unfolding take_bit_zero_iff
      by (auto simp: bit_drop_bit_eq intro!: exI [of _ "j - k"])
    with True w low' show ?thesis
      by (simp add: nw ffs_window_def ffsl_step_def take_bit_eq_mask drop_bit_drop_bit add.commute)
  qed
qed

lemma ffsl_correct:
  assumes "w \<noteq> 0"
  shows "bit w (ffsl w) \<and> (\<forall>j < ffsl w. \<not> bit w j)"
proof -
  let ?s = "ffsl_step 2 (ffsl_step 4 (ffsl_step 8 (ffsl_step 16 (ffsl_step 32 (0, w)))))"
  have "take_bit 64 w = w" by (rule take_bit_length_eq [where 'a = 64, simplified])
  with assms have "ffs_window w (2 * 32) (0, w)" by (simp add: ffs_window_def)
  then have "ffs_window w 2 ?s"
    using ffs_window_step [of w 32 "(0, w)"] ffs_window_step [of w 16] ffs_window_step [of w 8]
      ffs_window_step [of w 4] ffs_window_step [of w 2] by simp
  then have "ffs_window w 1 (ffsl_step 1 ?s)" using ffs_window_step [of w 1 ?s] by simp
  moreover have "ffsl w = fst (ffsl_step 1 ?s)"
    by (simp add: ffsl_def ffsl_step_def [of "Suc 0"] split: prod.split)
  ultimately have "take_bit (ffsl w) w = 0" and "take_bit 1 (drop_bit (ffsl w) w) \<noteq> 0"
    by (auto simp only: ffs_window_def)
  then show ?thesis
    unfolding take_bit_zero_iff by (simp add: bit_drop_bit_eq)
qed

text \<open>The bit a search looks at, and what it means that a search found \<open>r\<close>.\<close>

definition search_bit :: "bitmap \<Rightarrow> bitmap option \<Rightarrow> u64 \<Rightarrow> nat \<Rightarrow> bool" where
  "search_bit a1 a2 iv i \<longleftrightarrow> bit (fetch_word a1 a2 iv i) (i mod 64)"

definition first_from :: "(nat \<Rightarrow> bool) \<Rightarrow> nat \<Rightarrow> nat \<Rightarrow> nat \<Rightarrow> bool" where
  "first_from P start n r \<longleftrightarrow>
     start \<le> r \<and> r \<le> n \<and> (\<forall>i. start \<le> i \<and> i < r \<longrightarrow> \<not> P i) \<and> (r < n \<longrightarrow> P r)"

lemma fetch_word_cong:
  "i div 64 = j div 64 \<Longrightarrow> fetch_word a1 a2 iv i = fetch_word a1 a2 iv j"
  by (cases a2) (simp_all add: fetch_word_def)

lemma search_bit_word:
  assumes "64 dvd s" and "j < 64"
  shows "search_bit a1 a2 iv (s + j) \<longleftrightarrow> bit (fetch_word a1 a2 iv s) j"
proof -
  from assms(1) obtain q where "s = 64 * q" by (elim dvdE)
  with assms(2) show ?thesis
    by (simp add: search_bit_def fetch_word_cong [of "64 * q + j" "64 * q"])
qed

lemma find_next_bit_loop_first:
  assumes "64 dvd s" and "s < nbits" and "st < s + 64" and "st < nbits"
    and "\<And>j. j < 64 \<Longrightarrow> bit tmp j \<longleftrightarrow> st \<le> s + j \<and> search_bit a1 a2 iv (s + j)"
    and "\<And>i. st \<le> i \<Longrightarrow> i < s \<Longrightarrow> \<not> search_bit a1 a2 iv i"
  shows "first_from (search_bit a1 a2 iv) st nbits
    (find_next_bit_loop a1 a2 nbits iv 0 s tmp)"
  using assms
proof (induction a1 a2 nbits iv "0 :: u64" s tmp rule: find_next_bit_loop.induct)
  case (1 a1 a2 nbits iv s tmp)
  note unfold = find_next_bit_loop.simps [of a1 a2 nbits iv 0 s tmp]
  show ?case
  proof (cases "tmp = 0")
    case False
    then have ffs: "bit tmp (ffsl tmp)" "\<And>j. j < ffsl tmp \<Longrightarrow> \<not> bit tmp j"
      using ffsl_correct by auto
    then have less: "ffsl tmp < 64" using bit_imp_le_length by fastforce
    have none: "\<not> search_bit a1 a2 iv i" if "st \<le> i" "i < s + ffsl tmp" for i
    proof (cases "i < s")
      case False
      then have "\<not> bit tmp (i - s)" using that ffs(2) by auto
      then show ?thesis using "1.prems"(5) [of "i - s"] False that less by auto
    qed (use "1.prems"(6) that in auto)
    have "st \<le> s + ffsl tmp \<and> search_bit a1 a2 iv (s + ffsl tmp)"
      using "1.prems"(5) [OF less] ffs(1) by simp
    then show ?thesis
      using unfold False none "1.prems"(4) by (auto simp: first_from_def min_def)
  next
    case True
    have none: "\<not> search_bit a1 a2 iv i" if "st \<le> i" "i < s + 64" for i
      using "1.prems"(5) [of "i - s"] "1.prems"(6) [of i] that True by (cases "i < s") auto
    show ?thesis
    proof (cases "s + 64 \<ge> nbits")
      case True
      then show ?thesis using unfold \<open>tmp = 0\<close> none "1.prems"(4) by (auto simp: first_from_def)
    next
      case False
      have "first_from (search_bit a1 a2 iv) st nbits (find_next_bit_loop a1 a2 nbits iv 0
          (s + 64) (fetch_word a1 a2 iv (s + 64)))"
      proof (rule "1.hyps" [OF \<open>tmp = 0\<close> refl False])
        show "64 dvd s + 64" using "1.prems"(1) by simp
        show "s + 64 < nbits" "st < s + 64 + 64" using False "1.prems"(3) by auto
        show "st < nbits" by (rule "1.prems"(4))
        show "bit (fetch_word a1 a2 iv (s + 64)) j \<longleftrightarrow>
            st \<le> s + 64 + j \<and> search_bit a1 a2 iv (s + 64 + j)" if "j < 64" for j
          using search_bit_word [of "s + 64" j] "1.prems"(1,3) that by simp
        show "\<not> search_bit a1 a2 iv i" if "st \<le> i" "i < s + 64" for i
          using none that by blast
      qed
      then show ?thesis using unfold \<open>tmp = 0\<close> False by (simp add: Let_def)
    qed
  qed
qed

lemma bit_first_word_mask:
  "j < 64 \<Longrightarrow> bit (BITMAP_FIRST_WORD_MASK start) j \<longleftrightarrow> start mod 64 \<le> j"
  by (auto simp: BITMAP_FIRST_WORD_MASK_def bit_push_bit_iff bit_not_iff_eq bit_mask_iff)

lemma find_next_bit_gen_first:
  assumes "start \<le> nbits"
  shows "first_from (search_bit a1 a2 iv) start nbits (find_next_bit_gen a1 a2 nbits start iv 0)"
proof (cases "start = nbits")
  case True
  then show ?thesis by (auto simp: find_next_bit_gen_def first_from_def)
next
  case False
  let ?s = "start - start mod 64"
  let ?tmp = "fetch_word a1 a2 iv start AND BITMAP_FIRST_WORD_MASK start"
  have s: "64 dvd ?s" "?s \<le> start" "start = ?s + start mod 64"
    by (simp_all add: dvd_minus_mod)
  have "fetch_word a1 a2 iv start = fetch_word a1 a2 iv ?s"
    by (rule fetch_word_cong) (simp add: minus_mod_eq_mult_div)
  then have bits: "bit ?tmp j \<longleftrightarrow> start \<le> ?s + j \<and> search_bit a1 a2 iv (?s + j)" if "j < 64" for j
    using that s(3) search_bit_word [OF s(1) that, of a1 a2 iv] bit_first_word_mask [OF that, of start]
    by (auto simp: bit_and_iff)
  have "first_from (search_bit a1 a2 iv) start nbits
      (find_next_bit_loop a1 a2 nbits iv 0 ?s ?tmp)"
  proof (rule find_next_bit_loop_first [OF s(1) _ _ _ bits])
    show "?s < nbits" "start < nbits" using False assms s(2) by auto
    have "start mod 64 < 64" by simp
    with s(3) show "start < ?s + 64" by linarith
  qed (use s in auto)
  then show ?thesis using False assms by (simp add: find_next_bit_gen_def Let_def)
qed

text \<open>\<open>bm_bit bm i\<close>: bit \<open>i\<close> of the array, the abstract view of a bitmap.\<close>

definition bm_bit :: "bitmap \<Rightarrow> nat \<Rightarrow> bool" where
  "bm_bit bm i \<longleftrightarrow> bit (bm ! (i div 64)) (i mod 64)"

lemma test_bit_bm_bit: "test_bit i bm = bm_bit bm i"
  by (simp add: test_bit_def bm_bit_def bit_iff_and_push_bit_not_eq_0 and.commute)

lemma find_next_bit_first:
  "start \<le> n \<Longrightarrow> first_from (bm_bit bm) start n (find_next_bit bm n start)"
  using find_next_bit_gen_first [of start n bm None 0]
  by (simp add: find_next_bit_def search_bit_def [abs_def] bm_bit_def [abs_def] fetch_word_def)

lemma find_next_zero_bit_first:
  "start \<le> n \<Longrightarrow> first_from (\<lambda>i. \<not> bm_bit bm i) start n (find_next_zero_bit bm n start)"
  using find_next_bit_gen_first [of start n bm None "- 1"]
  by (simp add: find_next_zero_bit_def search_bit_def [abs_def] bm_bit_def [abs_def]
      fetch_word_def bit_not_iff_eq not_le)

section \<open>Aligned zero areas\<close>

text \<open>\<^verbatim>\<open>(x + mask) & ~mask\<close>: the masked bits are cleared by subtracting them.\<close>

definition ALIGN_MASK :: "nat \<Rightarrow> nat \<Rightarrow> nat" where
  "ALIGN_MASK x msk = (x + msk) - ((x + msk) AND msk)"

lemma ALIGN_MASK_ge: "x \<le> ALIGN_MASK x msk"
proof -
  have "(x + msk) AND msk \<le> msk" by (simp add: and_nat_def nat_le_iff AND_upper2)
  then show ?thesis by (simp add: ALIGN_MASK_def)
qed

function bitmap_find_next_zero_area_off ::
    "bitmap \<Rightarrow> nat \<Rightarrow> nat \<Rightarrow> nat \<Rightarrow> nat \<Rightarrow> nat \<Rightarrow> nat" where
  "bitmap_find_next_zero_area_off bm sz start nr align_mask align_offset =
     (let index = find_next_zero_bit bm sz start;
          index = ALIGN_MASK (index + align_offset) align_mask - align_offset;
          e = index + nr
      in if e > sz then e
         else let i = find_next_bit bm e index
              in if i < e
                 then bitmap_find_next_zero_area_off bm sz (i + 1) nr align_mask align_offset
                 else index)"
  by pat_completeness auto
termination
proof (relation "measure (\<lambda>(bm, sz, start, nr, am, ao). sz - start)", goal_cases)
  case (2 bm sz start nr am ao z0 index e i)
  have z0: "sz \<le> start \<longrightarrow> z0 = sz" "start \<le> sz \<longrightarrow> start \<le> z0"
    using 2(1) find_next_zero_bit_first [of start sz bm]
    by (auto simp: first_from_def find_next_zero_bit_def find_next_bit_gen_def)
  have "z0 \<le> index" using ALIGN_MASK_ge [of "z0 + ao" am] 2(2) by simp
  moreover have "index \<le> i"
    using find_next_bit_first [of index e bm] 2(3,5) by (auto simp: first_from_def)
  ultimately show ?case using 2(3,4,6) z0 by auto
qed simp

definition bitmap_find_next_zero_area :: "bitmap \<Rightarrow> nat \<Rightarrow> nat \<Rightarrow> nat \<Rightarrow> nat \<Rightarrow> nat" where
  "bitmap_find_next_zero_area bm sz start nr align_mask =
     bitmap_find_next_zero_area_off bm sz start nr align_mask 0"

declare bitmap_find_next_zero_area_off.simps [simp del]

section \<open>Correctness of the range updates\<close>

definition masked_write :: "(u64 \<Rightarrow> u64 \<Rightarrow> u64) \<Rightarrow> bool \<Rightarrow> bool" where
  "masked_write f b \<longleftrightarrow>
     (\<forall>w msk j. j < 64 \<longrightarrow> bit (f w msk) j = (if bit msk j then b else bit w j))"

lemma masked_write_set: "masked_write (\<lambda>w msk. w OR msk) True"
  and masked_write_clear: "masked_write (\<lambda>w msk. w AND NOT msk) False"
  by (auto simp: masked_write_def bit_or_iff bit_and_iff bit_not_iff)

lemma bm_bit_update:
  assumes "masked_write f b" and "p < length bm"
  shows "bm_bit (bm[p := f (bm ! p) msk]) i
    = (if i div 64 = p \<and> bit msk (i mod 64) then b else bm_bit bm i)"
  using assms by (auto simp: bm_bit_def masked_write_def nth_list_update)

lemma bit_last_word_mask:
  assumes "j < 64" and "n mod 64 \<noteq> 0"
  shows "bit (BITMAP_LAST_WORD_MASK n) j \<longleftrightarrow> j < n mod 64"
proof -
  have "int n mod 64 = int (n mod 64)" by (simp add: zmod_int)
  with assms(2) have "int n mod 64 \<noteq> 0" by linarith
  then have "(- int n) mod 64 = 64 - int (n mod 64)"
    by (simp add: zmod_zminus1_eq_if zmod_int)
  then have "nat ((- int n) mod int 64) = 64 - n mod 64"
    by (simp add: nat_diff_distrib' del: of_nat_mod)
  then show ?thesis using assms
    by (auto simp: BITMAP_LAST_WORD_MASK_def bit_drop_bit_eq bit_mask_iff)
qed

definition bitmap_range_end :: "(u64 \<Rightarrow> u64 \<Rightarrow> u64) \<Rightarrow> nat \<Rightarrow> bitmap \<times> nat \<times> int \<times> u64 \<Rightarrow> bitmap" where
  "bitmap_range_end f sz = (\<lambda>(bm, p, len, msk).
     if len \<noteq> 0 then bm[p := f (bm ! p) (msk AND BITMAP_LAST_WORD_MASK sz)] else bm)"

lemma word_pos:
  fixes i p off e :: nat
  assumes "off < 64" "e \<le> 64"
  shows "(i div 64 = p \<and> off \<le> i mod 64 \<and> i mod 64 < e) \<longleftrightarrow> 64 * p + off \<le> i \<and> i < 64 * p + e"
proof -
  have i: "i = 64 * (i div 64) + i mod 64" by simp
  have m: "i mod 64 < 64" by simp
  show ?thesis
  proof
    assume "i div 64 = p \<and> off \<le> i mod 64 \<and> i mod 64 < e"
    then show "64 * p + off \<le> i \<and> i < 64 * p + e" using i m by linarith
  next
    assume *: "64 * p + off \<le> i \<and> i < 64 * p + e"
    then have "i div 64 = p" using assms by (intro div_nat_eqI) auto
    then show "i div 64 = p \<and> off \<le> i mod 64 \<and> i mod 64 < e" using * i by linarith
  qed
qed

lemma bitmap_range_loop_correct:
  assumes "masked_write f b" and "0 \<le> len" and "off < 64" and "bits = 64 - int off"
    and "\<And>j. j < 64 \<Longrightarrow> bit msk j \<longleftrightarrow> off \<le> j"
    and "64 * p + off + nat len \<le> 64 * length bm"
    and "sz mod 64 = (64 * p + off + nat len) mod 64"
  shows "length (bitmap_range_end f sz (bitmap_range_loop f bm p len bits msk)) = length bm \<and>
    (\<forall>i. bm_bit (bitmap_range_end f sz (bitmap_range_loop f bm p len bits msk)) i
        = (if 64 * p + off \<le> i \<and> i < 64 * p + off + nat len then b else bm_bit bm i))"
  using assms
proof (induction f bm p len bits msk arbitrary: off rule: bitmap_range_loop.induct)
  case (1 f bm p len bits msk off)
  note unfold = bitmap_range_loop.simps [of f bm p len bits msk]
  show ?case
  proof (cases "len - bits \<ge> 0")
    case True
    let ?bm = "bm[p := f (bm ! p) msk]"
    have p: "p < length bm" using 1(4,5,7) True by linarith
    have len: "64 * (p + 1) + 0 + nat (len - bits) = 64 * p + off + nat len"
      using True 1(4,5) by (cases len) auto
    have IH: "length (bitmap_range_end f sz (bitmap_range_loop f ?bm (p + 1) (len - bits) 64 (- 1)))
          = length ?bm \<and>
        (\<forall>i. bm_bit (bitmap_range_end f sz (bitmap_range_loop f ?bm (p + 1) (len - bits) 64 (- 1))) i
          = (if 64 * (p + 1) + 0 \<le> i \<and> i < 64 * (p + 1) + 0 + nat (len - bits) then b
             else bm_bit ?bm i))"
    proof (rule 1(1) [OF True 1(2)])
      show "64 * (p + 1) + 0 + nat (len - bits) \<le> 64 * length ?bm"
        unfolding len using 1(7) by simp
      show "sz mod 64 = (64 * (p + 1) + 0 + nat (len - bits)) mod 64"
        unfolding len by (rule 1(8))
    qed (use True in auto)
    have first: "bm_bit ?bm i
        = (if 64 * p + off \<le> i \<and> i < 64 * (p + 1) then b else bm_bit bm i)" for i
    proof -
      have "(i div 64 = p \<and> off \<le> i mod 64) \<longleftrightarrow> 64 * p + off \<le> i \<and> i < 64 * (p + 1)"
        using word_pos [OF 1(4), of 64 i p] by (simp add: add.commute)
      then show ?thesis using bm_bit_update [OF 1(2) p, of msk i] 1(6) by simp
    qed
    have eq: "bitmap_range_loop f bm p len bits msk
        = bitmap_range_loop f ?bm (p + 1) (len - bits) 64 (- 1)"
      using unfold True by simp
    have "64 * (p + 1) \<le> 64 * p + off + nat len" using len by linarith
    with 1(4) IH show ?thesis unfolding eq len first by auto
  next
    case False
    show ?thesis
    proof (cases "len = 0")
      case True
      then show ?thesis using unfold False by (auto simp: bitmap_range_end_def)
    next
      case nz: False
      let ?e = "off + nat len"
      have e: "off < ?e" "?e < 64" using False nz 1(3,5) by auto
      have p: "p < length bm" using 1(7) e by linarith
      have sz: "sz mod 64 = ?e"
        unfolding 1(8) add.assoc using e by simp
      have upd: "bit (msk AND BITMAP_LAST_WORD_MASK sz) j \<longleftrightarrow> off \<le> j \<and> j < ?e" if "j < 64" for j
        using bit_last_word_mask [OF that, of sz] sz e 1(6) [OF that] by (auto simp: bit_and_iff)
      have "(i div 64 = p \<and> off \<le> i mod 64 \<and> i mod 64 < ?e)
          \<longleftrightarrow> 64 * p + off \<le> i \<and> i < 64 * p + ?e" for i
        using e word_pos [of off ?e i p] 1(4) by simp
      then show ?thesis
        using unfold False nz upd bm_bit_update [OF 1(2) p]
        by (simp add: bitmap_range_end_def add.assoc)
    qed
  qed
qed

lemma bitmap_range_correct:
  assumes "masked_write f b" and "start + nbits \<le> 64 * length bm" and "start + nbits < 2 ^ 31"
  shows "length (bitmap_range f bm start nbits) = length bm \<and>
    (\<forall>i. bm_bit (bitmap_range f bm start nbits) i
        = (if start \<le> i \<and> i < start + nbits then b else bm_bit bm i))"
proof -
  have start: "u32_of start = start" and len: "int_of_uint nbits = int nbits"
    using assms(3) by (simp_all add: u32_of_def int_of_uint_def)
  have sz: "u32_of (nat ((int start + int nbits) mod 2 ^ 32)) = start + nbits"
    using assms(3) by (simp add: u32_of_def nat_add_distrib)
  have pos: "64 * BIT_WORD start + start mod 64 = start" by (simp add: BIT_WORD_def)
  have "bitmap_range f bm start nbits
      = bitmap_range_end f (start + nbits) (bitmap_range_loop f bm (BIT_WORD start) (int nbits)
          (64 - int (start mod 64)) (BITMAP_FIRST_WORD_MASK start))"
    unfolding bitmap_range_def bitmap_range_end_def Let_def start len sz by simp
  moreover note bitmap_range_loop_correct [OF assms(1), of "int nbits" "start mod 64"
      "64 - int (start mod 64)" "BITMAP_FIRST_WORD_MASK start" "BIT_WORD start" bm "start + nbits",
      unfolded pos nat_int]
  ultimately show ?thesis using assms(2) by (simp add: bit_first_word_mask)
qed

lemmas bitmap_set_correct = bitmap_range_correct [OF masked_write_set, folded bitmap_set_def]
lemmas bitmap_clear_correct = bitmap_range_correct [OF masked_write_clear, folded bitmap_clear_def]

section \<open>Correctness of the area search\<close>

lemma ALIGN_MASK_mult:
  "ALIGN_MASK x (2 ^ k - 1) = 2 ^ k * ((x + (2 ^ k - 1)) div 2 ^ k)"
proof -
  have "(y :: nat) AND (2 ^ k - 1) = y mod 2 ^ k" for y
    by (metis mask_eq_exp_minus_1 take_bit_eq_mask take_bit_eq_mod)
  then show ?thesis by (simp add: ALIGN_MASK_def minus_mod_eq_mult_div)
qed

lemma ALIGN_MASK_least:
  assumes "2 ^ k dvd y" and "x \<le> y"
  shows "ALIGN_MASK x (2 ^ k - 1) \<le> y"
proof -
  from assms(1) obtain q where q: "y = 2 ^ k * q" by (elim dvdE)
  have "(x + (2 ^ k - 1)) div 2 ^ k \<le> (y + (2 ^ k - 1)) div 2 ^ k"
    using assms(2) by (intro div_le_mono) simp
  also have "\<dots> = (2 ^ k - 1) div 2 ^ k + q" unfolding q by (subst div_mult_self4) simp_all
  also have "\<dots> = q" by simp
  finally show ?thesis unfolding ALIGN_MASK_mult q by simp
qed

text \<open>\<open>free_area bm k ao st sz nr a\<close>: \<open>a\<close> is an aligned run of \<open>nr\<close> clear bits.\<close>

definition free_area :: "bitmap \<Rightarrow> nat \<Rightarrow> nat \<Rightarrow> nat \<Rightarrow> nat \<Rightarrow> nat \<Rightarrow> nat \<Rightarrow> bool" where
  "free_area bm k ao st sz nr a \<longleftrightarrow>
     st \<le> a \<and> a + nr \<le> sz \<and> (a + ao) mod 2 ^ k = 0 \<and> (\<forall>i. a \<le> i \<and> i < a + nr \<longrightarrow> \<not> bm_bit bm i)"

lemma zero_area_step:
  fixes bm :: bitmap and k ao start sz nr a :: nat
  assumes "start \<le> sz"
  defines "index \<equiv> ALIGN_MASK (find_next_zero_bit bm sz start + ao) (2 ^ k - 1) - ao"
  shows "start \<le> index" and "(index + ao) mod 2 ^ k = 0"
    and "free_area bm k ao start sz nr a \<Longrightarrow> 0 < nr \<Longrightarrow> index \<le> a"
proof -
  let ?z = "find_next_zero_bit bm sz start"
  note z = find_next_zero_bit_first [OF assms(1), of bm, unfolded first_from_def]
  have ge: "?z + ao \<le> ALIGN_MASK (?z + ao) (2 ^ k - 1)" by (rule ALIGN_MASK_ge)
  then have ix: "index + ao = ALIGN_MASK (?z + ao) (2 ^ k - 1)" by (simp add: index_def)
  show "start \<le> index" using z ge ix by linarith
  show "(index + ao) mod 2 ^ k = 0" unfolding ix ALIGN_MASK_mult by simp
  assume a: "free_area bm k ao start sz nr a" "0 < nr"
  then have "start \<le> a" "\<not> bm_bit bm a" by (simp_all add: free_area_def)
  then have "?z \<le> a" using z by (meson not_le)
  then have "ALIGN_MASK (?z + ao) (2 ^ k - 1) \<le> a + ao"
    using a by (intro ALIGN_MASK_least) (auto simp: free_area_def mod_eq_0_iff_dvd)
  then show "index \<le> a" using ix by linarith
qed

lemma zero_area_correct:
  fixes bm :: bitmap and sz start nr k ao :: nat
  assumes "start \<le> sz"
  defines "r \<equiv> bitmap_find_next_zero_area_off bm sz start nr (2 ^ k - 1) ao"
  shows "r \<le> sz \<Longrightarrow> free_area bm k ao start sz nr r"
    and "free_area bm k ao start sz nr a \<Longrightarrow> 0 < nr \<Longrightarrow> r \<le> a"
proof -
  have "(r \<le> sz \<longrightarrow> free_area bm k ao start sz nr r) \<and>
      (\<forall>a. free_area bm k ao start sz nr a \<and> 0 < nr \<longrightarrow> r \<le> a)"
    using assms(1) unfolding r_def
  proof (induction bm sz start nr "2 ^ k - 1 :: nat" ao
      rule: bitmap_find_next_zero_area_off.induct)
    case (1 bm sz start nr ao)
    let ?index = "ALIGN_MASK (find_next_zero_bit bm sz start + ao) (2 ^ k - 1) - ao"
    let ?e = "?index + nr" and ?i = "find_next_bit bm (?index + nr) ?index"
    let ?rec = "bitmap_find_next_zero_area_off bm sz (?i + 1) nr (2 ^ k - 1) ao"
    note step = zero_area_step [OF "1.prems", where bm = bm and k = k and ao = ao]
    note unfold = bitmap_find_next_zero_area_off.simps [of bm sz start nr "2 ^ k - 1" ao]
    have i: "?index \<le> ?i" "?i \<le> ?e" "\<And>j. ?index \<le> j \<Longrightarrow> j < ?i \<Longrightarrow> \<not> bm_bit bm j"
      "?i < ?e \<Longrightarrow> bm_bit bm ?i"
      using find_next_bit_first [of ?index ?e bm] by (auto simp: first_from_def)
    show ?case
    proof (cases "?e > sz")
      case True
      then have "bitmap_find_next_zero_area_off bm sz start nr (2 ^ k - 1) ao = ?e"
        unfolding unfold Let_def by simp
      moreover have "False" if "free_area bm k ao start sz nr a" "0 < nr" for a
        using step(3) [OF that] True that by (simp add: free_area_def)
      ultimately show ?thesis using True by fastforce
    next
      case e: False
      show ?thesis
      proof (cases "?i < ?e")
        case False
        then have "?i = ?e" using i(2) by simp
        with i(3) have "free_area bm k ao start sz nr ?index"
          using step(1,2) e by (simp add: free_area_def)
        moreover have "bitmap_find_next_zero_area_off bm sz start nr (2 ^ k - 1) ao = ?index"
          unfolding unfold Let_def using e False by simp
        ultimately show ?thesis using step(3) by auto
      next
        case True
        have eq: "bitmap_find_next_zero_area_off bm sz start nr (2 ^ k - 1) ao = ?rec"
          unfolding unfold Let_def using e True by simp
        have IH: "(?rec \<le> sz \<longrightarrow> free_area bm k ao (?i + 1) sz nr ?rec) \<and>
            (\<forall>a. free_area bm k ao (?i + 1) sz nr a \<and> 0 < nr \<longrightarrow> ?rec \<le> a)"
          using "1.hyps" [OF refl refl refl e refl True] True e by simp
        have later: "?i < a" if "free_area bm k ao start sz nr a" "0 < nr" for a
        proof (rule ccontr)
          assume "\<not> ?i < a"
          moreover have "?index \<le> a" using step(3) that by blast
          ultimately have "a \<le> ?i" "?i < a + nr" using True by linarith+
          with that i(4) [OF True] show False by (simp add: free_area_def)
        qed
        have "start \<le> ?i" using step(1) i(1) by linarith
        then have "free_area bm k ao start sz nr a" if "free_area bm k ao (?i + 1) sz nr a" for a
          using that by (simp add: free_area_def)
        moreover have "free_area bm k ao (?i + 1) sz nr a"
          if "free_area bm k ao start sz nr a" "0 < nr" for a
          using later [OF that] that by (simp add: free_area_def)
        ultimately show ?thesis unfolding eq using IH by blast
      qed
    qed
  qed
  then show "r \<le> sz \<Longrightarrow> free_area bm k ao start sz nr r"
    and "free_area bm k ao start sz nr a \<Longrightarrow> 0 < nr \<Longrightarrow> r \<le> a" by blast+
qed

lemma zero_area_upper:
  "bitmap_find_next_zero_area_off bm sz start nr am 0 \<le> sz + am + nr"
proof (induction bm sz start nr am "0 :: nat" rule: bitmap_find_next_zero_area_off.induct)
  case (1 bm sz start nr am)
  let ?z = "find_next_zero_bit bm sz start" and ?index = "ALIGN_MASK (find_next_zero_bit bm sz start) am"
  have "?z \<le> sz"
    using find_next_zero_bit_first [of start sz bm]
    by (cases "start \<le> sz") (auto simp: first_from_def find_next_zero_bit_def find_next_bit_gen_def)
  moreover have "?index \<le> ?z + am" by (simp add: ALIGN_MASK_def)
  ultimately have index: "?index \<le> sz + am" by linarith
  show ?case
  proof (cases "sz < ?index + nr \<or> \<not> find_next_bit bm (?index + nr) ?index < ?index + nr")
    case True
    then show ?thesis
      using index by (subst bitmap_find_next_zero_area_off.simps) (auto simp: Let_def)
  next
    case False
    then have "bitmap_find_next_zero_area_off bm sz start nr am 0
        = bitmap_find_next_zero_area_off bm sz (find_next_bit bm (?index + nr) ?index + 1) nr am 0"
      by (subst bitmap_find_next_zero_area_off.simps) (simp add: Let_def)
    moreover have "\<dots> \<le> sz + am + nr"
      using "1.hyps" [OF refl refl refl _ refl] False by simp
    ultimately show ?thesis by simp
  qed
qed

section \<open>Area pools\<close>

text \<open>
  The contract the page allocator, the ASID allocator and the ioremap window rely on: a
  pool of slots, a first-fit search for an aligned free run, and marking and unmarking of a
  run. \<open>cap\<close> is the number of slots the pool can address.
\<close>

locale area_pool =
  fixes cap :: "'p \<Rightarrow> nat"
    and used :: "'p \<Rightarrow> nat \<Rightarrow> bool"
    and search :: "'p \<Rightarrow> nat \<Rightarrow> nat \<Rightarrow> nat \<Rightarrow> nat \<Rightarrow> nat"
    and claim :: "'p \<Rightarrow> nat \<Rightarrow> nat \<Rightarrow> 'p"
    and release :: "'p \<Rightarrow> nat \<Rightarrow> nat \<Rightarrow> 'p"
  assumes cap_claim: "s + n \<le> cap p \<Longrightarrow> cap (claim p s n) = cap p"
    and cap_release: "s + n \<le> cap p \<Longrightarrow> cap (release p s n) = cap p"
    and used_claim: "s + n \<le> cap p \<Longrightarrow> used (claim p s n) i \<longleftrightarrow> used p i \<or> s \<le> i \<and> i < s + n"
    and used_release:
      "s + n \<le> cap p \<Longrightarrow> used (release p s n) i \<longleftrightarrow> used p i \<and> \<not> (s \<le> i \<and> i < s + n)"
    and search_sound: "st \<le> sz \<Longrightarrow> search p sz st n k \<le> sz \<Longrightarrow> 
      st \<le> search p sz st n k \<and> search p sz st n k + n \<le> sz \<and> search p sz st n k mod 2 ^ k = 0 \<and>
      (\<forall>i. search p sz st n k \<le> i \<and> i < search p sz st n k + n \<longrightarrow> \<not> used p i)"
    and search_least: "st \<le> a \<Longrightarrow> a + n \<le> sz \<Longrightarrow> a mod 2 ^ k = 0 \<Longrightarrow> 0 < n \<Longrightarrow>
      (\<And>i. a \<le> i \<Longrightarrow> i < a + n \<Longrightarrow> \<not> used p i) \<Longrightarrow> search p sz st n k \<le> a"
begin

lemma release_claim:
  assumes "s + n \<le> cap p" and "\<And>i. s \<le> i \<Longrightarrow> i < s + n \<Longrightarrow> \<not> used p i"
  shows "used (release (claim p s n) s n) i \<longleftrightarrow> used p i"
  using assms by (auto simp: used_release used_claim cap_claim)

lemma grant_fresh:
  assumes "st \<le> sz" and "sz \<le> cap p" and "search p sz st n k \<le> sz"
  defines "a \<equiv> search p sz st n k"
  shows "(\<forall>i. a \<le> i \<and> i < a + n \<longrightarrow> \<not> used p i \<and> used (claim p a n) i) \<and>
    (\<forall>i. \<not> (a \<le> i \<and> i < a + n) \<longrightarrow> used (claim p a n) i = used p i) \<and> cap (claim p a n) = cap p"
  using search_sound [OF assms(1,3)] assms(2) by (auto simp: a_def used_claim cap_claim)

lemma grants_disjoint:
  assumes "st \<le> sz" and "sz \<le> cap p" and "search p sz st n k \<le> sz"
  defines "p' \<equiv> claim p (search p sz st n k) n"
  assumes "st' \<le> sz" and "search p' sz st' m k' \<le> sz"
  shows "{search p sz st n k ..< search p sz st n k + n}
    \<inter> {search p' sz st' m k' ..< search p' sz st' m k' + m} = {}"
  using grant_fresh [OF assms(1-3)] search_sound [OF assms(5,6)]
  unfolding p'_def by fastforce

lemma search_exhausted:
  assumes "sz < search p sz st n k" and "0 < n" and "st \<le> a" and "a + n \<le> sz"
    and "a mod 2 ^ k = 0"
  shows "\<exists>i. a \<le> i \<and> i < a + n \<and> used p i"
  using search_least [OF assms(3-5,2), of p] assms(1,4) by force

end

text \<open>
  On bitmaps: the slots are the bits, limited to the indices the 32-bit parameters of
  \<open>bitmap_set\<close> and \<open>bitmap_clear\<close> can express. The alignment is a power of two.
\<close>

definition bm_cap :: "bitmap \<Rightarrow> nat" where
  "bm_cap bm = min (64 * length bm) (2 ^ 31 - 1)"

definition bm_search :: "bitmap \<Rightarrow> nat \<Rightarrow> nat \<Rightarrow> nat \<Rightarrow> nat \<Rightarrow> nat" where
  "bm_search bm sz st n k = bitmap_find_next_zero_area bm sz st n (2 ^ k - 1)"

interpretation bmp: area_pool bm_cap bm_bit bm_search bitmap_set bitmap_clear
proof unfold_locales
  fix bm :: bitmap and s n i :: nat
  assume "s + n \<le> bm_cap bm"
  then have b: "s + n \<le> 64 * length bm" "s + n < 2 ^ 31" by (simp_all add: bm_cap_def)
  show "bm_cap (bitmap_set bm s n) = bm_cap bm" "bm_cap (bitmap_clear bm s n) = bm_cap bm"
    using bitmap_set_correct [OF b] bitmap_clear_correct [OF b] by (simp_all add: bm_cap_def)
  show "bm_bit (bitmap_set bm s n) i \<longleftrightarrow> bm_bit bm i \<or> s \<le> i \<and> i < s + n"
    "bm_bit (bitmap_clear bm s n) i \<longleftrightarrow> bm_bit bm i \<and> \<not> (s \<le> i \<and> i < s + n)"
    using bitmap_set_correct [OF b] bitmap_clear_correct [OF b] by auto
next
  fix bm :: bitmap and st sz n k :: nat
  assume "st \<le> sz" "bm_search bm sz st n k \<le> sz"
  then show "st \<le> bm_search bm sz st n k \<and> bm_search bm sz st n k + n \<le> sz \<and>
      bm_search bm sz st n k mod 2 ^ k = 0 \<and>
      (\<forall>i. bm_search bm sz st n k \<le> i \<and> i < bm_search bm sz st n k + n \<longrightarrow> \<not> bm_bit bm i)"
    using zero_area_correct(1) [of st sz bm n k 0]
    by (simp add: bm_search_def bitmap_find_next_zero_area_def free_area_def)
next
  fix bm :: bitmap and st sz n k a :: nat
  assume "st \<le> a" "a + n \<le> sz" "a mod 2 ^ k = 0" "0 < n"
    "\<And>i. a \<le> i \<Longrightarrow> i < a + n \<Longrightarrow> \<not> bm_bit bm i"
  then show "bm_search bm sz st n k \<le> a"
    using zero_area_correct(2) [of st sz bm k 0 n a]
    by (simp add: bm_search_def bitmap_find_next_zero_area_def free_area_def)
qed

section \<open>Properties\<close>

text \<open>
  C12. First fit: within the \<open>sz\<close> bits of the map, \<open>bitmap_find_next_zero_area\<close> with
  the mask of a power of two returns the lowest aligned run of \<open>nr\<close> clear bits at or
  above \<open>start\<close>; a result beyond \<open>sz\<close> means that no such run exists.
\<close>

theorem zero_area_first_fit:
  fixes bm :: bitmap and sz start nr k :: nat
  assumes "start \<le> sz" and "0 < nr"
  defines "fits \<equiv> free_area bm k 0 start sz nr"
    and "r \<equiv> bitmap_find_next_zero_area bm sz start nr (2 ^ k - 1)"
  shows "if r \<le> sz then fits r \<and> (\<forall>a < r. \<not> fits a) else \<forall>a. \<not> fits a"
proof -
  have "r \<le> sz \<Longrightarrow> fits r"
    using zero_area_correct(1) [OF assms(1), of bm nr k 0]
    by (simp add: r_def fits_def bitmap_find_next_zero_area_def)
  moreover have "r \<le> a" if "fits a" for a
    using zero_area_correct(2) [OF assms(1), of bm k 0 nr a] assms(2) that
    by (simp add: r_def fits_def bitmap_find_next_zero_area_def)
  moreover have "a \<le> sz" if "fits a" for a using that by (simp add: fits_def free_area_def)
  ultimately show ?thesis by (meson le_trans not_le)
qed

theorem zero_area_first_fit_witness:
  "free_area [0xF1] 2 0 1 64 4 8 \<and> \<not> free_area [0xF1] 2 0 1 64 4 4"
proof -
  have "bitmap_find_next_zero_area [0xF1] 64 1 4 (2 ^ 2 - 1) = 8" by code_simp
  then show ?thesis using zero_area_first_fit [of 1 64 4 "[0xF1]" 2] by simp
qed

text \<open>
  C14. \<open>bitmap_set\<close> and \<open>bitmap_clear\<close> change exactly the bits of the requested range,
  across word boundaries, and clearing a range that was free when it was set gives every
  bit its old value back.
\<close>

theorem bitmap_set_clear_exact:
  assumes "start + nbits \<le> 64 * length bm" and "start + nbits < 2 ^ 31"
  shows "(\<forall>i. bm_bit (bitmap_set bm start nbits) i \<longleftrightarrow>
              bm_bit bm i \<or> start \<le> i \<and> i < start + nbits) \<and>
    (\<forall>i. bm_bit (bitmap_clear bm start nbits) i \<longleftrightarrow>
              bm_bit bm i \<and> \<not> (start \<le> i \<and> i < start + nbits)) \<and>
    ((\<forall>i. start \<le> i \<and> i < start + nbits \<longrightarrow> \<not> bm_bit bm i) \<longrightarrow>
      (\<forall>i. bm_bit (bitmap_clear (bitmap_set bm start nbits) start nbits) i = bm_bit bm i))"
proof -
  have cap: "start + nbits \<le> bm_cap bm" using assms by (simp add: bm_cap_def)
  show ?thesis
    using bmp.used_claim [OF cap] bmp.used_release [OF cap] bmp.release_claim [OF cap] by blast
qed

theorem bitmap_set_clear_exact_witness:
  "(\<forall>i. bm_bit (bitmap_set [1, 0, 0] 60 70) i \<longleftrightarrow> bm_bit [1, 0, 0] i \<or> 60 \<le> i \<and> i < 60 + 70) \<and>
   (\<forall>i. bm_bit (bitmap_clear [1, 0, 0] 60 70) i \<longleftrightarrow>
        bm_bit [1, 0, 0] i \<and> \<not> (60 \<le> i \<and> i < 60 + 70))"
  using bitmap_set_clear_exact [of 60 70 "[1, 0, 0]"] by simp

end
