(* ===== verification/Layout.thy ===== *)
theory Layout
  imports Prelude
begin

text \<open>
  Page arithmetic (\<^verbatim>\<open>common/include/asm-generic/paging.h\<close>) and the rv64 address-space
  layout (\<^verbatim>\<open>include/asm-generic/grinch_layout.h\<close>), on 64-bit words.
\<close>

section \<open>Pages\<close>

definition PAGE_SHIFT :: nat where
  "PAGE_SHIFT = 12"

definition PAGE_SIZE :: u64 where
  "PAGE_SIZE = push_bit PAGE_SHIFT 1"

definition PMASK :: "u64 \<Rightarrow> u64" where
  "PMASK x = NOT (x - 1)"

definition PAGE_MASK :: u64 where
  "PAGE_MASK = PMASK PAGE_SIZE"

definition PAGE_OFFS_MASK :: u64 where
  "PAGE_OFFS_MASK = NOT PAGE_MASK"

definition MEGA_PAGE_SHIFT :: nat where
  "MEGA_PAGE_SHIFT = PAGE_SHIFT + 9"

definition PAGES :: "u64 \<Rightarrow> u64" where
  "PAGES x = x div PAGE_SIZE"

definition page_up :: "u64 \<Rightarrow> u64" where
  "page_up diff = (diff + PAGE_SIZE - 1) AND PAGE_MASK"

definition page_offset :: "u64 \<Rightarrow> u32" where
  "page_offset addr = ucast (addr AND PAGE_OFFS_MASK)"

definition page_voffset :: "u64 \<Rightarrow> u32" where
  "page_voffset page = ucast (page AND PAGE_OFFS_MASK)"

definition page_bytes_left :: "u64 \<Rightarrow> u32" where
  "page_bytes_left p = ucast (PAGE_SIZE - ucast (page_voffset p))"

section \<open>Address-space layout\<close>

definition KIB :: u64 where "KIB = 1024"
definition MIB :: u64 where "MIB = 1024 * KIB"
definition GIB :: u64 where "GIB = 1024 * MIB"

definition USER_START :: u64 where "USER_START = 0x1000"
definition USER_END :: u64 where "USER_END = push_bit (39 - 1) 1"

definition GRINCH_SIZE :: u64 where "GRINCH_SIZE = 8 * 256 * KIB"
definition GRINCH_BASE :: u64 where "GRINCH_BASE = 0xffffffc000000000"
definition GRINCH_END :: u64 where "GRINCH_END = GRINCH_BASE + GRINCH_SIZE"
definition DIR_PHYS_BASE :: u64 where "DIR_PHYS_BASE = GRINCH_BASE + 1 * GIB"
definition IOREMAP_BASE :: u64 where "IOREMAP_BASE = GRINCH_BASE + 256 * MIB"
definition IOREMAP_SIZE :: u64 where "IOREMAP_SIZE = 512 * MIB"
definition IOREMAP_END :: u64 where "IOREMAP_END = IOREMAP_BASE + IOREMAP_SIZE"
definition KHEAP_BASE :: u64 where "KHEAP_BASE = IOREMAP_END"

definition INVALID_PHYS_ADDR :: u64 where
  "INVALID_PHYS_ADDR = NOT 0"

section \<open>Values and laws\<close>

lemma PAGE_SIZE_val: "PAGE_SIZE = 0x1000"
  by (simp add: PAGE_SIZE_def PAGE_SHIFT_def)

lemma unat_PAGE_SIZE [simp]: "unat PAGE_SIZE = 0x1000"
  by (simp add: PAGE_SIZE_val)

lemma PAGE_OFFS_MASK_mask: "PAGE_OFFS_MASK = mask 12"
  by (simp add: PAGE_OFFS_MASK_def PAGE_MASK_def PMASK_def mask_eq_exp_minus_1 PAGE_SIZE_val)

lemma unat_and_offs_mask [word_to_nat]: "unat (x AND PAGE_OFFS_MASK) = unat x mod 0x1000"
  unfolding PAGE_OFFS_MASK_mask
  by (simp add: take_bit_eq_mask [symmetric] take_bit_eq_mod unat_mod)

lemma unat_PAGES [word_to_nat]: "unat (PAGES x) = unat x div 0x1000"
  by (simp add: PAGES_def unat_div)

lemma unat_page_offset [word_to_nat]:
  "unat (page_offset x) = unat x mod 0x1000" "unat (page_voffset x) = unat x mod 0x1000"
proof -
  have "unat (ucast (x AND PAGE_OFFS_MASK) :: u32) = unat x mod 0x1000"
    by (simp add: unat_and_offs_mask unsigned_ucast_eq take_bit_nat_eq_self
        less_trans [OF mod_less_divisor])
  then show "unat (page_offset x) = unat x mod 0x1000" "unat (page_voffset x) = unat x mod 0x1000"
    by (simp_all add: page_offset_def page_voffset_def)
qed

lemma page_offset_zero_iff:
  "page_offset x = 0 \<longleftrightarrow> unat x mod 0x1000 = 0" "page_voffset x = 0 \<longleftrightarrow> unat x mod 0x1000 = 0"
  by (metis unat_page_offset(1) unat_eq_zero, metis unat_page_offset(2) unat_eq_zero)

lemma unat_and_PAGE_MASK [word_to_nat]: "unat (x AND PAGE_MASK) = 0x1000 * (unat x div 0x1000)"
proof -
  have "(x AND PAGE_MASK) + (x AND NOT PAGE_MASK) = x"
    by (subst disjunctive_add_eq_or) (auto simp: bit_eq_iff bit_simps)
  then have "x AND PAGE_MASK = x - (x AND PAGE_OFFS_MASK)"
    unfolding PAGE_OFFS_MASK_def by (metis add_diff_cancel_right')
  moreover have "unat (x - (x AND PAGE_OFFS_MASK)) = unat x - unat x mod 0x1000"
    by (subst unat_sub) (simp_all add: word_le_nat_alt unat_and_offs_mask)
  ultimately show ?thesis by (simp add: minus_mod_eq_mult_div)
qed

lemma unat_page_up [word_to_nat]:
  assumes "unat x + 0xfff < 2 ^ 64"
  shows "unat (page_up x) = 0x1000 * ((unat x + 0xfff) div 0x1000)"
proof -
  have "unat (x + PAGE_SIZE - 1) = unat x + 0xfff"
    using assms by (simp add: add_diff_eq [symmetric] unat_word_ariths(1) PAGE_SIZE_val)
  then show ?thesis by (simp add: page_up_def unat_and_PAGE_MASK)
qed

end
