(* ===== verification/Gfp.thy ===== *)
theory Gfp
  imports Bitmap Errno Layout
begin

text \<open>
  The page allocator: \<^verbatim>\<open>mm/mm.c\<close> and \<^verbatim>\<open>mm/gfp.c\<close>. The array
  \<^verbatim>\<open>memory_areas\<close> is a list of area records; a routine takes the list and returns it
  updated. Addresses are 64-bit words with C's wrap-around. Page counts and slot numbers
  (\<^verbatim>\<open>unsigned int\<close> / \<^verbatim>\<open>unsigned long\<close>) are \<open>nat\<close> with every narrowing written
  out, and an \<^verbatim>\<open>int\<close> error code is an \<open>int\<close>, as in the source: \<open>Ok (st, e)\<close> is a
  return with code \<open>e\<close>, \<open>Panic\<close> a call of \<^verbatim>\<open>panic()\<close>. The spin lock around each
  bitmap access makes every routine atomic.
\<close>

section \<open>Model\<close>

text \<open>\<^verbatim>\<open>trace_error\<close> prints the location and returns the code.\<close>

definition trace_error :: "errno \<Rightarrow> int" where
  "trace_error e = - errno_num e"

text \<open>Narrowing a \<^verbatim>\<open>long\<close> to \<^verbatim>\<open>int\<close>.\<close>

definition long_to_int :: "int \<Rightarrow> int" where
  "long_to_int n = signed_take_bit 31 n"

text \<open>\<open>from = None\<close> is the C value -1, \<open>Some f\<close> a fixed start.\<close>

definition mm_bitmap_find_and_allocate ::
    "bitmap \<Rightarrow> nat \<Rightarrow> nat \<Rightarrow> nat option \<Rightarrow> nat \<Rightarrow> bitmap \<times> int" where
  "mm_bitmap_find_and_allocate bm bit_max pages from alignment =
     (if alignment mod unat PAGE_SIZE \<noteq> 0 then (bm, trace_error EINVAL)
      else let alignment = u32_of (nat ((int (alignment div unat PAGE_SIZE) - 1) mod 2 ^ 64));
               start = bitmap_find_next_zero_area bm bit_max
                         (case from of None \<Rightarrow> 0 | Some f \<Rightarrow> f) pages alignment
           in if from \<noteq> None \<and> from \<noteq> Some start then (bm, - errno_num ENOMEM)
              else if start > bit_max then (bm, - errno_num ENOMEM)
              else (bitmap_set bm start pages, int start))"

record memory_area =
  a_bitmap :: bitmap
  a_bit_max :: nat
  p_base :: u64
  p_end :: u64
  v_base :: u64
  v_end :: u64
  valid :: bool

type_synonym areas = "memory_area list"

definition KMM_PAGES :: nat where
  "KMM_PAGES = unat (PAGES GRINCH_SIZE)"

definition BITS_TO_LONGS :: "nat \<Rightarrow> nat" where
  "BITS_TO_LONGS bits = (bits + BITS_PER_LONG - 1) div BITS_PER_LONG"

definition no_area :: memory_area where
  "no_area = \<lparr> a_bitmap = [], a_bit_max = 0, p_base = 0, p_end = 0, v_base = 0, v_end = 0,
     valid = False \<rparr>"

definition memory_areas_init :: areas where
  "memory_areas_init =
     [ \<lparr> a_bitmap = replicate (BITS_TO_LONGS KMM_PAGES) 0, a_bit_max = KMM_PAGES,
         p_base = 0, p_end = 0,
         v_base = GRINCH_BASE, v_end = GRINCH_BASE + of_nat KMM_PAGES * PAGE_SIZE,
         valid = False \<rparr>,
       no_area ]"

definition kmm_set_base :: "areas \<Rightarrow> u64 \<Rightarrow> areas" where
  "kmm_set_base st pbase =
     st[0 := (st ! 0)\<lparr> p_base := pbase, p_end := pbase + of_nat KMM_PAGES * PAGE_SIZE \<rparr>]"

definition memory_size :: "areas \<Rightarrow> u64" where
  "memory_size st = p_end (st ! 1) - p_base (st ! 1)"

definition memory_area_v2p :: "memory_area \<Rightarrow> u64 \<Rightarrow> u64" where
  "memory_area_v2p a virt = (virt - v_base a) + p_base a"

definition in_area :: "memory_area \<Rightarrow> u64 \<Rightarrow> bool" where
  "in_area a virt \<longleftrightarrow> virt \<ge> v_base a \<and> virt < v_end a"

definition p_in_area :: "memory_area \<Rightarrow> u64 \<Rightarrow> nat \<Rightarrow> bool" where
  "p_in_area a addr pages \<longleftrightarrow>
     (if addr < p_base a then False
      else if pages = 0 then \<not> addr \<ge> p_end a
      else addr + PAGE_SIZE * of_nat pages \<le> p_end a)"

fun find_area :: "areas \<Rightarrow> u64 \<Rightarrow> nat option" where
  "find_area [] virt = None"
| "find_area (a # as) virt =
     (if \<not> valid a then None
      else if in_area a virt then Some 0
      else map_option Suc (find_area as virt))"

definition memory_area_alloc_aligned ::
    "memory_area \<Rightarrow> bool \<Rightarrow> nat \<Rightarrow> nat \<Rightarrow> u64 \<Rightarrow> (memory_area \<times> int \<times> u64) result" where
  "memory_area_alloc_aligned a has_off pages alignment hint =
     (if hint = INVALID_PHYS_ADDR \<and> \<not> has_off then Panic
      else let page_offs = (if hint \<noteq> INVALID_PHYS_ADDR
                            then Some (unat ((hint - p_base a) div PAGE_SIZE)) else None);
               (bm, ret) = mm_bitmap_find_and_allocate (a_bitmap a) (a_bit_max a) pages
                             page_offs alignment;
               err = long_to_int ret
           in if err < 0 then Ok (a\<lparr>a_bitmap := bm\<rparr>, err, 0)
              else Ok (a\<lparr>a_bitmap := bm\<rparr>, 0, word_of_int err * PAGE_SIZE))"

text \<open>
  The loops over the valid areas. The result carries the areas, the last error code and,
  after a successful allocation, the address.
\<close>

type_synonym alloc_outcome = "(areas \<times> int \<times> u64 option) result"

fun after_area :: "memory_area \<Rightarrow> alloc_outcome \<Rightarrow> alloc_outcome" where
  "after_area a (Ok (as, err, res)) = Ok (a # as, err, res)"
| "after_area a (Err e) = Err e"
| "after_area a Panic = Panic"

fun alloc_pages_loop :: "areas \<Rightarrow> int \<Rightarrow> nat \<Rightarrow> nat \<Rightarrow> u64 \<Rightarrow> alloc_outcome" where
  "alloc_pages_loop [] err pages alignment hint = Ok ([], err, None)"
| "alloc_pages_loop (a # as) err pages alignment hint =
     (if \<not> valid a then Ok (a # as, err, None)
      else if v_base a = 0 \<or> hint \<noteq> 0 \<and> \<not> in_area a hint
      then after_area a (alloc_pages_loop as err pages alignment hint)
      else case memory_area_alloc_aligned a True pages alignment
                  (if hint \<noteq> 0 then memory_area_v2p a hint else INVALID_PHYS_ADDR) of
             Ok (a', err, off) \<Rightarrow>
               if err = 0 then Ok (a' # as, 0, Some (v_base a' + off))
               else after_area a' (alloc_pages_loop as err pages alignment hint)
           | Err e \<Rightarrow> Err e
           | Panic \<Rightarrow> Panic)"

definition alloc_pages_aligned_hint :: "areas \<Rightarrow> nat \<Rightarrow> nat \<Rightarrow> u64 \<Rightarrow> alloc_outcome" where
  "alloc_pages_aligned_hint st pages alignment hint =
     alloc_pages_loop st (- errno_num EINVAL) pages alignment hint"

definition alloc_pages_aligned :: "areas \<Rightarrow> nat \<Rightarrow> nat \<Rightarrow> (areas \<times> u64) result" where
  "alloc_pages_aligned st pages alignment =
     (case alloc_pages_aligned_hint st pages alignment 0 of
        Ok (st, err, res) \<Rightarrow> Ok (st, if err = 0 then (case res of Some v \<Rightarrow> v | None \<Rightarrow> 0) else 0)
      | Err e \<Rightarrow> Err e
      | Panic \<Rightarrow> Panic)"

definition alloc_pages :: "areas \<Rightarrow> nat \<Rightarrow> (areas \<times> u64) result" where
  "alloc_pages st pages = alloc_pages_aligned st pages (unat PAGE_SIZE)"

definition free_pages :: "areas \<Rightarrow> u64 \<Rightarrow> nat \<Rightarrow> areas \<times> int" where
  "free_pages st addr pages =
     (if page_voffset addr \<noteq> 0 then (st, - errno_num EINVAL)
      else case find_area st addr of
             None \<Rightarrow> (st, - errno_num ENOENT)
           | Some i \<Rightarrow>
               let a = st ! i;
                   start = u32_of (unat ((addr - v_base a) div PAGE_SIZE))
               in if u32_of (start + pages) > a_bit_max a then (st, - errno_num ERANGE)
                  else (st[i := a\<lparr>a_bitmap := bitmap_clear (a_bitmap a) start pages\<rparr>], 0))"

fun phys_pages_loop :: "areas \<Rightarrow> int \<Rightarrow> nat \<Rightarrow> nat \<Rightarrow> u64 \<Rightarrow> alloc_outcome" where
  "phys_pages_loop [] err pages alignment hint = Ok ([], err, None)"
| "phys_pages_loop (a # as) err pages alignment hint =
     (if \<not> valid a then Ok (a # as, err, None)
      else if hint \<noteq> INVALID_PHYS_ADDR \<and> \<not> p_in_area a hint (u32_of pages)
      then after_area a (phys_pages_loop as err pages alignment hint)
      else case memory_area_alloc_aligned a True (u32_of pages) alignment hint of
             Ok (a', err, off) \<Rightarrow>
               if err = 0 then Ok (a' # as, 0, Some (p_base a' + off))
               else if hint \<noteq> INVALID_PHYS_ADDR then Ok (a' # as, err, None)
               else after_area a' (phys_pages_loop as err pages alignment hint)
           | Err e \<Rightarrow> Err e
           | Panic \<Rightarrow> Panic)"

definition phys_pages_alloc_hint :: "areas \<Rightarrow> nat \<Rightarrow> nat \<Rightarrow> u64 \<Rightarrow> alloc_outcome" where
  "phys_pages_alloc_hint st pages alignment hint =
     phys_pages_loop st (- errno_num EINVAL) pages alignment hint"

definition phys_pages_alloc :: "areas \<Rightarrow> nat \<Rightarrow> nat \<Rightarrow> alloc_outcome" where
  "phys_pages_alloc st pages alignment = phys_pages_alloc_hint st pages alignment INVALID_PHYS_ADDR"

definition phys_mark_used :: "areas \<Rightarrow> u64 \<Rightarrow> nat \<Rightarrow> alloc_outcome" where
  "phys_mark_used st addr pages = phys_pages_alloc_hint st pages (unat PAGE_SIZE) addr"

fun phys_free_loop :: "areas \<Rightarrow> u64 \<Rightarrow> nat \<Rightarrow> areas \<times> int" where
  "phys_free_loop [] phys pages = ([], - errno_num ERANGE)"
| "phys_free_loop (a # as) phys pages =
     (if \<not> valid a then (a # as, - errno_num ERANGE)
      else if p_in_area a phys pages
      then (a\<lparr>a_bitmap := bitmap_clear (a_bitmap a)
                (u32_of (unat ((phys - p_base a) div PAGE_SIZE))) pages\<rparr> # as, 0)
      else let (as', err) = phys_free_loop as phys pages in (a # as', err))"

definition phys_free_pages :: "areas \<Rightarrow> u64 \<Rightarrow> nat \<Rightarrow> areas \<times> int" where
  "phys_free_pages st phys pages =
     (if page_offset phys \<noteq> 0 then (st, - errno_num EINVAL) else phys_free_loop st phys pages)"

definition is_urange :: "u64 \<Rightarrow> u64 \<Rightarrow> bool" where
  "is_urange base sz \<longleftrightarrow> base \<ge> USER_START \<and> base < USER_END \<and> base + sz \<le> USER_END"

definition is_uaddr :: "u64 \<Rightarrow> bool" where
  "is_uaddr addr \<longleftrightarrow> is_urange addr 0"

text \<open>\<open>ptw\<close> stands for \<^verbatim>\<open>paging_get_phys(kernel_root, .)\<close>.\<close>

definition v2p :: "areas \<Rightarrow> (u64 \<Rightarrow> u64) \<Rightarrow> u64 \<Rightarrow> u64 result" where
  "v2p st ptw virt =
     (case find_area st virt of
        Some i \<Rightarrow> Ok (memory_area_v2p (st ! i) virt)
      | None \<Rightarrow> if is_uaddr virt then Panic
                else if ptw virt \<noteq> INVALID_PHYS_ADDR then Ok (ptw virt) else Panic)"

fun p2v :: "areas \<Rightarrow> u64 \<Rightarrow> u64 result" where
  "p2v [] phys = Panic"
| "p2v (a # as) phys =
     (if \<not> valid a then Panic
      else if p_in_area a phys 0 \<and> v_base a \<noteq> 0 then Ok (v_base a + (phys - p_base a))
      else p2v as phys)"

section \<open>Initialisation\<close>

text \<open>
  The linker symbols behind \<^verbatim>\<open>num_os_pages()\<close> and the address and number of the per-CPU
  pages are arguments.
\<close>

definition kernel_mem_init :: "areas \<Rightarrow> nat \<Rightarrow> nat \<Rightarrow> u64 \<Rightarrow> (areas \<times> int) result" where
  "kernel_mem_init st os_pages percpu_pages percpu_base =
     (case alloc_pages_aligned_hint (st[0 := (st ! 0)\<lparr>valid := True\<rparr>]) os_pages
             (unat PAGE_SIZE) GRINCH_BASE of
        Ok (st, err, _) \<Rightarrow>
          if err \<noteq> 0 then Ok (st[0 := (st ! 0)\<lparr>valid := False\<rparr>], err)
          else (case alloc_pages_aligned_hint st percpu_pages (unat PAGE_SIZE) percpu_base of
                  Ok (st, err, _) \<Rightarrow> Ok (st, err)
                | Err e \<Rightarrow> Err e
                | Panic \<Rightarrow> Panic)
      | Err e \<Rightarrow> Err e
      | Panic \<Rightarrow> Panic)"

definition bitmap_size :: "nat \<Rightarrow> nat" where
  "bitmap_size nbits = ALIGN_MASK nbits (BITS_PER_LONG - 1) div 8"

fun free_area_slot :: "areas \<Rightarrow> nat option" where
  "free_area_slot [] = None"
| "free_area_slot (a # as) = (if \<not> valid a then Some 0 else map_option Suc (free_area_slot as))"

text \<open>
  The pages \<^verbatim>\<open>zalloc_pages\<close> returns are zeroed, so the new bitmap is a list of zero words
  that fills them.
\<close>

definition create_memory_area :: "areas \<Rightarrow> u64 \<Rightarrow> u64 \<Rightarrow> u64 \<Rightarrow> (areas \<times> int) result" where
  "create_memory_area st addrp sizep virt =
     (case free_area_slot st of
        None \<Rightarrow> Ok (st, - errno_num ENOENT)
      | Some i \<Rightarrow>
          let n = unat (PAGES sizep);
              st = st[i := (st ! i)\<lparr> valid := True, p_base := addrp, a_bit_max := n,
                                      p_end := addrp + of_nat n * PAGE_SIZE \<rparr>];
              pages = u32_of (unat (PAGES (page_up (of_nat (bitmap_size n)))))
          in case alloc_pages st pages of
               Ok (st, ptr) \<Rightarrow>
                 if ptr = 0 then Ok (st[i := (st ! i)\<lparr>valid := False\<rparr>], - errno_num ENOMEM)
                 else let a = (st ! i)\<lparr> a_bitmap := replicate (512 * pages) 0,
                                v_base := virt,
                                v_end := (if virt \<noteq> 0 then virt + of_nat n * PAGE_SIZE else 0) \<rparr>;
                          st = st[i := a];
                          pgrinch = p_base (st ! 0)
                      in if pgrinch \<ge> addrp \<and> pgrinch + GRINCH_SIZE < addrp + sizep
                         then (case memory_area_alloc_aligned a False KMM_PAGES (unat PAGE_SIZE)
                                      pgrinch of
                                 Ok (a, err, _) \<Rightarrow>
                                   if err \<noteq> 0 then Ok (st[i := a\<lparr>valid := False\<rparr>], err)
                                   else Ok (st[i := a], 0)
                               | Err e \<Rightarrow> Err e
                               | Panic \<Rightarrow> Panic)
                         else Ok (st, 0)
             | Err e \<Rightarrow> Err e
             | Panic \<Rightarrow> Panic)"

text \<open>\<open>map_range\<close> stands for the kernel page-table update; \<open>0\<close> is success.\<close>

definition phys_mem_init ::
    "(u64 \<Rightarrow> u64 \<Rightarrow> u64 \<Rightarrow> int) \<Rightarrow> areas \<Rightarrow> u64 \<Rightarrow> u64 \<Rightarrow> (areas \<times> int) result" where
  "phys_mem_init map_range st paddr sz =
     (let err = map_range DIR_PHYS_BASE paddr sz
      in if err \<noteq> 0 then Ok (st, err) else create_memory_area st paddr sz DIR_PHYS_BASE)"

section \<open>Well-formed areas\<close>

definition pfn0 :: "memory_area \<Rightarrow> nat" where
  "pfn0 a = unat (p_base a) div 0x1000"

definition area_pfns :: "memory_area \<Rightarrow> nat set" where
  "area_pfns a = {pfn0 a ..< pfn0 a + a_bit_max a}"

definition used_pfns :: "memory_area \<Rightarrow> nat set" where
  "used_pfns a = {pfn0 a + i | i. i < a_bit_max a \<and> bm_bit (a_bitmap a) i}"

text \<open>
  The bitmap covers the area and its size is below $2^{31}$ pages; the physical and the
  virtual window have the size of the bitmap, start on a page boundary and do not wrap.
\<close>

definition area_ok :: "memory_area \<Rightarrow> bool" where
  "area_ok a \<longleftrightarrow>
     a_bit_max a \<le> bm_cap (a_bitmap a) \<and>
     unat (p_base a) mod 0x1000 = 0 \<and> unat (p_base a) + 0x1000 * a_bit_max a = unat (p_end a) \<and>
     (v_base a \<noteq> 0 \<longrightarrow>
        unat (v_base a) mod 0x1000 = 0 \<and> unat (v_base a) + 0x1000 * a_bit_max a = unat (v_end a)) \<and>
     (v_base a = 0 \<longrightarrow> v_end a = 0)"

definition windows_disjoint :: "memory_area \<Rightarrow> memory_area \<Rightarrow> bool" where
  "windows_disjoint a b \<longleftrightarrow> (\<forall>v. \<not> (in_area a v \<and> in_area b v))"

definition live :: "areas \<Rightarrow> areas" where
  "live = takeWhile valid"

text \<open>
  The invariant: every live area is well-formed; a page frame that a later area shares with
  an earlier one (the kernel image inside main memory) is marked used in the later one.
\<close>

fun gfp_ok :: "areas \<Rightarrow> bool" where
  "gfp_ok [] \<longleftrightarrow> True"
| "gfp_ok (a # as) \<longleftrightarrow>
     (valid a \<longrightarrow> area_ok a \<and>
        (\<forall>b \<in> set (live as). area_pfns a \<inter> area_pfns b \<subseteq> used_pfns b \<and> windows_disjoint a b) \<and>
        gfp_ok as)"

text \<open>The page frames in use, and those that can be handed out.\<close>

fun busy :: "areas \<Rightarrow> nat set" where
  "busy [] = {}"
| "busy (a # as) = (if valid a then used_pfns a \<union> (busy as - area_pfns a) else {})"

fun avail :: "areas \<Rightarrow> nat set" where
  "avail [] = {}"
| "avail (a # as) = (if valid a then (area_pfns a - used_pfns a) \<union> avail as else {})"

lemma live_Cons: "live (a # as) = (if valid a then a # live as else [])"
  by (simp add: live_def)

lemma used_sub_area: "used_pfns a \<subseteq> area_pfns a"
  by (auto simp: used_pfns_def area_pfns_def)

lemma mem_used_pfns:
  "x \<in> used_pfns a \<longleftrightarrow>
     pfn0 a \<le> x \<and> x - pfn0 a < a_bit_max a \<and> bm_bit (a_bitmap a) (x - pfn0 a)"
  by (auto simp: used_pfns_def intro!: exI [of _ "x - pfn0 a"])

lemma avail_live: "avail as = (\<Union>b \<in> set (live as). area_pfns b - used_pfns b)"
  by (induction as) (auto simp: live_def)

lemma area_avail_disjoint:
  "gfp_ok (a # as) \<Longrightarrow> valid a \<Longrightarrow> area_pfns a \<inter> avail as = {}"
  unfolding avail_live by auto

lemma avail_not_busy: "gfp_ok as \<Longrightarrow> avail as \<inter> busy as = {}"
proof (induction as)
  case (Cons a as)
  then show ?case
    using area_avail_disjoint [OF Cons.prems] used_sub_area [of a] by auto
qed simp

section \<open>Allocation inside one area\<close>

abbreviation aligned_run :: "memory_area \<Rightarrow> nat \<Rightarrow> nat \<Rightarrow> nat \<Rightarrow> bool" where
  "aligned_run a k n s \<equiv> s + n \<le> a_bit_max a \<and> s mod 2 ^ k = 0 \<and>
     (\<forall>i. s \<le> i \<and> i < s + n \<longrightarrow> \<not> bm_bit (a_bitmap a) i)"

definition claim_run :: "memory_area \<Rightarrow> nat \<Rightarrow> nat \<Rightarrow> memory_area" where
  "claim_run a s n = a\<lparr>a_bitmap := bitmap_set (a_bitmap a) s n\<rparr>"

definition release_run :: "memory_area \<Rightarrow> nat \<Rightarrow> nat \<Rightarrow> memory_area" where
  "release_run a s n = a\<lparr>a_bitmap := bitmap_clear (a_bitmap a) s n\<rparr>"

definition geom :: "memory_area \<Rightarrow> memory_area" where
  "geom a = a\<lparr>a_bitmap := []\<rparr>"

definition frames :: "u64 \<Rightarrow> nat \<Rightarrow> nat set" where
  "frames p n = {unat p div 0x1000 ..< unat p div 0x1000 + n}"

lemma alignment_mask:
  assumes "k < 20"
  shows "u32_of (nat ((int (unat PAGE_SIZE * 2 ^ k div unat PAGE_SIZE) - 1) mod 2 ^ 64)) = 2 ^ k - 1"
proof -
  have "(2::nat) ^ k < 2 ^ 32" using assms by (intro power_strict_increasing) auto
  moreover have "int (unat PAGE_SIZE * 2 ^ k div unat PAGE_SIZE) - 1 = int (2 ^ k - 1)"
    by (simp add: of_nat_diff)
  ultimately show ?thesis by (simp add: u32_of_def nat_int del: of_nat_power)
qed

lemma mm_bitmap_find_and_allocate_cases:
  fixes bm :: bitmap and bit_max n k :: nat and fr :: "nat option"
  assumes "bit_max \<le> bm_cap bm" and "k < 20" and "\<And>f. fr = Some f \<Longrightarrow> f \<le> bit_max"
  defines "r \<equiv> mm_bitmap_find_and_allocate bm bit_max n fr (unat PAGE_SIZE * 2 ^ k)"
  obtains (claimed) s where "r = (bitmap_set bm s n, int s)" "s + n \<le> bit_max" "s mod 2 ^ k = 0"
      "fr \<noteq> None \<Longrightarrow> fr = Some s" "\<And>i. s \<le> i \<Longrightarrow> i < s + n \<Longrightarrow> \<not> bm_bit bm i"
  | (full) "r = (bm, - errno_num ENOMEM)"
      "\<And>s. s + n \<le> bit_max \<Longrightarrow> s mod 2 ^ k = 0 \<Longrightarrow> 0 < n \<Longrightarrow> fr = None \<or> fr = Some s \<Longrightarrow>
         \<exists>i. s \<le> i \<and> i < s + n \<and> bm_bit bm i"
proof -
  let ?st = "case fr of None \<Rightarrow> 0 | Some f \<Rightarrow> f"
  let ?s = "bm_search bm bit_max ?st n k"
  have st: "?st \<le> bit_max" using assms(3) by (simp split: option.split)
  have r: "r = (if fr \<noteq> None \<and> fr \<noteq> Some ?s \<or> ?s > bit_max then (bm, - errno_num ENOMEM)
                else (bitmap_set bm ?s n, int ?s))"
    unfolding r_def mm_bitmap_find_and_allocate_def alignment_mask [OF assms(2)] Let_def
    by (simp add: bm_search_def)
  show thesis
  proof (cases "fr \<noteq> None \<and> fr \<noteq> Some ?s \<or> ?s > bit_max")
    case False
    then show thesis using bmp.search_sound [OF st, of bm n k]
      by (intro claimed [of ?s]) (auto simp: r)
  next
    case True
    have "\<exists>i. s \<le> i \<and> i < s + n \<and> bm_bit bm i"
      if s: "s + n \<le> bit_max" "s mod 2 ^ k = 0" "0 < n" and from_s: "fr = None \<or> fr = Some s" for s
    proof (rule ccontr)
      assume free: "\<not> ?thesis"
      have "?st \<le> s" using from_s by auto
      then have le: "?s \<le> s" using bmp.search_least [OF _ s, of ?st bm] free by blast
      then have "?s \<le> bit_max" using s(1) by simp
      with bmp.search_sound [OF st this] le True from_s show False by auto
    qed
    then show thesis by (rule full [rotated]) (use True in \<open>simp_all add: r\<close>)
  qed
qed

lemma claim_run_simps [simp]:
  "a_bit_max (claim_run a s n) = a_bit_max a" "pfn0 (claim_run a s n) = pfn0 a"
  "area_pfns (claim_run a s n) = area_pfns a" "geom (claim_run a s n) = geom a"
  "valid (claim_run a s n) = valid a" "p_base (claim_run a s n) = p_base a"
  "v_base (claim_run a s n) = v_base a"
  by (simp_all add: claim_run_def pfn0_def area_pfns_def geom_def)

lemma release_run_simps [simp]:
  "a_bit_max (release_run a s n) = a_bit_max a" "pfn0 (release_run a s n) = pfn0 a"
  "area_pfns (release_run a s n) = area_pfns a" "geom (release_run a s n) = geom a"
  "valid (release_run a s n) = valid a"
  by (simp_all add: release_run_def pfn0_def area_pfns_def geom_def)

lemma area_ok_run:
  assumes "area_ok a" and "s + n \<le> a_bit_max a"
  shows "area_ok (claim_run a s n)" "area_ok (release_run a s n)"
    "used_pfns (claim_run a s n) = used_pfns a \<union> {pfn0 a + s ..< pfn0 a + s + n}"
    "used_pfns (release_run a s n) = used_pfns a - {pfn0 a + s ..< pfn0 a + s + n}"
proof -
  have cap: "s + n \<le> bm_cap (a_bitmap a)" using assms by (simp add: area_ok_def)
  show "area_ok (claim_run a s n)" "area_ok (release_run a s n)"
    using assms(1) bmp.cap_claim [OF cap] bmp.cap_release [OF cap]
    by (simp_all add: area_ok_def claim_run_def release_run_def)
  have claim: "a_bitmap (claim_run a s n) = bitmap_set (a_bitmap a) s n"
    and release: "a_bitmap (release_run a s n) = bitmap_clear (a_bitmap a) s n"
    by (simp_all add: claim_run_def release_run_def)
  show "used_pfns (claim_run a s n) = used_pfns a \<union> {pfn0 a + s ..< pfn0 a + s + n}"
    using assms(2) by (auto simp: mem_used_pfns claim bmp.used_claim [OF cap])
  show "used_pfns (release_run a s n) = used_pfns a - {pfn0 a + s ..< pfn0 a + s + n}"
    using assms(2) by (auto simp: mem_used_pfns release bmp.used_release [OF cap])
qed

lemma area_bounds:
  assumes "area_ok a"
  shows "a_bit_max a < 2 ^ 31" and "unat (p_base a) = 0x1000 * pfn0 a"
    and "i \<le> a_bit_max a \<Longrightarrow> unat (p_base a + of_nat i * PAGE_SIZE) = 0x1000 * (pfn0 a + i)"
    and "v_base a \<noteq> 0 \<Longrightarrow> i \<le> a_bit_max a \<Longrightarrow>
           unat (v_base a + of_nat i * PAGE_SIZE) = unat (v_base a) + 0x1000 * i"
proof -
  note ok = assms [unfolded area_ok_def]
  show bound: "a_bit_max a < 2 ^ 31" using ok by (simp add: bm_cap_def)
  show base: "unat (p_base a) = 0x1000 * pfn0 a" using ok by (auto simp: pfn0_def)
  assume i: "i \<le> a_bit_max a"
  have off: "unat (of_nat i * PAGE_SIZE) = 0x1000 * i"
    using i bound by (simp add: unat_word_ariths(2) unat_of_nat)
  have p: "unat (p_base a) + 0x1000 * a_bit_max a < 2 ^ LENGTH(64)"
    using ok unat_lt2p [of "p_end a"] by (simp only:)
  have "unat (p_base a) + 0x1000 * i \<le> unat (p_base a) + 0x1000 * a_bit_max a" using i by simp
  from le_less_trans [OF this p]
  show "unat (p_base a + of_nat i * PAGE_SIZE) = 0x1000 * (pfn0 a + i)"
    by (simp only: unat_word_ariths(1) off mod_less base distrib_left)
  assume "v_base a \<noteq> 0"
  then have v: "unat (v_base a) + 0x1000 * a_bit_max a < 2 ^ LENGTH(64)"
    using ok unat_lt2p [of "v_end a"] by (simp only: simp_thms)
  have "unat (v_base a) + 0x1000 * i \<le> unat (v_base a) + 0x1000 * a_bit_max a" using i by simp
  from le_less_trans [OF this v]
  show "unat (v_base a + of_nat i * PAGE_SIZE) = unat (v_base a) + 0x1000 * i"
    by (simp only: unat_word_ariths(1) off mod_less)
qed

text \<open>A hint is given to an area only after a check that it lies inside.\<close>

definition hint_slot :: "memory_area \<Rightarrow> u64 \<Rightarrow> nat option" where
  "hint_slot a hint =
     (if hint \<noteq> INVALID_PHYS_ADDR then Some (unat ((hint - p_base a) div PAGE_SIZE)) else None)"

lemma memory_area_alloc_aligned_cases:
  fixes a :: memory_area and n k :: nat and hint :: u64
  assumes "area_ok a" and "k < 20" and "has_off \<or> hint \<noteq> INVALID_PHYS_ADDR"
    and "\<And>f. hint_slot a hint = Some f \<Longrightarrow> f \<le> a_bit_max a"
  defines "r \<equiv> memory_area_alloc_aligned a has_off n (unat PAGE_SIZE * 2 ^ k) hint"
  obtains (claimed) s where "r = Ok (claim_run a s n, 0, of_nat s * PAGE_SIZE)"
      "aligned_run a k n s" "hint_slot a hint \<noteq> None \<Longrightarrow> hint_slot a hint = Some s"
  | (full) "r = Ok (a, - errno_num ENOMEM, 0)"
      "\<And>s. 0 < n \<Longrightarrow> hint_slot a hint = None \<or> hint_slot a hint = Some s \<Longrightarrow> \<not> aligned_run a k n s"
proof -
  have cap: "a_bit_max a \<le> bm_cap (a_bitmap a)" using assms(1) by (simp add: area_ok_def)
  have r: "r = (let (bm, ret) = mm_bitmap_find_and_allocate (a_bitmap a) (a_bit_max a) n
                   (hint_slot a hint) (unat PAGE_SIZE * 2 ^ k); err = long_to_int ret
                in if err < 0 then Ok (a\<lparr>a_bitmap := bm\<rparr>, err, 0)
                   else Ok (a\<lparr>a_bitmap := bm\<rparr>, 0, word_of_int err * PAGE_SIZE))"
    using assms(3) by (auto simp: r_def memory_area_alloc_aligned_def hint_slot_def)
  show thesis
  proof (rule mm_bitmap_find_and_allocate_cases [OF cap assms(2,4), where n = n])
    fix s
    assume *: "mm_bitmap_find_and_allocate (a_bitmap a) (a_bit_max a) n (hint_slot a hint)
        (unat PAGE_SIZE * 2 ^ k) = (bitmap_set (a_bitmap a) s n, int s)"
      "s + n \<le> a_bit_max a" "s mod 2 ^ k = 0"
      "hint_slot a hint \<noteq> None \<Longrightarrow> hint_slot a hint = Some s"
      "\<And>i. s \<le> i \<Longrightarrow> i < s + n \<Longrightarrow> \<not> bm_bit (a_bitmap a) i"
    have "long_to_int (int s) = int s"
      using *(2) area_bounds(1) [OF assms(1)]
      unfolding long_to_int_def by (intro signed_take_bit_int_eq_self) simp_all
    then show thesis
      using * by (intro claimed [of s]) (simp_all add: r claim_run_def)
  next
    assume *: "mm_bitmap_find_and_allocate (a_bitmap a) (a_bit_max a) n (hint_slot a hint)
        (unat PAGE_SIZE * 2 ^ k) = (a_bitmap a, - errno_num ENOMEM)"
      "\<And>s. s + n \<le> a_bit_max a \<Longrightarrow> s mod 2 ^ k = 0 \<Longrightarrow> 0 < n \<Longrightarrow>
         hint_slot a hint = None \<or> hint_slot a hint = Some s \<Longrightarrow>
         \<exists>i. s \<le> i \<and> i < s + n \<and> bm_bit (a_bitmap a) i"
    have "long_to_int (- errno_num ENOMEM) = - errno_num ENOMEM"
      unfolding long_to_int_def by (intro signed_take_bit_int_eq_self) simp_all
    then have "r = Ok (a, - errno_num ENOMEM, 0)" unfolding r *(1) by simp
    moreover have "\<not> aligned_run a k n s"
      if "0 < n" "hint_slot a hint = None \<or> hint_slot a hint = Some s" for s
      using *(2) [of s] that by auto
    ultimately show thesis by (rule full)
  qed
qed

lemmas memory_area_alloc_any_cases =
  memory_area_alloc_aligned_cases [where hint = INVALID_PHYS_ADDR and has_off = True]

section \<open>Allocation across the areas\<close>

text \<open>What a successful allocation of the \<open>n\<close> frames at \<open>p\<close> does to the list of areas.\<close>

definition grown :: "memory_area \<Rightarrow> memory_area \<Rightarrow> bool" where
  "grown a b \<longleftrightarrow> geom b = geom a \<and> used_pfns a \<subseteq> used_pfns b"

definition alloc_effect :: "areas \<Rightarrow> areas \<Rightarrow> u64 \<Rightarrow> nat \<Rightarrow> bool" where
  "alloc_effect st st' p n \<longleftrightarrow> gfp_ok st' \<and> list_all2 grown st st' \<and>
     frames p n \<subseteq> avail st \<and> busy st' = busy st \<union> frames p n \<and> avail st' = avail st - frames p n"

lemma geom_eqD:
  assumes "geom b = geom a"
  shows "valid b = valid a" "area_pfns b = area_pfns a" "in_area b = in_area a"
    "windows_disjoint c b = windows_disjoint c a" "memory_area_v2p b = memory_area_v2p a"
    "v_base b = v_base a" "p_base b = p_base a" "a_bit_max b = a_bit_max a" "p_end b = p_end a"
proof -
  have "a_bit_max b = a_bit_max a" "p_base b = p_base a" "p_end b = p_end a" "v_base b = v_base a"
    "v_end b = v_end a" "valid b = valid a"
    using assms by (cases a; cases b; simp add: geom_def)+
  then show "valid b = valid a" "area_pfns b = area_pfns a" "in_area b = in_area a"
    "windows_disjoint c b = windows_disjoint c a" "memory_area_v2p b = memory_area_v2p a"
    "v_base b = v_base a" "p_base b = p_base a" "a_bit_max b = a_bit_max a" "p_end b = p_end a"
    by (auto simp: area_pfns_def pfn0_def in_area_def windows_disjoint_def memory_area_v2p_def
        fun_eq_iff)
qed

lemma grown_refl [simp]: "grown a a"
  by (simp add: grown_def)

lemma live_grown:
  "list_all2 grown as as' \<Longrightarrow> b' \<in> set (live as') \<Longrightarrow> \<exists>b \<in> set (live as). grown b b'"
proof (induction rule: list_all2_induct)
  case (Cons a as b bs)
  then show ?case using geom_eqD(1) [of b a] by (auto simp: live_Cons grown_def split: if_splits)
qed (simp add: live_def)

lemma alloc_effect_later:
  assumes ok: "gfp_ok (a # as)" and "valid a" and eff: "alloc_effect as as' p n"
  shows "alloc_effect (a # as) (a # as') p n"
proof -
  have "area_pfns a \<inter> area_pfns b' \<subseteq> used_pfns b' \<and> windows_disjoint a b'"
    if "b' \<in> set (live as')" for b'
  proof -
    have "list_all2 grown as as'" using eff by (simp add: alloc_effect_def)
    from live_grown [OF this that] obtain b where b: "b \<in> set (live as)" "grown b b'" by blast
    with ok \<open>valid a\<close> have "area_pfns a \<inter> area_pfns b \<subseteq> used_pfns b \<and> windows_disjoint a b"
      by auto
    with b(2) show ?thesis using geom_eqD(2,4) [of b' b] by (auto simp: grown_def)
  qed
  moreover have "frames p n \<inter> area_pfns a = {}"
    using area_avail_disjoint [OF ok \<open>valid a\<close>] eff by (auto simp: alloc_effect_def)
  moreover have "used_pfns a \<subseteq> area_pfns a" by (rule used_sub_area)
  ultimately show ?thesis
    using ok eff \<open>valid a\<close> unfolding alloc_effect_def by simp blast
qed

lemma alloc_effect_here:
  assumes ok: "gfp_ok (a # as)" and "valid a" and run: "aligned_run a k n s"
  shows "alloc_effect (a # as) (claim_run a s n # as) (p_base a + of_nat s * PAGE_SIZE) n"
proof -
  have a: "area_ok a" using ok \<open>valid a\<close> by simp
  have fr: "frames (p_base a + of_nat s * PAGE_SIZE) n = {pfn0 a + s ..< pfn0 a + s + n}"
    using area_bounds(3) [OF a, of s] run by (simp add: frames_def)
  have new: "{pfn0 a + s ..< pfn0 a + s + n} \<subseteq> area_pfns a - used_pfns a"
  proof
    fix x assume x: "x \<in> {pfn0 a + s ..< pfn0 a + s + n}"
    then have "s \<le> x - pfn0 a" "x - pfn0 a < s + n" by auto
    then have "\<not> bm_bit (a_bitmap a) (x - pfn0 a)" using run by blast
    then show "x \<in> area_pfns a - used_pfns a"
      using run x by (auto simp: area_pfns_def mem_used_pfns)
  qed
  have "windows_disjoint (claim_run a s n) b = windows_disjoint a b" for b
    by (simp add: windows_disjoint_def in_area_def claim_run_def)
  moreover have "area_pfns a \<inter> avail as = {}" by (rule area_avail_disjoint [OF ok \<open>valid a\<close>])
  moreover have "list_all2 grown as as" by (simp add: list.rel_refl)
  moreover have "{pfn0 a + s ..< pfn0 a + s + n} \<subseteq> area_pfns a" using new by blast
  ultimately show ?thesis
    unfolding alloc_effect_def fr
    using ok \<open>valid a\<close> new area_ok_run [OF a, of s n] run by (simp add: grown_def) blast
qed

lemma find_area_Some:
  "find_area st v = Some i \<Longrightarrow> i < length st \<and> st ! i \<in> set (live st) \<and> in_area (st ! i) v"
  by (induction st arbitrary: i) (auto simp: live_Cons split: if_splits)

definition virt_grant :: "areas \<Rightarrow> areas \<Rightarrow> nat \<Rightarrow> nat \<Rightarrow> u64 \<Rightarrow> nat \<Rightarrow> nat \<Rightarrow> bool" where
  "virt_grant st st' k n v i s \<longleftrightarrow>
     find_area st v = Some i \<and> v_base (st ! i) \<noteq> 0 \<and> aligned_run (st ! i) k n s \<and>
     v = v_base (st ! i) + of_nat s * PAGE_SIZE \<and> alloc_effect st st' (memory_area_v2p (st ! i) v) n"

definition phys_grant :: "areas \<Rightarrow> areas \<Rightarrow> nat \<Rightarrow> nat \<Rightarrow> u64 \<Rightarrow> nat \<Rightarrow> nat \<Rightarrow> bool" where
  "phys_grant st st' k n p i s \<longleftrightarrow>
     i < length (live st) \<and> aligned_run (st ! i) k n s \<and>
     p = p_base (st ! i) + of_nat s * PAGE_SIZE \<and> alloc_effect st st' p n"

lemma v2p_slot: "memory_area_v2p a (v_base a + of_nat s * PAGE_SIZE) = p_base a + of_nat s * PAGE_SIZE"
  by (simp add: memory_area_v2p_def)

lemma in_area_slot:
  assumes "area_ok a" and "v_base a \<noteq> 0" and "s < a_bit_max a"
  shows "in_area a (v_base a + of_nat s * PAGE_SIZE)"
proof -
  have "unat (v_base a + of_nat s * PAGE_SIZE) = unat (v_base a) + 0x1000 * s"
    using area_bounds(4) [OF assms(1,2)] assms(3) by simp
  moreover have "unat (v_base a) + 0x1000 * a_bit_max a = unat (v_end a)"
    using assms by (simp add: area_ok_def)
  ultimately show ?thesis using assms(3) unfolding in_area_def word_le_nat_alt word_less_nat_alt
    by linarith
qed

lemma virt_grant_later:
  assumes "gfp_ok (a # as)" and "valid a" and g: "virt_grant as as' k n v i s"
  shows "virt_grant (a # as) (a # as') k n v (Suc i) s"
proof -
  have "find_area as v = Some i" using g unfolding virt_grant_def by blast
  from find_area_Some [OF this] have "\<not> in_area a v"
    using assms(1,2) by (auto simp: windows_disjoint_def)
  then show ?thesis
    using assms(2) g alloc_effect_later [OF assms(1,2)] by (auto simp: virt_grant_def)
qed

lemma virt_grant_here:
  assumes "gfp_ok (a # as)" and "valid a" and "v_base a \<noteq> 0" and "0 < n" and "aligned_run a k n s"
  shows "virt_grant (a # as) (claim_run a s n # as) k n (v_base a + of_nat s * PAGE_SIZE) 0 s"
proof -
  have "in_area a (v_base a + of_nat s * PAGE_SIZE)"
    using assms by (intro in_area_slot) simp_all
  then show ?thesis
    using assms(2,3,5) alloc_effect_here [OF assms(1,2,5)] by (simp add: virt_grant_def v2p_slot)
qed

lemma phys_grant_later:
  "gfp_ok (a # as) \<Longrightarrow> valid a \<Longrightarrow> phys_grant as as' k n p i s \<Longrightarrow>
   phys_grant (a # as) (a # as') k n p (Suc i) s"
  using alloc_effect_later [of a as as' p n] by (auto simp: phys_grant_def live_Cons)

lemma phys_grant_here:
  "gfp_ok (a # as) \<Longrightarrow> valid a \<Longrightarrow> aligned_run a k n s \<Longrightarrow>
   phys_grant (a # as) (claim_run a s n # as) k n (p_base a + of_nat s * PAGE_SIZE) 0 s"
  using alloc_effect_here by (simp add: phys_grant_def live_Cons)

lemma alloc_pages_loop_spec:
  assumes "gfp_ok st" and "k < 20" and "0 < n" and "err \<noteq> 0"
  shows "(\<exists>st' v i s. alloc_pages_loop st err n (unat PAGE_SIZE * 2 ^ k) 0 = Ok (st', 0, Some v) \<and>
            virt_grant st st' k n v i s)
    \<or> (\<exists>e. alloc_pages_loop st err n (unat PAGE_SIZE * 2 ^ k) 0 = Ok (st, e, None) \<and> e \<noteq> 0 \<and>
          (\<forall>b \<in> set (live st). v_base b \<noteq> 0 \<longrightarrow> (\<forall>s. \<not> aligned_run b k n s)))"
    (is "?grant st err \<or> ?full st err")
  using assms(1,4)
proof (induction st arbitrary: err)
  case Nil
  then show ?case by (simp add: live_def)
next
  case (Cons a as)
  let ?al = "unat PAGE_SIZE * 2 ^ k"
  show ?case
  proof (cases "valid a")
    case False
    then show ?thesis using Cons.prems by (simp add: live_Cons)
  next
    case True
    then have as: "gfp_ok as" and a: "area_ok a" using Cons.prems by simp_all
    have later: "?grant (a # as) err \<or> ?full (a # as) err"
      if "alloc_pages_loop (a # as) err n ?al 0 = after_area a (alloc_pages_loop as e n ?al 0)"
        "e \<noteq> 0" "v_base a \<noteq> 0 \<Longrightarrow> \<forall>s. \<not> aligned_run a k n s" for e
      using Cons.IH [OF as that(2)]
    proof (elim disjE exE conjE)
      fix st' v i s
      assume "alloc_pages_loop as e n ?al 0 = Ok (st', 0, Some v)" "virt_grant as st' k n v i s"
      then show ?thesis using that(1) virt_grant_later [OF Cons.prems(1) True] by fastforce
    next
      fix e'
      assume "alloc_pages_loop as e n ?al 0 = Ok (as, e', None)" "e' \<noteq> 0"
        "\<forall>b \<in> set (live as). v_base b \<noteq> 0 \<longrightarrow> (\<forall>s. \<not> aligned_run b k n s)"
      then show ?thesis using that(1,3) True by (intro disjI2 exI [of _ e']) (simp add: live_Cons)
    qed
    show ?thesis
    proof (cases "v_base a = 0")
      case True
      then show ?thesis using \<open>valid a\<close> Cons.prems by (intro later [of err]) simp_all
    next
      case v: False
      show ?thesis
      proof (rule memory_area_alloc_any_cases [OF a assms(2), where n = n])
        fix s
        assume *: "memory_area_alloc_aligned a True n ?al INVALID_PHYS_ADDR
            = Ok (claim_run a s n, 0, of_nat s * PAGE_SIZE)" "aligned_run a k n s"
        have "alloc_pages_loop (a # as) err n ?al 0
            = Ok (claim_run a s n # as, 0, Some (v_base a + of_nat s * PAGE_SIZE))"
          using * v True by simp
        moreover note virt_grant_here [OF Cons.prems(1) True v assms(3) *(2)]
        ultimately show ?thesis by blast
      next
        assume "memory_area_alloc_aligned a True n ?al INVALID_PHYS_ADDR
            = Ok (a, - errno_num ENOMEM, 0)"
          "\<And>s. 0 < n \<Longrightarrow> hint_slot a INVALID_PHYS_ADDR = None \<or>
             hint_slot a INVALID_PHYS_ADDR = Some s \<Longrightarrow> \<not> aligned_run a k n s"
        then show ?thesis
          using v True assms(3)
          by (intro later [of "- errno_num ENOMEM"]) (simp_all add: hint_slot_def)
      qed (simp_all add: hint_slot_def)
    qed
  qed
qed

lemma phys_pages_loop_spec:
  assumes "gfp_ok st" and "k < 20" and "0 < u32_of pages" and "err \<noteq> 0"
  defines "n \<equiv> u32_of pages"
  shows "(\<exists>st' p i s. phys_pages_loop st err pages (unat PAGE_SIZE * 2 ^ k) INVALID_PHYS_ADDR
            = Ok (st', 0, Some p) \<and> phys_grant st st' k n p i s)
    \<or> (\<exists>e. phys_pages_loop st err pages (unat PAGE_SIZE * 2 ^ k) INVALID_PHYS_ADDR
            = Ok (st, e, None) \<and> e \<noteq> 0 \<and> (\<forall>b \<in> set (live st). \<forall>s. \<not> aligned_run b k n s))"
    (is "?grant st err \<or> ?full st err")
  using assms(1,4)
proof (induction st arbitrary: err)
  case Nil
  then show ?case by (simp add: live_def)
next
  case (Cons a as)
  let ?al = "unat PAGE_SIZE * 2 ^ k" and ?I = INVALID_PHYS_ADDR
  show ?case
  proof (cases "valid a")
    case False
    then show ?thesis using Cons.prems by (simp add: live_Cons)
  next
    case True
    then have as: "gfp_ok as" and a: "area_ok a" using Cons.prems by simp_all
    show ?thesis
    proof (rule memory_area_alloc_any_cases [OF a assms(2), where n = n])
      fix s
      assume *: "memory_area_alloc_aligned a True n ?al ?I
          = Ok (claim_run a s n, 0, of_nat s * PAGE_SIZE)" "aligned_run a k n s"
      have "phys_pages_loop (a # as) err pages ?al ?I
          = Ok (claim_run a s n # as, 0, Some (p_base a + of_nat s * PAGE_SIZE))"
        using * True by (simp add: n_def)
      moreover note phys_grant_here [OF Cons.prems(1) True *(2)]
      ultimately show ?thesis by blast
    next
      assume *: "memory_area_alloc_aligned a True n ?al ?I = Ok (a, - errno_num ENOMEM, 0)"
        "\<And>s. 0 < n \<Longrightarrow> hint_slot a ?I = None \<or> hint_slot a ?I = Some s \<Longrightarrow> \<not> aligned_run a k n s"
      let ?e = "- errno_num ENOMEM"
      have rec: "phys_pages_loop (a # as) err pages ?al ?I = after_area a (phys_pages_loop as ?e pages ?al ?I)"
        using * True by (simp add: n_def)
      have "?e \<noteq> 0" by simp
      from Cons.IH [OF as this] show ?thesis
      proof (elim disjE exE conjE)
        fix st' p i s
        assume "phys_pages_loop as ?e pages ?al ?I = Ok (st', 0, Some p)" "phys_grant as st' k n p i s"
        then show ?thesis using rec phys_grant_later [OF Cons.prems(1) True] by fastforce
      next
        fix e'
        assume "phys_pages_loop as ?e pages ?al ?I = Ok (as, e', None)" "e' \<noteq> 0"
          "\<forall>b \<in> set (live as). \<forall>s. \<not> aligned_run b k n s"
        then show ?thesis
          using rec *(2) True assms(3)
          by (intro disjI2 exI [of _ e']) (simp add: live_Cons hint_slot_def n_def)
      qed
    qed (simp_all add: hint_slot_def)
  qed
qed

section \<open>Release\<close>

text \<open>Slots \<open>s ..< s + n\<close> of area \<open>i\<close>, none of whose frames belongs to an earlier area.\<close>

definition owned_run :: "areas \<Rightarrow> nat \<Rightarrow> nat \<Rightarrow> nat \<Rightarrow> bool" where
  "owned_run st i s n \<longleftrightarrow> i < length (live st) \<and> s + n \<le> a_bit_max (st ! i) \<and>
     (\<forall>j < i. {pfn0 (st ! i) + s ..< pfn0 (st ! i) + s + n} \<inter> area_pfns (st ! j) = {})"

lemma live_nth: "i < length (live st) \<Longrightarrow> live st ! i = st ! i \<and> valid (st ! i) \<and> i < length st"
  by (metis live_def nth_mem order_less_le_trans set_takeWhileD takeWhile_nth length_takeWhile_le)

lemma live_update:
  "j < length (live as) \<Longrightarrow> valid b \<Longrightarrow> live (as[j := b]) = (live as)[j := b]"
proof (induction as arbitrary: j)
  case (Cons a as)
  then show ?case by (cases j) (auto simp: live_Cons split: if_splits)
qed (simp add: live_def)

lemma gfp_ok_live: "gfp_ok st \<Longrightarrow> i < length (live st) \<Longrightarrow> area_ok (st ! i)"
proof (induction st arbitrary: i)
  case (Cons a as)
  then show ?case by (cases i) (auto simp: live_Cons split: if_splits)
qed (simp add: live_def)

lemma earlier_reserved:
  "gfp_ok st \<Longrightarrow> i < length (live st) \<Longrightarrow> j < i \<Longrightarrow>
   area_pfns (st ! j) \<inter> area_pfns (st ! i) \<subseteq> used_pfns (st ! i) \<and> windows_disjoint (st ! j) (st ! i)"
proof (induction st arbitrary: i j)
  case (Cons a as)
  then have a: "valid a" by (simp add: live_Cons split: if_splits)
  obtain i' where i: "i = Suc i'" using Cons.prems by (cases i) auto
  then have i': "i' < length (live as)" using Cons.prems a by (simp add: live_Cons)
  show ?case
  proof (cases j)
    case 0
    have "as ! i' \<in> set (live as)" using live_nth [OF i'] nth_mem [OF i'] by simp
    then show ?thesis using 0 i Cons.prems a by simp
  next
    case (Suc j')
    then show ?thesis using Cons.IH [OF _ i', of j'] Cons.prems a i by simp
  qed
qed (simp add: live_def)

lemma aligned_run_owned:
  assumes "gfp_ok st" and "i < length (live st)" and run: "aligned_run (st ! i) k n s"
  shows "owned_run st i s n"
proof -
  have "x \<notin> area_pfns (st ! j)" if "j < i" "x \<in> {pfn0 (st ! i) + s ..< pfn0 (st ! i) + s + n}" for j x
  proof
    assume x: "x \<in> area_pfns (st ! j)"
    have "x \<in> area_pfns (st ! i)" using that run by (auto simp: area_pfns_def)
    with earlier_reserved [OF assms(1,2) that(1)] x have "x \<in> used_pfns (st ! i)" by blast
    moreover have "s \<le> x - pfn0 (st ! i)" "x - pfn0 (st ! i) < s + n" using that(2) by auto
    ultimately show False using run by (auto simp: mem_used_pfns)
  qed
  then show ?thesis using assms by (auto simp: owned_run_def)
qed

lemma release_effect:
  assumes "gfp_ok st" and "owned_run st i s n"
  defines "F \<equiv> {pfn0 (st ! i) + s ..< pfn0 (st ! i) + s + n}"
    and "st' \<equiv> st[i := release_run (st ! i) s n]"
  shows "gfp_ok st' \<and> busy st' = busy st - F \<and> avail st' = avail st \<union> F \<and> map geom st' = map geom st"
  using assms(1,2) unfolding F_def st'_def
proof (induction st arbitrary: i)
  case (Cons a as)
  then have a: "valid a" "area_ok a" by (auto simp: owned_run_def live_Cons split: if_splits)
  show ?case
  proof (cases i)
    case 0
    then have run: "s + n \<le> a_bit_max a" using Cons.prems by (simp add: owned_run_def)
    then have sub: "{pfn0 a + s ..< pfn0 a + s + n} \<subseteq> area_pfns a" by (auto simp: area_pfns_def)
    have "windows_disjoint (release_run a s n) b = windows_disjoint a b" for b
      by (simp add: windows_disjoint_def in_area_def release_run_def)
    then show ?thesis
      using 0 a Cons.prems(1) area_ok_run [OF a(2) run] sub area_avail_disjoint [OF Cons.prems(1)]
      by simp blast
  next
    case (Suc j)
    let ?F = "{pfn0 (as ! j) + s ..< pfn0 (as ! j) + s + n}"
    let ?as' = "as[j := release_run (as ! j) s n]"
    have own: "owned_run as j s n"
      using Cons.prems(2) a Suc by (fastforce simp: owned_run_def live_Cons)
    have dis: "?F \<inter> area_pfns a = {}" using Cons.prems(2) Suc by (fastforce simp: owned_run_def)
    have jl: "j < length (live as)" using own by (simp add: owned_run_def)
    have aok: "area_ok (as ! j)" using gfp_ok_live jl Cons.prems a by simp
    have rel: "used_pfns (release_run (as ! j) s n) = used_pfns (as ! j) - ?F"
      using area_ok_run(4) [OF aok] own by (simp add: owned_run_def)
    have IH: "gfp_ok ?as' \<and> busy ?as' = busy as - ?F \<and> avail ?as' = avail as \<union> ?F
        \<and> map geom ?as' = map geom as"
      using Cons.IH [OF _ own] Cons.prems a by simp
    have sub: "used_pfns a \<subseteq> area_pfns a" by (rule used_sub_area)
    have "area_pfns a \<inter> area_pfns b' \<subseteq> used_pfns b' \<and> windows_disjoint a b'"
      if "b' \<in> set (live ?as')" for b'
    proof -
      have "live ?as' = (live as)[j := release_run (as ! j) s n]"
        using live_update [OF jl] live_nth [OF jl] by simp
      with that consider "b' \<in> set (live as)" | "b' = release_run (as ! j) s n"
        using set_update_subset_insert by fastforce
      then show ?thesis
      proof cases
        case 1
        then show ?thesis using Cons.prems(1) a by simp
      next
        case 2
        have "as ! j \<in> set (live as)" using live_nth [OF jl] nth_mem [OF jl] by simp
        then have "area_pfns a \<inter> area_pfns (as ! j) \<subseteq> used_pfns (as ! j)" "windows_disjoint a (as ! j)"
          using Cons.prems(1) a by auto
        then show ?thesis using 2 rel dis geom_eqD(4) [of b' "as ! j" a] by auto
      qed
    qed
    then show ?thesis using Suc Cons.prems(1) a IH dis sub by simp blast
  qed
qed (simp add: owned_run_def live_def)

lemma slot_number:
  assumes "s < 2 ^ 31"
  shows "unat ((x + of_nat s * PAGE_SIZE - x) div PAGE_SIZE) = s"
  using assms by (simp add: unat_div unat_word_ariths(2) unat_of_nat)

lemma free_pages_owned:
  assumes ok: "gfp_ok st" and own: "owned_run st i s n" and "find_area st v = Some i"
    and "v_base (st ! i) \<noteq> 0" and v: "v = v_base (st ! i) + of_nat s * PAGE_SIZE"
  shows "free_pages st v n = (st[i := release_run (st ! i) s n], 0)"
proof -
  have a: "area_ok (st ! i)" and sn: "s + n \<le> a_bit_max (st ! i)"
    using gfp_ok_live [OF ok] own by (simp_all add: owned_run_def)
  have small: "s + n < 2 ^ 31" using sn area_bounds(1) [OF a] by simp
  have "unat v mod 0x1000 = 0"
    using area_bounds(4) [OF a assms(4), of s] sn a assms(4) v by (simp add: area_ok_def)
  then have "page_voffset v = 0" by (simp add: page_offset_zero_iff)
  moreover have "unat ((v - v_base (st ! i)) div PAGE_SIZE) = s"
    unfolding v using small by (intro slot_number) simp
  moreover have "u32_of s = s" "u32_of (s + n) = s + n" using small by (simp_all add: u32_of_def)
  ultimately show ?thesis
    using assms(3) sn by (simp add: free_pages_def Let_def release_run_def)
qed

lemma p_in_area_pfns:
  assumes "area_ok a" and "unat p = 0x1000 * f" and "0x1000 * (f + n) < 2 ^ 64" and "0 < n"
  shows "p_in_area a p n \<longleftrightarrow> {f ..< f + n} \<subseteq> area_pfns a"
proof -
  have sum: "0x1000 * f + 0x1000 * n < 2 ^ LENGTH(64)" using assms(3) by (simp add: distrib_left)
  then have n: "n < 2 ^ LENGTH(64)" and n2: "0x1000 * n < 2 ^ LENGTH(64)" by simp_all
  have "unat (PAGE_SIZE * of_nat n) = 0x1000 * n"
    by (simp only: unat_word_ariths(2) unat_of_nat_small [OF n] unat_PAGE_SIZE mod_less [OF n2])
  then have "unat (p + PAGE_SIZE * of_nat n) = 0x1000 * (f + n)"
    by (simp only: unat_word_ariths(1) assms(2) mod_less [OF sum] distrib_left)
  moreover have "unat (p_end a) = 0x1000 * (pfn0 a + a_bit_max a)"
    using assms(1) area_bounds(2) [OF assms(1)] by (simp add: area_ok_def)
  ultimately have "p_in_area a p n \<longleftrightarrow> pfn0 a \<le> f \<and> f + n \<le> pfn0 a + a_bit_max a"
    using assms(4) unfolding p_in_area_def word_less_nat_alt word_le_nat_alt assms(2)
      area_bounds(2) [OF assms(1)] by auto
  then show ?thesis using assms(4) by (simp add: area_pfns_def ivl_subset)
qed

lemma owned_run_bounds:
  assumes "gfp_ok st" and "owned_run st i s n"
  shows "unat (p_base (st ! i) + of_nat s * PAGE_SIZE) = 0x1000 * (pfn0 (st ! i) + s)"
    and "0x1000 * (pfn0 (st ! i) + s + n) < 2 ^ 64"
proof -
  have a: "area_ok (st ! i)" and sn: "s + n \<le> a_bit_max (st ! i)"
    using gfp_ok_live [OF assms(1)] assms(2) by (simp_all add: owned_run_def)
  show "unat (p_base (st ! i) + of_nat s * PAGE_SIZE) = 0x1000 * (pfn0 (st ! i) + s)"
    using area_bounds(3) [OF a, of s] sn by simp
  have "unat (p_base (st ! i) + of_nat (s + n) * PAGE_SIZE) = 0x1000 * (pfn0 (st ! i) + (s + n))"
    using area_bounds(3) [OF a, of "s + n"] sn by blast
  then show "0x1000 * (pfn0 (st ! i) + s + n) < 2 ^ 64"
    using unat_lt2p [of "p_base (st ! i) + of_nat (s + n) * PAGE_SIZE"] by (simp add: add.assoc)
qed

lemma phys_free_loop_owned:
  assumes "gfp_ok st" and "owned_run st i s n" and "0 < n"
  shows "phys_free_loop st (p_base (st ! i) + of_nat s * PAGE_SIZE) n
    = (st[i := release_run (st ! i) s n], 0)"
  using assms(1,2)
proof (induction st arbitrary: i)
  case (Cons a as)
  let ?p = "p_base ((a # as) ! i) + of_nat s * PAGE_SIZE"
  let ?f = "pfn0 ((a # as) ! i) + s"
  have a: "valid a" "area_ok a"
    using Cons.prems by (auto simp: owned_run_def live_Cons split: if_splits)
  have pin: "p_in_area a ?p n \<longleftrightarrow> {?f ..< ?f + n} \<subseteq> area_pfns a"
    using owned_run_bounds [OF Cons.prems] assms(3) by (intro p_in_area_pfns [OF a(2)])
  show ?case
  proof (cases i)
    case 0
    then have sn: "s + n \<le> a_bit_max a" using Cons.prems(2) by (simp add: owned_run_def)
    then have s: "s < 2 ^ 31" using area_bounds(1) [OF a(2)] by simp
    have "{?f ..< ?f + n} \<subseteq> area_pfns a" using 0 sn by (auto simp: area_pfns_def)
    with pin 0 a slot_number [OF s, of "p_base a"] s show ?thesis
      by (simp add: release_run_def u32_of_def)
  next
    case (Suc j)
    have own: "owned_run as j s n"
      using Cons.prems(2) a Suc by (fastforce simp: owned_run_def live_Cons)
    have "{?f ..< ?f + n} \<inter> area_pfns a = {}"
      using Cons.prems(2) Suc by (fastforce simp: owned_run_def)
    moreover have "?f \<in> {?f ..< ?f + n}" using assms(3) by simp
    ultimately have "\<not> p_in_area a ?p n" unfolding pin by blast
    with Suc a Cons.IH [OF _ own] Cons.prems show ?thesis by simp
  qed
qed (simp add: owned_run_def live_def)

lemma phys_free_pages_owned:
  assumes "gfp_ok st" and "owned_run st i s n" and "0 < n"
  shows "phys_free_pages st (p_base (st ! i) + of_nat s * PAGE_SIZE) n
    = (st[i := release_run (st ! i) s n], 0)"
  using phys_free_loop_owned [OF assms] owned_run_bounds(1) [OF assms(1,2)]
  by (simp add: phys_free_pages_def page_offset_zero_iff)

end
