(* ===== verification/Page_Ownership.thy ===== *)
theory Page_Ownership
  imports Gfp
begin

text \<open>
  What clients of the page allocator can rely on. A transition system runs allocations
  and releases in any order; its invariant accounts for every page frame. Then the
  direct translations \<^verbatim>\<open>v2p\<close> / \<^verbatim>\<open>p2v\<close> and the creation of the main-memory area.
\<close>

section \<open>Runs of the allocator\<close>

text \<open>
  A client holds grants: pages obtained by virtual or by physical address. A step is a
  successful or failed allocation of either kind, or the release of a held grant.
\<close>

datatype grant = Virt u64 nat | Phys u64 nat

fun grant_pfns :: "areas \<Rightarrow> grant \<Rightarrow> nat set" where
  "grant_pfns st (Virt v n) =
     (case find_area st v of Some i \<Rightarrow> frames (memory_area_v2p (st ! i) v) n | None \<Rightarrow> {})"
| "grant_pfns st (Phys p n) = frames p n"

inductive gfp_step :: "areas \<times> grant list \<Rightarrow> areas \<times> grant list \<Rightarrow> bool" where
  alloc: "0 < n \<Longrightarrow> k < 20 \<Longrightarrow> alloc_pages_aligned st n (unat PAGE_SIZE * 2 ^ k) = Ok (st', v) \<Longrightarrow>
     gfp_step (st, G) (st', if v \<noteq> 0 then Virt v n # G else G)"
| phys_alloc: "0 < n \<Longrightarrow> n < 2 ^ 32 \<Longrightarrow> k < 20 \<Longrightarrow>
     phys_pages_alloc st n (unat PAGE_SIZE * 2 ^ k) = Ok (st', e, res) \<Longrightarrow>
     gfp_step (st, G) (st', case res of Some p \<Rightarrow> Phys p n # G | None \<Rightarrow> G)"
| free: "Virt v n \<in> set G \<Longrightarrow> free_pages st v n = (st', e) \<Longrightarrow>
     gfp_step (st, G) (st', remove1 (Virt v n) G)"
| phys_free: "Phys p n \<in> set G \<Longrightarrow> phys_free_pages st p n = (st', e) \<Longrightarrow>
     gfp_step (st, G) (st', remove1 (Phys p n) G)"

fun grant_at :: "areas \<Rightarrow> grant \<Rightarrow> nat \<Rightarrow> nat \<Rightarrow> bool" where
  "grant_at st (Virt v n) i s \<longleftrightarrow> find_area st v = Some i \<and> v_base (st ! i) \<noteq> 0 \<and>
     v = v_base (st ! i) + of_nat s * PAGE_SIZE \<and> owned_run st i s n \<and> 0 < n"
| "grant_at st (Phys p n) i s \<longleftrightarrow> p = p_base (st ! i) + of_nat s * PAGE_SIZE \<and>
     owned_run st i s n \<and> 0 < n"

fun grant_size :: "grant \<Rightarrow> nat" where
  "grant_size (Virt v n) = n"
| "grant_size (Phys p n) = n"

fun disjoint_list :: "'a set list \<Rightarrow> bool" where
  "disjoint_list [] \<longleftrightarrow> True"
| "disjoint_list (x # xs) \<longleftrightarrow> (\<forall>y \<in> set xs. x \<inter> y = {}) \<and> disjoint_list xs"

text \<open>The frames in use are those in use at the start and those of the grants, without overlap.\<close>

definition gfp_inv :: "areas \<Rightarrow> areas \<times> grant list \<Rightarrow> bool" where
  "gfp_inv st0 = (\<lambda>(st, G). gfp_ok st \<and> map geom st = map geom st0 \<and>
     (\<forall>g \<in> set G. \<exists>i s. grant_at st g i s) \<and>
     busy st = busy st0 \<union> (\<Union>g \<in> set G. grant_pfns st g) \<and>
     disjoint_list (busy st0 # map (grant_pfns st) G))"

lemma geom_nth: "map geom st' = map geom st \<Longrightarrow> i < length st \<Longrightarrow> geom (st' ! i) = geom (st ! i)"
  by (metis length_map nth_map)

lemma find_area_geom: "map geom st' = map geom st \<Longrightarrow> find_area st' v = find_area st v"
proof (induction st arbitrary: st')
  case (Cons a as)
  then obtain a' as' where st': "st' = a' # as'" "geom a' = geom a" "map geom as' = map geom as" by auto
  then show ?case using Cons.IH [OF st'(3)] geom_eqD(1,3) [OF st'(2)] by simp
qed simp

lemma live_geom: "map geom st' = map geom st \<Longrightarrow> length (live st') = length (live st)"
proof (induction st arbitrary: st')
  case (Cons a as)
  then obtain a' as' where st': "st' = a' # as'" "geom a' = geom a" "map geom as' = map geom as" by auto
  then show ?case using Cons.IH [OF st'(3)] geom_eqD(1) [OF st'(2)] by (simp add: live_Cons)
qed (simp add: live_def)

lemma grant_geom:
  assumes g: "map geom st' = map geom st" and "grant_at st gr i s"
  shows "grant_at st' gr i s \<and> grant_pfns st' gr = grant_pfns st gr"
proof -
  have own: "owned_run st i s (grant_size gr)" using assms(2) by (cases gr) simp_all
  then have il: "i < length (live st)" by (simp add: owned_run_def)
  then have "i < length st" using live_nth by blast
  have nth: "geom (st' ! j) = geom (st ! j)" if "j \<le> i" for j
    using geom_nth [OF g, of j] that \<open>i < length st\<close> by simp
  note gi = geom_eqD [OF nth [OF order_refl]]
  have "pfn0 (st' ! i) = pfn0 (st ! i)" using gi(7) by (simp add: pfn0_def)
  then have "owned_run st' i s (grant_size gr)"
    using own gi(8) live_geom [OF g] geom_eqD(2) [OF nth] by (simp add: owned_run_def)
  then show ?thesis
    using assms(2) gi find_area_geom [OF g] by (cases gr) simp_all
qed

lemma grant_pfns_run:
  assumes "gfp_ok st" and "grant_at st gr i s"
  shows "grant_pfns st gr = {pfn0 (st ! i) + s ..< pfn0 (st ! i) + s + grant_size gr}"
proof -
  have "owned_run st i s (grant_size gr)" using assms(2) by (cases gr) simp_all
  from owned_run_bounds(1) [OF assms(1) this] show ?thesis
    using assms(2) by (cases gr) (simp_all add: frames_def v2p_slot)
qed

lemma alloc_inv:
  assumes inv: "gfp_inv st0 (st, G)" and eff: "alloc_effect st st' p n"
    and at: "grant_at st gr i s" and fr: "grant_pfns st gr = frames p n"
  shows "gfp_inv st0 (st', gr # G)"
proof -
  have g: "map geom st' = map geom st"
    using eff by (auto simp: alloc_effect_def grown_def list_all2_conv_all_nth intro: nth_equalityI)
  have same: "grant_at st' h i s \<and> grant_pfns st' h = grant_pfns st h" if "grant_at st h i s" for h i s
    using grant_geom [OF g that] .
  have pf: "grant_pfns st' h = grant_pfns st h" if "h \<in> set G" for h
    using same inv that by (fastforce simp: gfp_inv_def)
  have ok: "gfp_ok st" and busy: "busy st = busy st0 \<union> (\<Union>g \<in> set G. grant_pfns st g)"
    using inv by (simp_all add: gfp_inv_def)
  have "frames p n \<inter> busy st = {}"
    using avail_not_busy [OF ok] eff by (auto simp: alloc_effect_def)
  then have dis: "frames p n \<inter> busy st0 = {}" "\<And>h. h \<in> set G \<Longrightarrow> frames p n \<inter> grant_pfns st h = {}"
    unfolding busy by blast+
  have "busy st' = busy st0 \<union> (\<Union>g \<in> set (gr # G). grant_pfns st' g)"
    using eff busy pf same [OF at] fr by (auto simp: alloc_effect_def)
  moreover have "disjoint_list (map (grant_pfns st') G)"
    using inv pf by (simp add: gfp_inv_def cong: map_cong)
  moreover have "\<forall>h \<in> set (gr # G). \<exists>i s. grant_at st' h i s"
    using same at inv by (fastforce simp: gfp_inv_def)
  ultimately show ?thesis
    using inv eff g dis same [OF at] fr pf by (auto simp: gfp_inv_def alloc_effect_def)
qed

lemma disjoint_list_remove1:
  assumes "g \<in> set G" and "disjoint_list (map f G)"
  shows "disjoint_list (map f (remove1 g G)) \<and> (\<forall>h \<in> set (remove1 g G). f g \<inter> f h = {}) \<and>
    (\<Union>h \<in> set G. f h) = f g \<union> (\<Union>h \<in> set (remove1 g G). f h)"
  using assms
proof (induction G)
  case (Cons a G)
  show ?case
  proof (cases "a = g")
    case False
    with Cons have IH: "disjoint_list (map f (remove1 g G))" "\<forall>h \<in> set (remove1 g G). f g \<inter> f h = {}"
      "(\<Union>h \<in> set G. f h) = f g \<union> (\<Union>h \<in> set (remove1 g G). f h)" and "g \<in> set G" by auto
    moreover have "\<forall>h \<in> set G. f a \<inter> f h = {}" using Cons.prems by simp
    moreover have "set (remove1 g G) \<subseteq> set G" by (rule set_remove1_subset)
    ultimately show ?thesis using False by auto
  qed (use Cons.prems in auto)
qed simp

lemma release_inv:
  assumes inv: "gfp_inv st0 (st, G)" and mem: "gr \<in> set G" and at: "grant_at st gr i s"
  shows "gfp_inv st0 (st[i := release_run (st ! i) s (grant_size gr)], remove1 gr G)"
proof -
  let ?st' = "st[i := release_run (st ! i) s (grant_size gr)]" and ?G = "remove1 gr G"
  have ok: "gfp_ok st" and busy: "busy st = busy st0 \<union> (\<Union>g \<in> set G. grant_pfns st g)"
    and dl: "disjoint_list (map (grant_pfns st) G)"
    and d0: "\<And>g. g \<in> set G \<Longrightarrow> busy st0 \<inter> grant_pfns st g = {}"
    using inv by (auto simp: gfp_inv_def)
  have own: "owned_run st i s (grant_size gr)" using at by (cases gr) simp_all
  note rel = release_effect [OF ok own, folded grant_pfns_run [OF ok at]]
  then have g: "map geom ?st' = map geom st" by blast
  note dr = disjoint_list_remove1 [OF mem dl]
  have sub: "set ?G \<subseteq> set G" by (rule set_remove1_subset)
  have same: "(\<exists>i s. grant_at ?st' h i s) \<and> grant_pfns ?st' h = grant_pfns st h" if "h \<in> set ?G" for h
  proof -
    have "h \<in> set G" using that sub by blast
    with inv obtain j t where "grant_at st h j t" by (auto simp: gfp_inv_def)
    from grant_geom [OF g this] show ?thesis by blast
  qed
  have "busy ?st' = busy st - grant_pfns st gr" using rel by blast
  also have "\<dots> = busy st0 \<union> (\<Union>g \<in> set ?G. grant_pfns st g)"
    unfolding busy using dr d0 [OF mem] by blast
  also have "\<dots> = busy st0 \<union> (\<Union>g \<in> set ?G. grant_pfns ?st' g)" using same by simp
  finally have "busy ?st' = busy st0 \<union> (\<Union>g \<in> set ?G. grant_pfns ?st' g)" .
  moreover have "disjoint_list (map (grant_pfns ?st') ?G)"
    using dr same by (simp cong: map_cong)
  moreover have "\<forall>y \<in> set ?G. busy st0 \<inter> grant_pfns ?st' y = {}" using same d0 sub by blast
  ultimately show ?thesis
    using rel inv g same by (simp add: gfp_inv_def)
qed

lemma free_grant_succeeds:
  assumes "gfp_ok st" and "grant_at st gr i s"
  shows "(case gr of Virt v n \<Rightarrow> free_pages st v n | Phys p n \<Rightarrow> phys_free_pages st p n)
    = (st[i := release_run (st ! i) s (grant_size gr)], 0)"
  using assms free_pages_owned [OF assms(1)] phys_free_pages_owned [OF assms(1)]
  by (cases gr) auto

lemma virt_grant_at:
  assumes "gfp_ok st" and "0 < n" and "virt_grant st st' k n v i s"
  shows "grant_at st (Virt v n) i s" and "grant_pfns st (Virt v n) = frames (memory_area_v2p (st ! i) v) n"
    and "v \<noteq> 0"
proof -
  have f: "find_area st v = Some i" and vb: "v_base (st ! i) \<noteq> 0"
    and run: "aligned_run (st ! i) k n s" and v: "v = v_base (st ! i) + of_nat s * PAGE_SIZE"
    using assms(3) by (auto simp: virt_grant_def)
  have il: "i < length (live st)"
    using f by (induction st arbitrary: i) (auto simp: live_Cons split: if_splits)
  show "grant_at st (Virt v n) i s"
    using f vb v aligned_run_owned [OF assms(1) il run] assms(2) by simp
  show "grant_pfns st (Virt v n) = frames (memory_area_v2p (st ! i) v) n" using f by simp
  have "unat v = unat (v_base (st ! i)) + 0x1000 * s"
    using area_bounds(4) [OF gfp_ok_live [OF assms(1) il] vb, of s] run v by simp
  then show "v \<noteq> 0" using vb by (metis add_is_0 unat_0 unat_eq_zero)
qed

lemma EINVAL_nonzero: "- errno_num EINVAL \<noteq> 0"
  by simp

lemma gfp_step_inv:
  assumes "gfp_step x y" and "gfp_inv st0 x"
  shows "gfp_inv st0 y"
  using assms
proof (induction rule: gfp_step.induct)
  case (alloc n k st st' v G)
  have ok: "gfp_ok st" using alloc.prems by (simp add: gfp_inv_def)
  show ?case
    using alloc_pages_loop_spec [OF ok alloc.hyps(2,1) EINVAL_nonzero]
  proof (elim disjE exE conjE)
    fix st1 v1 i s
    assume *: "alloc_pages_loop st (- errno_num EINVAL) n (unat PAGE_SIZE * 2 ^ k) 0 = Ok (st1, 0, Some v1)"
      "virt_grant st st1 k n v1 i s"
    have eff: "alloc_effect st st1 (memory_area_v2p (st ! i) v1) n"
      using *(2) unfolding virt_grant_def by blast
    have eq: "st' = st1" "v = v1"
      using alloc.hyps(3) *(1) by (simp_all add: alloc_pages_aligned_def alloc_pages_aligned_hint_def)
    note at = virt_grant_at [OF ok alloc.hyps(1) *(2)]
    show ?thesis using alloc_inv [OF alloc.prems eff at(1,2)] at(3) eq by simp
  next
    fix e
    assume "alloc_pages_loop st (- errno_num EINVAL) n (unat PAGE_SIZE * 2 ^ k) 0 = Ok (st, e, None)"
      "e \<noteq> 0"
    then show ?thesis using alloc
      by (simp add: alloc_pages_aligned_def alloc_pages_aligned_hint_def)
  qed
next
  case (phys_alloc n k st st' e res G)
  have ok: "gfp_ok st" using phys_alloc.prems by (simp add: gfp_inv_def)
  have n: "u32_of n = n" using phys_alloc.hyps(2) by (simp add: u32_of_def)
  have "0 < u32_of n" using n phys_alloc.hyps(1) by simp
  from phys_pages_loop_spec [OF ok phys_alloc.hyps(3) this EINVAL_nonzero, unfolded n]
  show ?case
  proof (elim disjE exE conjE)
    fix st1 p i s
    assume *: "phys_pages_loop st (- errno_num EINVAL) n (unat PAGE_SIZE * 2 ^ k) INVALID_PHYS_ADDR
        = Ok (st1, 0, Some p)" "phys_grant st st1 k n p i s"
    have il: "i < length (live st)" and run: "aligned_run (st ! i) k n s"
      and p: "p = p_base (st ! i) + of_nat s * PAGE_SIZE" and eff: "alloc_effect st st1 p n"
      using *(2) unfolding phys_grant_def by blast+
    have eq: "st' = st1" "res = Some p"
      using phys_alloc.hyps(4) *(1) by (simp_all add: phys_pages_alloc_def phys_pages_alloc_hint_def)
    have "grant_at st (Phys p n) i s"
      using aligned_run_owned [OF ok il run] phys_alloc.hyps(1) p by simp
    from alloc_inv [OF phys_alloc.prems eff this] show ?thesis using eq by simp
  next
    fix e'
    assume "phys_pages_loop st (- errno_num EINVAL) n (unat PAGE_SIZE * 2 ^ k) INVALID_PHYS_ADDR
        = Ok (st, e', None)"
    then show ?thesis using phys_alloc by (simp add: phys_pages_alloc_def phys_pages_alloc_hint_def)
  qed
next
  case (free v n G st st' e)
  then obtain i s where at: "grant_at st (Virt v n) i s" by (fastforce simp: gfp_inv_def)
  have "gfp_ok st" using free.prems by (simp add: gfp_inv_def)
  from free_grant_succeeds [OF this at]
  have "free_pages st v n = (st[i := release_run (st ! i) s n], 0)" by simp
  then show ?case using release_inv [OF free.prems free.hyps(1) at] free.hyps(2) by simp
next
  case (phys_free p n G st st' e)
  then obtain i s where at: "grant_at st (Phys p n) i s" by (fastforce simp: gfp_inv_def)
  have "gfp_ok st" using phys_free.prems by (simp add: gfp_inv_def)
  from free_grant_succeeds [OF this at]
  have "phys_free_pages st p n = (st[i := release_run (st ! i) s n], 0)" by simp
  then show ?case using release_inv [OF phys_free.prems phys_free.hyps(1) at] phys_free.hyps(2) by simp
qed

section \<open>Address translation\<close>

lemma p2v_in_area:
  assumes "area_ok a" and "p_in_area a p 0" and "v_base a \<noteq> 0"
  defines "v \<equiv> v_base a + (p - p_base a)"
  shows "in_area a v \<and> memory_area_v2p a v = p"
proof -
  have le: "p_base a \<le> p" and lt: "p < p_end a"
    using assms(2) by (auto simp: p_in_area_def split: if_splits)
  have off: "unat (p - p_base a) = unat p - unat (p_base a)" by (rule unat_sub [OF le])
  have sz: "unat (p_base a) + 0x1000 * a_bit_max a = unat (p_end a)"
    "unat (v_base a) + 0x1000 * a_bit_max a = unat (v_end a)"
    using assms(1,3) by (simp_all add: area_ok_def)
  have b: "unat (v_base a) + unat (p - p_base a) < unat (v_end a)"
    using off sz le lt unfolding word_le_nat_alt word_less_nat_alt by linarith
  also have "\<dots> < 2 ^ LENGTH(64)" by (rule unat_lt2p)
  finally have "unat v = unat (v_base a) + unat (p - p_base a)"
    unfolding v_def by (simp only: unat_word_ariths(1) mod_less)
  with b show ?thesis
    by (simp add: in_area_def word_le_nat_alt word_less_nat_alt) (simp add: memory_area_v2p_def v_def)
qed

lemma p2v_find_area:
  "gfp_ok st \<Longrightarrow> p2v st p = Ok v \<Longrightarrow>
   \<exists>i. find_area st v = Some i \<and> memory_area_v2p (st ! i) v = p"
proof (induction st)
  case (Cons a as)
  then have a: "valid a" "area_ok a" "gfp_ok as" by (auto split: if_splits)
  show ?case
  proof (cases "p_in_area a p 0 \<and> v_base a \<noteq> 0")
    case True
    then show ?thesis using p2v_in_area [OF a(2), of p] Cons.prems a by (intro exI [of _ 0]) auto
  next
    case False
    then have "p2v as p = Ok v" using Cons.prems a by (auto split: if_splits)
    from Cons.IH [OF a(3) this] obtain i
      where i: "find_area as v = Some i" "memory_area_v2p (as ! i) v = p" by blast
    from find_area_Some [OF i(1)] have "\<not> in_area a v"
      using Cons.prems(1) a(1) by (auto simp: windows_disjoint_def)
    then show ?thesis using i a by (intro exI [of _ "Suc i"]) simp
  qed
qed simp

section \<open>The main-memory area\<close>

lemma bitmap_pages_cover:
  assumes "n < 2 ^ 31"
  shows "n \<le> 64 * (512 * u32_of (unat (PAGES (page_up (of_nat (bitmap_size n))))))"
proof -
  have "ALIGN_MASK n (BITS_PER_LONG - 1) = 64 * ((n + 63) div 64)"
    using ALIGN_MASK_mult [of n 6] by simp
  then have sz: "bitmap_size n = 8 * ((n + 63) div 64)" by (simp add: bitmap_size_def)
  then have lt: "bitmap_size n < 2 ^ 32" using assms by simp
  then have "unat (of_nat (bitmap_size n) :: u64) = bitmap_size n"
    by (intro unat_of_nat_small) simp
  with lt have "unat (PAGES (page_up (of_nat (bitmap_size n)))) = (bitmap_size n + 0xfff) div 0x1000"
    by (simp add: unat_PAGES unat_page_up)
  moreover from this have "unat (PAGES (page_up (of_nat (bitmap_size n)))) < 2 ^ 32" using lt by simp
  ultimately show ?thesis using sz unfolding u32_of_def by simp
qed

lemma replicate_zero_bits: "\<not> bm_bit (replicate n 0) i" if "i < 64 * n"
  using that by (simp add: bm_bit_def)

definition main_area :: "u64 \<Rightarrow> u64 \<Rightarrow> u64 \<Rightarrow> memory_area" where
  "main_area addrp sizep virt = (let n = unat (PAGES sizep) in
     \<lparr> a_bitmap = replicate (512 * u32_of (unat (PAGES (page_up (of_nat (bitmap_size n)))))) 0,
       a_bit_max = n, p_base = addrp, p_end = addrp + of_nat n * PAGE_SIZE,
       v_base = virt, v_end = virt + of_nat n * PAGE_SIZE, valid = True \<rparr>)"

lemma main_area_ok:
  assumes "unat addrp mod 0x1000 = 0" and "unat addrp + unat sizep < 2 ^ 64"
    and "unat sizep div 0x1000 < 2 ^ 31 - 1" and "virt \<noteq> 0" and "unat virt mod 0x1000 = 0"
    and "unat virt + unat sizep < 2 ^ 64"
  shows "area_ok (main_area addrp sizep virt)" and "used_pfns (main_area addrp sizep virt) = {}"
proof -
  let ?n = "unat (PAGES sizep)"
  have n: "?n = unat sizep div 0x1000" by (simp add: unat_PAGES)
  have cover: "?n \<le> 64 * (512 * u32_of (unat (PAGES (page_up (of_nat (bitmap_size ?n))))))"
    using assms(3) n by (intro bitmap_pages_cover) simp
  have off: "unat (of_nat ?n * PAGE_SIZE) = 0x1000 * ?n"
    using n assms(3) by (simp add: unat_word_ariths(2) unat_of_nat)
  have sz: "0x1000 * ?n \<le> unat sizep" using n by simp
  have "unat (x + of_nat ?n * PAGE_SIZE) = unat x + 0x1000 * ?n" if "unat x + unat sizep < 2 ^ 64" for x
  proof -
    have "unat x + 0x1000 * ?n < 2 ^ LENGTH(64)" using sz that by simp
    then show ?thesis by (simp only: unat_word_ariths(1) off mod_less)
  qed
  then show "area_ok (main_area addrp sizep virt)"
    using assms cover n by (simp add: area_ok_def main_area_def bm_cap_def Let_def)
  show "used_pfns (main_area addrp sizep virt) = {}"
    using cover replicate_zero_bits by (fastforce simp: used_pfns_def main_area_def Let_def)
qed

lemma alloc_pages_first_area:
  assumes "area_ok k" and "valid k" and "v_base k \<noteq> 0" and "v_base m = 0"
    and "alloc_pages [k, m] pages = Ok (st, ptr)" and "ptr \<noteq> 0"
  shows "\<exists>s. s + pages \<le> a_bit_max k \<and> st = [claim_run k s pages, m]"
proof -
  have al: "unat PAGE_SIZE = unat PAGE_SIZE * 2 ^ 0" by simp
  show ?thesis
  proof (rule memory_area_alloc_any_cases [OF assms(1), of 0 pages])
    fix s
    assume "memory_area_alloc_aligned k True pages (unat PAGE_SIZE * 2 ^ 0) INVALID_PHYS_ADDR
        = Ok (claim_run k s pages, 0, of_nat s * PAGE_SIZE)" "aligned_run k 0 pages s"
    then show ?thesis using assms
      by (auto simp: alloc_pages_def alloc_pages_aligned_def alloc_pages_aligned_hint_def)
  next
    assume "memory_area_alloc_aligned k True pages (unat PAGE_SIZE * 2 ^ 0) INVALID_PHYS_ADDR
        = Ok (k, - errno_num ENOMEM, 0)"
    then show ?thesis using assms
      by (cases "valid m")
         (auto simp: alloc_pages_def alloc_pages_aligned_def alloc_pages_aligned_hint_def)
  qed (simp_all add: hint_slot_def)
qed

lemma create_memory_area_cases:
  fixes addrp sizep virt :: u64
  assumes k: "area_ok k" "valid k" "v_base k \<noteq> 0" and "virt \<noteq> 0"
    and "create_memory_area [k, no_area] addrp sizep virt = Ok (st', 0)"
  defines "m \<equiv> main_area addrp sizep virt"
  obtains s n where "s + n \<le> a_bit_max k"
    and "if p_base k \<ge> addrp \<and> p_base k + GRINCH_SIZE < addrp + sizep
         then \<exists>m' off. memory_area_alloc_aligned m False KMM_PAGES (unat PAGE_SIZE * 2 ^ 0) (p_base k)
                = Ok (m', 0, off) \<and> st' = [claim_run k s n, m']
         else st' = [claim_run k s n, m]"
proof -
  define n where "n = unat (PAGES sizep)"
  define pg where "pg = u32_of (unat (PAGES (page_up (of_nat (bitmap_size n)))))"
  define m0 where "m0 = no_area\<lparr>valid := True, p_base := addrp, a_bit_max := n,
    p_end := addrp + of_nat n * PAGE_SIZE\<rparr>"
  have m: "m = m0\<lparr>a_bitmap := replicate (512 * pg) 0, v_base := virt,
      v_end := virt + of_nat n * PAGE_SIZE\<rparr>"
    by (simp add: m_def main_area_def no_area_def Let_def m0_def n_def [symmetric] pg_def [symmetric])
  have slot: "free_area_slot [k, no_area] = Some 1" using k by (simp add: no_area_def)
  note create = assms(5) [unfolded create_memory_area_def slot option.case Let_def,
      folded n_def, folded pg_def, unfolded nth_Cons_Suc nth_Cons_0 One_nat_def list_update.simps
      nat.case, folded m0_def]
  obtain st1 ptr where al: "alloc_pages [k, m0] pg = Ok (st1, ptr)" and "ptr \<noteq> 0"
    using create by (auto split: result.splits prod.splits if_splits)
  from alloc_pages_first_area [OF k _ al \<open>ptr \<noteq> 0\<close>] obtain s
    where s: "s + pg \<le> a_bit_max k" "st1 = [claim_run k s pg, m0]"
    by (auto simp: no_area_def m0_def)
  have "if p_base k \<ge> addrp \<and> p_base k + GRINCH_SIZE < addrp + sizep
        then \<exists>m' off. memory_area_alloc_aligned m False KMM_PAGES (unat PAGE_SIZE * 2 ^ 0) (p_base k)
               = Ok (m', 0, off) \<and> st' = [claim_run k s pg, m']
        else st' = [claim_run k s pg, m]"
    using create \<open>virt \<noteq> 0\<close> \<open>ptr \<noteq> 0\<close>
    by (auto simp: al s(2) m [symmetric] split: result.splits prod.splits if_splits)
  with s(1) show thesis by (rule that)
qed

section \<open>Properties\<close>

text \<open>A small area list for the witnesses: eight pages, the first four in use.\<close>

definition sample_areas :: areas where
  "sample_areas = [\<lparr> a_bitmap = [0xF], a_bit_max = 8, p_base = 0x80000000, p_end = 0x80008000,
     v_base = 0xffffffc000000000, v_end = 0xffffffc000008000, valid = True \<rparr>]"

lemma sample_areas_ok: "gfp_ok sample_areas"
  by (simp add: sample_areas_def area_ok_def bm_cap_def live_def)

text \<open>
  C1. No page is ever owned twice, and none is lost. From any well-formed list of areas,
  after any sequence of virtual and physical allocations and releases, the frames of the
  held grants are pairwise disjoint and disjoint from what was in use at the start (the
  kernel image, reserved regions); the frames marked used are exactly these; and releasing
  a held grant succeeds.
\<close>

theorem page_ownership:
  assumes "gfp_ok st0" and "gfp_step\<^sup>*\<^sup>* (st0, []) (st, G)"
  shows "disjoint_list (busy st0 # map (grant_pfns st) G) \<and>
    busy st = busy st0 \<union> (\<Union>g \<in> set G. grant_pfns st g) \<and> gfp_ok st \<and>
    (\<forall>v n. Virt v n \<in> set G \<longrightarrow> snd (free_pages st v n) = 0) \<and>
    (\<forall>p n. Phys p n \<in> set G \<longrightarrow> snd (phys_free_pages st p n) = 0)"
proof -
  have "gfp_inv st0 (st0, [])" using assms(1) by (simp add: gfp_inv_def)
  with assms(2) have inv: "gfp_inv st0 (st, G)"
    by (induction rule: rtranclp_induct) (auto intro: gfp_step_inv)
  have "(case gr of Virt v n \<Rightarrow> snd (free_pages st v n) | Phys p n \<Rightarrow> snd (phys_free_pages st p n)) = 0"
    if "gr \<in> set G" for gr
  proof -
    from inv that obtain i s where "grant_at st gr i s" "gfp_ok st" by (fastforce simp: gfp_inv_def)
    from free_grant_succeeds [OF this(2,1)] show ?thesis by (cases gr) simp_all
  qed
  from this [of "Virt _ _"] this [of "Phys _ _"] inv show ?thesis by (simp add: gfp_inv_def)
qed

lemma sample_alloc:
  "alloc_pages_aligned sample_areas 2 (unat PAGE_SIZE * 2 ^ 0)
   = Ok ([(sample_areas ! 0)\<lparr>a_bitmap := bitmap_set [0xF] 4 2\<rparr>], 0xffffffc000004000)"
proof -
  have "bitmap_find_next_zero_area [0xF] 8 0 2 0 = 4" by code_simp
  moreover have "long_to_int 4 = 4"
    unfolding long_to_int_def by (intro signed_take_bit_int_eq_self) simp_all
  ultimately show ?thesis
    by (simp add: alloc_pages_aligned_def alloc_pages_aligned_hint_def sample_areas_def Let_def
        memory_area_alloc_aligned_def mm_bitmap_find_and_allocate_def u32_of_def PAGE_SIZE_val)
qed

theorem page_ownership_witness:
  "let st = [(sample_areas ! 0)\<lparr>a_bitmap := bitmap_set [0xF] 4 2\<rparr>]
   in busy st = busy sample_areas \<union> grant_pfns st (Virt 0xffffffc000004000 2) \<and>
      busy sample_areas \<inter> grant_pfns st (Virt 0xffffffc000004000 2) = {} \<and>
      snd (free_pages st 0xffffffc000004000 2) = 0"
proof -
  let ?st = "[(sample_areas ! 0)\<lparr>a_bitmap := bitmap_set [0xF] 4 2\<rparr>]"
  have "gfp_step (sample_areas, []) (?st, [Virt 0xffffffc000004000 2])"
    using gfp_step.alloc [OF _ _ sample_alloc, of "[]"] by simp
  then have "gfp_step\<^sup>*\<^sup>* (sample_areas, []) (?st, [Virt 0xffffffc000004000 2])" by blast
  from page_ownership [OF sample_areas_ok this] show ?thesis by (simp add: Let_def)
qed

text \<open>
  C13. \<open>alloc_pages_aligned\<close> is complete and aligned: it never fails with a code other
  than a null pointer, it returns null only when no area with a kernel mapping has an
  aligned run of free pages, and then changes nothing; otherwise the pages lie in one area
  at a multiple of the alignment from its start, were free, and are now used.
\<close>

theorem alloc_pages_aligned_complete:
  assumes "gfp_ok st" and "0 < n" and "k < 20"
  shows "\<exists>st' v. alloc_pages_aligned st n (unat PAGE_SIZE * 2 ^ k) = Ok (st', v) \<and>
    (if v = 0 then st' = st \<and> (\<forall>b \<in> set (live st). v_base b \<noteq> 0 \<longrightarrow> (\<forall>s. \<not> aligned_run b k n s))
     else \<exists>i s. find_area st v = Some i \<and> aligned_run (st ! i) k n s \<and>
            v = v_base (st ! i) + of_nat s * PAGE_SIZE \<and>
            frames (memory_area_v2p (st ! i) v) n \<subseteq> avail st \<and>
            avail st' = avail st - frames (memory_area_v2p (st ! i) v) n)"
  using alloc_pages_loop_spec [OF assms(1,3,2) EINVAL_nonzero]
proof (elim disjE exE conjE)
  fix st' v i s
  assume *: "alloc_pages_loop st (- errno_num EINVAL) n (unat PAGE_SIZE * 2 ^ k) 0 = Ok (st', 0, Some v)"
    "virt_grant st st' k n v i s"
  have alloc: "alloc_pages_aligned st n (unat PAGE_SIZE * 2 ^ k) = Ok (st', v)"
    using *(1) by (simp add: alloc_pages_aligned_def alloc_pages_aligned_hint_def)
  have nz: "v \<noteq> 0" by (rule virt_grant_at(3) [OF assms(1,2) *(2)])
  have "find_area st v = Some i \<and> aligned_run (st ! i) k n s \<and>
      v = v_base (st ! i) + of_nat s * PAGE_SIZE \<and>
      frames (memory_area_v2p (st ! i) v) n \<subseteq> avail st \<and>
      avail st' = avail st - frames (memory_area_v2p (st ! i) v) n"
    using *(2) unfolding virt_grant_def alloc_effect_def by blast
  then have "\<exists>i s. find_area st v = Some i \<and> aligned_run (st ! i) k n s \<and>
      v = v_base (st ! i) + of_nat s * PAGE_SIZE \<and>
      frames (memory_area_v2p (st ! i) v) n \<subseteq> avail st \<and>
      avail st' = avail st - frames (memory_area_v2p (st ! i) v) n"
    by (intro exI)
  then show ?thesis
    by (intro exI [of _ st'] exI [of _ v] conjI [OF alloc]) (simp only: nz if_False)
next
  fix e
  assume "alloc_pages_loop st (- errno_num EINVAL) n (unat PAGE_SIZE * 2 ^ k) 0 = Ok (st, e, None)"
    "e \<noteq> 0" "\<forall>b \<in> set (live st). v_base b \<noteq> 0 \<longrightarrow> (\<forall>s. \<not> aligned_run b k n s)"
  then show ?thesis
    by (auto simp: alloc_pages_aligned_def alloc_pages_aligned_hint_def)
qed

theorem alloc_pages_aligned_complete_witness:
  "avail [(sample_areas ! 0)\<lparr>a_bitmap := bitmap_set [0xF] 4 2\<rparr>]
   = avail sample_areas - frames (memory_area_v2p (sample_areas ! 0) 0xffffffc000004000) 2"
  using alloc_pages_aligned_complete [OF sample_areas_ok, of 2 0] unfolding sample_alloc
  by (auto simp: sample_areas_def in_area_def split: if_splits)

text \<open>
  C20. Translation: the address \<open>p2v\<close> gives for a physical address translates back to it
  by \<open>v2p\<close>, without a page-table walk.
\<close>

theorem v2p_p2v:
  assumes "gfp_ok st" and "p2v st p = Ok v"
  shows "v2p st ptw v = Ok p"
  using p2v_find_area [OF assms] by (auto simp: v2p_def)

theorem v2p_p2v_witness:
  "v2p sample_areas (\<lambda>_. INVALID_PHYS_ADDR) 0xffffffc000004123 = Ok 0x80004123"
proof -
  have "p2v sample_areas 0x80004123 = Ok 0xffffffc000004123"
    by (simp add: sample_areas_def p_in_area_def)
  then show ?thesis by (rule v2p_p2v [OF sample_areas_ok])
qed

text \<open>
  C21. \<open>create_memory_area\<close> on main memory that contains the kernel image: if the image
  ends strictly before the memory does, the resulting areas are well-formed, so the image's
  frames are reserved in the new area and the ownership theorem applies. If the image ends
  with the memory, the strict comparison in the code skips the reservation: the new area
  has no used frame, although it contains those of the image.
\<close>

theorem create_memory_area_reserves_kernel:
  fixes addrp sizep virt :: u64
  assumes k: "area_ok k" "valid k" "v_base k \<noteq> 0" and kp: "a_bit_max k = KMM_PAGES"
    and mem: "unat addrp mod 0x1000 = 0" "unat addrp + unat sizep < 2 ^ 64"
      "unat sizep div 0x1000 < 2 ^ 31 - 1"
    and win: "v_end k \<le> virt" "unat virt mod 0x1000 = 0" "unat virt + unat sizep < 2 ^ 64"
    and inside: "addrp \<le> p_base k" "unat (p_base k) + unat GRINCH_SIZE \<le> unat addrp + unat sizep"
    and create: "create_memory_area [k, no_area] addrp sizep virt = Ok (st', 0)"
  shows "\<exists>k' m. st' = [k', m] \<and> valid m \<and> p_base m = addrp \<and> area_pfns k' = area_pfns k \<and>
    (if unat (p_base k) + unat GRINCH_SIZE < unat addrp + unat sizep then gfp_ok st'
     else used_pfns m = {} \<and> \<not> gfp_ok st')"
proof -
  let ?m = "main_area addrp sizep virt"
  have G: "unat GRINCH_SIZE = 0x1000 * 512" "KMM_PAGES = 512"
    by (simp_all add: GRINCH_SIZE_def KIB_def KMM_PAGES_def unat_PAGES)
  have kn: "unat (v_base k) + 0x1000 * 512 = unat (v_end k)" using k kp G by (simp add: area_ok_def)
  then have "v_end k \<noteq> 0" by (metis add_is_0 mult_is_0 unat_0 zero_neq_numeral)
  then have v0: "virt \<noteq> 0" using win(1) by auto
  note m = main_area_ok [OF mem v0 win(2,3)]
  have fields: "a_bit_max ?m = unat sizep div 0x1000" "p_base ?m = addrp" "v_base ?m = virt" "valid ?m"
    by (simp_all add: main_area_def Let_def unat_PAGES)
  have pm: "unat addrp = 0x1000 * pfn0 ?m" and pk: "unat (p_base k) = 0x1000 * pfn0 k"
    using area_bounds(2) [OF m(1)] area_bounds(2) [OF k(1)] fields by simp_all
  have pfns: "pfn0 ?m \<le> pfn0 k" "pfn0 k + 512 \<le> pfn0 ?m + a_bit_max ?m"
    using inside pm pk G fields(1) by (simp_all add: word_le_nat_alt)
  have cmp: "p_base k + GRINCH_SIZE < addrp + sizep \<longleftrightarrow>
      unat (p_base k) + unat GRINCH_SIZE < unat addrp + unat sizep"
  proof -
    have "unat (p_base k) + unat GRINCH_SIZE < 2 ^ LENGTH(64)" "unat addrp + unat sizep < 2 ^ LENGTH(64)"
      using inside(2) mem(2) by simp_all
    then show ?thesis by (simp only: word_less_nat_alt unat_word_ariths(1) mod_less)
  qed
  have wd: "windows_disjoint k' m'" if "geom k' = geom k" "v_base m' = virt" for k' m'
    using geom_eqD(3) [OF that(1)] that(2) win(1) by (auto simp: windows_disjoint_def in_area_def)
  show ?thesis
  proof (rule create_memory_area_cases [OF k v0 create])
    fix s n
    assume sn: "s + n \<le> a_bit_max k" and res:
      "if p_base k \<ge> addrp \<and> p_base k + GRINCH_SIZE < addrp + sizep
       then \<exists>m' off. memory_area_alloc_aligned ?m False KMM_PAGES (unat PAGE_SIZE * 2 ^ 0) (p_base k)
              = Ok (m', 0, off) \<and> st' = [claim_run k s n, m']
       else st' = [claim_run k s n, ?m]"
    let ?k' = "claim_run k s n"
    have k': "area_ok ?k'" "valid ?k'" "area_pfns ?k' = area_pfns k"
      using area_ok_run(1) [OF k(1) sn] k(2) by simp_all
    have ak: "area_pfns k = {pfn0 k ..< pfn0 k + 512}" using kp G by (simp add: area_pfns_def)
    show ?thesis
    proof (cases "p_base k + GRINCH_SIZE < addrp + sizep")
      case True
      then obtain m' off where m': "memory_area_alloc_aligned ?m False 512 (unat PAGE_SIZE * 2 ^ 0)
          (p_base k) = Ok (m', 0, off)" "st' = [?k', m']"
        using res inside(1) G by auto
      have "p_base k \<noteq> INVALID_PHYS_ADDR"
        using inside(2) mem(2) G(1)
        by (auto simp: INVALID_PHYS_ADDR_def unsigned_minus_1_eq_mask mask_eq_exp_minus_1)
      moreover have "unat ((p_base k - addrp) div PAGE_SIZE) = pfn0 k - pfn0 ?m"
        using pm pk inside(1) by (simp add: unat_div unat_sub flip: diff_mult_distrib2)
      ultimately have slot: "hint_slot ?m (p_base k) = Some (pfn0 k - pfn0 ?m)"
        using fields by (simp add: hint_slot_def)
      have "m' = claim_run ?m (pfn0 k - pfn0 ?m) 512"
      proof (rule memory_area_alloc_aligned_cases [OF m(1), of 0 False "p_base k" 512])
      qed (use m'(1) slot pfns \<open>p_base k \<noteq> INVALID_PHYS_ADDR\<close> in auto)
      then have "area_ok m'" "used_pfns m' = area_pfns k" "valid m'" "p_base m' = addrp" "v_base m' = virt"
        using area_ok_run(1,3) [OF m(1), of "pfn0 k - pfn0 ?m" 512] m(2) pfns ak fields by simp_all
      then show ?thesis
        using m'(2) k' True cmp wd [of ?k' m'] by (auto simp: live_def)
    next
      case False
      then have st': "st' = [?k', ?m]" using res by auto
      have "pfn0 k \<in> area_pfns ?k' \<inter> area_pfns ?m"
        using k'(3) ak pfns by (simp add: area_pfns_def)
      then have "\<not> gfp_ok st'" using st' k' m(2) fields by (auto simp: live_def)
      then show ?thesis using st' False cmp m(2) k' fields by auto
    qed
  qed
qed

definition sample_kmm :: memory_area where
  "sample_kmm = \<lparr> a_bitmap = replicate 8 0, a_bit_max = 512, p_base = 0x80200000, p_end = 0x80400000,
     v_base = 0xffffffc000000000, v_end = 0xffffffc000200000, valid = True \<rparr>"

lemma sample_kmm_ok: "area_ok sample_kmm"
  by (simp add: sample_kmm_def area_ok_def bm_cap_def)

lemma sample_create:
  "create_memory_area [sample_kmm, no_area] 0x80000000 0x400000 0xffffffc040000000
   = Ok ([claim_run sample_kmm 0 1, main_area 0x80000000 0x400000 0xffffffc040000000], 0)"
proof -
  have "bitmap_find_next_zero_area (replicate 8 0) 512 0 1 0 = 0" by code_simp
  moreover have "long_to_int 0 = 0" by (simp add: long_to_int_def)
  moreover have "bitmap_size 1024 = 128" by code_simp
  moreover have "unat (PAGES (page_up 128)) = 1"
    by (simp add: unat_PAGES unat_page_up)
  moreover have "unat (PAGES 0x400000) = 1024" by (simp add: unat_PAGES)
  ultimately show ?thesis
    by (simp add: create_memory_area_def sample_kmm_def no_area_def main_area_def Let_def
        alloc_pages_def alloc_pages_aligned_def alloc_pages_aligned_hint_def claim_run_def
        memory_area_alloc_aligned_def mm_bitmap_find_and_allocate_def u32_of_def PAGE_SIZE_val
        GRINCH_SIZE_def KIB_def)
qed

theorem create_memory_area_reserves_kernel_witness:
  "used_pfns (main_area 0x80000000 0x400000 0xffffffc040000000) = {} \<and>
   \<not> gfp_ok [claim_run sample_kmm 0 1, main_area 0x80000000 0x400000 0xffffffc040000000]"
  using create_memory_area_reserves_kernel [OF sample_kmm_ok _ _ _ _ _ _ _ _ _ _ _ sample_create]
  by (simp add: sample_kmm_def KMM_PAGES_def unat_PAGES GRINCH_SIZE_def KIB_def del: gfp_ok.simps)

end
