(* ===== verification/Asid.thy ===== *)
theory Asid
  imports Bitmap Errno
begin

text \<open>
  Address-space identifiers, \<^verbatim>\<open>mm/asid.c\<close>. The state holds the two static variables of
  the file and, for the property the comments of the source are about, the set of
  identifiers for which some CPU may hold tagged translations: running an address space
  adds its identifier, \<^verbatim>\<open>flush_tlb_asid\<close> removes one on every CPU.
\<close>

section \<open>Model\<close>

record asid_state =
  asid_bitmap :: "bitmap option"
  nr_asids :: nat
  tlb :: "nat set"

definition flush_tlb_asid :: "nat \<Rightarrow> asid_state \<Rightarrow> asid_state" where
  "flush_tlb_asid asid st = st\<lparr>tlb := tlb st - {asid}\<rparr>"

text \<open>
  \<open>nr\<close> is the value of \<^verbatim>\<open>arch_nr_asids()\<close>, \<open>mem\<close> whether \<^verbatim>\<open>bitmap_zalloc\<close> finds
  memory.
\<close>

definition asid_init :: "asid_state \<Rightarrow> nat \<Rightarrow> bool \<Rightarrow> asid_state \<times> int" where
  "asid_init st nr mem =
     (let st = st\<lparr>nr_asids := nr\<rparr>
      in if nr \<le> 1 then (st, 0)
         else if \<not> mem then (st\<lparr>asid_bitmap := None\<rparr>, - errno_num ENOMEM)
         else let bm = replicate ((nr + BITS_PER_LONG - 1) div BITS_PER_LONG) 0
              in (st\<lparr>asid_bitmap := Some (bitmap_set bm 0 1)\<rparr>, 0))"

definition asid_alloc :: "asid_state \<Rightarrow> asid_state \<times> nat" where
  "asid_alloc st =
     (case asid_bitmap st of
        None \<Rightarrow> (st, 0)
      | Some bm \<Rightarrow>
          let asid = bitmap_find_next_zero_area bm (nr_asids st) 0 1 0
          in if asid \<ge> nr_asids st then (st, 0)
             else (st\<lparr>asid_bitmap := Some (bitmap_set bm asid 1)\<rparr>, asid))"

text \<open>Without a bitmap the last statement would follow a null pointer: \<open>Panic\<close>.\<close>

definition asid_free :: "asid_state \<Rightarrow> nat \<Rightarrow> asid_state result" where
  "asid_free st asid =
     (if asid = 0 then Ok st
      else let st = flush_tlb_asid asid st
           in case asid_bitmap st of
                None \<Rightarrow> Panic
              | Some bm \<Rightarrow> Ok (st\<lparr>asid_bitmap := Some (bitmap_clear bm asid 1)\<rparr>))"

section \<open>Runs\<close>

inductive asid_step :: "asid_state \<times> nat list \<Rightarrow> asid_state \<times> nat list \<Rightarrow> bool" where
  alloc: "asid_alloc st = (st', a) \<Longrightarrow> asid_step (st, H) (st', if a \<noteq> 0 then a # H else H)"
| run: "a \<in> insert 0 (set H) \<Longrightarrow> asid_step (st, H) (st\<lparr>tlb := insert a (tlb st)\<rparr>, H)"
| free: "a \<in> set H \<Longrightarrow> asid_free st a = Ok st' \<Longrightarrow> asid_step (st, H) (st', remove1 a H)"

text \<open>
  The invariant: the identifiers in use are distinct and nonzero, they are exactly the
  marked bits, and only they and 0 tag translations.
\<close>

definition asid_inv :: "asid_state \<times> nat list \<Rightarrow> bool" where
  "asid_inv = (\<lambda>(st, H). distinct H \<and> tlb st \<subseteq> insert 0 (set H) \<and>
     (case asid_bitmap st of
        None \<Rightarrow> H = []
      | Some bm \<Rightarrow> 1 < nr_asids st \<and> nr_asids st \<le> bm_cap bm \<and> bm_bit bm 0 \<and> 0 \<notin> set H \<and>
          set H \<subseteq> {..< nr_asids st} \<and>
          (\<forall>i < nr_asids st. i \<noteq> 0 \<longrightarrow> bm_bit bm i = (i \<in> set H))))"

lemma asid_search:
  fixes bm :: bitmap and nr i :: nat
  assumes "1 \<le> nr"
  defines "a \<equiv> bitmap_find_next_zero_area bm nr 0 1 0"
  shows "a < nr \<Longrightarrow> \<not> bm_bit bm a" and "nr \<le> a \<Longrightarrow> i < nr \<Longrightarrow> bm_bit bm i"
proof -
  have a: "a = bm_search bm nr 0 1 0" by (simp add: a_def bm_search_def)
  show "a < nr \<Longrightarrow> \<not> bm_bit bm a"
    using bmp.search_sound [of 0 nr bm 1 0] by (simp add: a)
  assume le: "nr \<le> a" and i: "i < nr"
  have "nr < a"
  proof (rule ccontr)
    assume "\<not> nr < a"
    then have "a + 1 \<le> nr" using bmp.search_sound [of 0 nr bm 1 0] by (simp add: a)
    with le show False by simp
  qed
  then show "bm_bit bm i"
    using bmp.search_exhausted [of nr bm 0 1 0 i] i by (auto simp: a less_Suc_eq_le le_antisym)
qed

lemma asid_alloc_cases:
  assumes inv: "asid_inv (st, H)" and "asid_alloc st = (st', a)"
  obtains (none) "a = 0" "st' = st" "asid_bitmap st = None"
  | (full) bm where "a = 0" "st' = st" "asid_bitmap st = Some bm" "set H = {1 ..< nr_asids st}"
  | (fresh) bm where "asid_bitmap st = Some bm" "0 < a" "a < nr_asids st" "a \<notin> set H" "a \<notin> tlb st"
      "st' = st\<lparr>asid_bitmap := Some (bitmap_set bm a 1)\<rparr>"
proof (cases "asid_bitmap st")
  case None
  then show thesis using assms(2) none by (simp add: asid_alloc_def)
next
  case (Some bm)
  let ?a = "bitmap_find_next_zero_area bm (nr_asids st) 0 1 0"
  have nr: "1 \<le> nr_asids st" using inv Some by (simp add: asid_inv_def)
  show thesis
  proof (cases "nr_asids st \<le> ?a")
    case True
    have "i \<in> set H" if "1 \<le> i" "i < nr_asids st" for i
      using asid_search(2) [OF nr True that(2)] inv Some that by (simp add: asid_inv_def)
    moreover have "set H \<subseteq> {1 ..< nr_asids st}"
    proof
      fix x assume x: "x \<in> set H"
      then have "x < nr_asids st" using inv Some by (auto simp: asid_inv_def)
      moreover have "0 \<notin> set H" using inv Some by (simp add: asid_inv_def)
      then have "x \<noteq> 0" using x by metis
      ultimately show "x \<in> {1 ..< nr_asids st}" by simp
    qed
    ultimately show thesis
      using full [OF _ _ Some] True assms(2) Some by (force simp: asid_alloc_def)
  next
    case False
    then have lt: "?a < nr_asids st" by simp
    have free: "\<not> bm_bit bm ?a" by (rule asid_search(1) [OF nr lt])
    moreover have "bm_bit bm 0" using inv Some by (simp add: asid_inv_def)
    ultimately have "?a \<noteq> 0" by metis
    then have "?a \<notin> set H" using inv Some lt free by (auto simp: asid_inv_def)
    moreover from this \<open>?a \<noteq> 0\<close> have "?a \<notin> tlb st" using inv by (auto simp: asid_inv_def)
    moreover have "a = ?a" "st' = st\<lparr>asid_bitmap := Some (bitmap_set bm ?a 1)\<rparr>"
      using assms(2) Some False by (auto simp: asid_alloc_def Let_def)
    ultimately show thesis using fresh [OF Some] lt \<open>?a \<noteq> 0\<close> by simp
  qed
qed

lemma asid_step_inv:
  assumes "asid_step x y" and "asid_inv x"
  shows "asid_inv y"
  using assms
proof (induction rule: asid_step.induct)
  case (alloc st st' a H)
  from alloc.prems alloc.hyps show ?case
  proof (cases rule: asid_alloc_cases)
    case (fresh bm)
    then have cap: "a + 1 \<le> bm_cap bm" using alloc.prems by (simp add: asid_inv_def)
    show ?thesis
      using alloc.prems fresh bmp.cap_claim [OF cap] bmp.used_claim [OF cap]
      by (auto simp: asid_inv_def)
  qed (use alloc.prems in simp_all)
next
  case (run a H st)
  then show ?case by (cases "asid_bitmap st") (auto simp: asid_inv_def)
next
  case (free a H st st')
  then obtain bm where bm: "asid_bitmap st = Some bm"
    by (cases "asid_bitmap st") (auto simp: asid_inv_def)
  have inv: "distinct H" "0 \<notin> set H" "set H \<subseteq> {..< nr_asids st}" "nr_asids st \<le> bm_cap bm"
    using free.prems bm by (simp_all add: asid_inv_def)
  from inv(2) free.hyps(1) have a: "a \<noteq> 0" by metis
  from inv free.hyps(1) have cap: "a + 1 \<le> bm_cap bm" by auto
  have "st' = st\<lparr>tlb := tlb st - {a}, asid_bitmap := Some (bitmap_clear bm a 1)\<rparr>"
    using free.hyps(2) bm a by (simp add: asid_free_def flush_tlb_asid_def Let_def)
  then show ?case
    using free.prems bm a inv bmp.cap_release [OF cap] bmp.used_release [OF cap]
    by (auto simp: asid_inv_def)
qed

section \<open>Properties\<close>

text \<open>
  C19. A fresh address-space identifier is clean: start with any state \<open>asid_init\<close> leaves
  behind, and let address spaces be created, run and destroyed in any order. The
  identifiers in use stay distinct and nonzero, \<open>asid_free\<close> never fails on one of them,
  and a nonzero identifier that \<open>asid_alloc\<close> returns is in use nowhere and tags no
  translation on any CPU; it returns 0 only without a bitmap or when all are in use.
\<close>

theorem asid_alloc_fresh:
  assumes "nr < 2 ^ 31" and init: "asid_init \<lparr>asid_bitmap = None, nr_asids = 0, tlb = {}\<rparr> nr mem = (st0, e)"
    and "asid_step\<^sup>*\<^sup>* (st0, []) (st, H)" and "asid_alloc st = (st', a)"
  shows "distinct H \<and> 0 \<notin> set H \<and> (\<forall>b \<in> set H. is_ok (asid_free st b)) \<and>
    (if a \<noteq> 0 then a < nr_asids st \<and> a \<notin> set H \<and> a \<notin> tlb st
     else asid_bitmap st = None \<or> set H = {1 ..< nr_asids st})"
proof -
  let ?bm = "replicate ((nr + BITS_PER_LONG - 1) div BITS_PER_LONG) 0 :: bitmap"
  have zero: "\<not> bm_bit ?bm i" if "i < nr" for i
  proof -
    have "i div 64 < (nr + 63) div 64" using that by linarith
    then show ?thesis by (simp add: bm_bit_def)
  qed
  have nr: "nr \<le> bm_cap ?bm" using assms(1) by (simp add: bm_cap_def)
  have "asid_inv (st0, [])"
  proof (cases "1 < nr \<and> mem")
    case True
    then have cap: "0 + 1 \<le> bm_cap ?bm" using nr by simp
    have "st0 = \<lparr>asid_bitmap = Some (bitmap_set ?bm 0 1), nr_asids = nr, tlb = {}\<rparr>"
      using init True by (simp add: asid_init_def Let_def)
    then show ?thesis
      using True nr zero bmp.cap_claim [OF cap] bmp.used_claim [OF cap] by (simp add: asid_inv_def)
  next
    case False
    then show ?thesis using init by (auto simp: asid_init_def asid_inv_def Let_def split: if_splits)
  qed
  with assms(3) have inv: "asid_inv (st, H)"
    by (induction rule: rtranclp_induct) (auto intro: asid_step_inv)
  have H: "distinct H \<and> 0 \<notin> set H \<and> (\<forall>b \<in> set H. is_ok (asid_free st b))"
    using inv by (auto simp: asid_inv_def asid_free_def flush_tlb_asid_def Let_def split: option.splits)
  from inv assms(4) show ?thesis by (cases rule: asid_alloc_cases) (use H in auto)
qed

theorem asid_alloc_fresh_witness:
  "let st = \<lparr>asid_bitmap = Some (bitmap_set [0] 0 1), nr_asids = 4, tlb = {}\<rparr>;
       (st', a) = asid_alloc st
   in a < 4 \<and> a \<notin> tlb st"
proof -
  let ?st = "\<lparr>asid_bitmap = Some (bitmap_set [0] 0 1), nr_asids = 4, tlb = {}\<rparr>"
  have "asid_init \<lparr>asid_bitmap = None, nr_asids = 0, tlb = {}\<rparr> 4 True = (?st, 0)"
    by (simp add: asid_init_def Let_def)
  from asid_alloc_fresh [OF _ this, of ?st "[]"] show ?thesis
    by (cases "asid_alloc ?st") (auto split: if_splits)
qed

end
