(* ===== verification/Ioremap.thy ===== *)
theory Ioremap
  imports Bitmap Errno Layout
begin

text \<open>
  The I/O-memory window of \<^verbatim>\<open>mm/ioremap.c\<close>: slots of the window are bits of a bitmap,
  claimed after the page tables were updated. \<open>map_range\<close> and \<open>unmap_range\<close> stand for the
  calls into \<^verbatim>\<open>mm/paging.c\<close>: they give the return code for an address range.
\<close>

section \<open>Model\<close>

record ioremap_state =
  io_bitmap :: bitmap
  io_pages :: nat

definition IOREMAP_PAGES :: nat where
  "IOREMAP_PAGES = unat (PAGES IOREMAP_SIZE)"

definition ioremap_boot :: ioremap_state where
  "ioremap_boot = \<lparr> io_bitmap = replicate ((IOREMAP_PAGES + 63) div 64) 0, io_pages = IOREMAP_PAGES \<rparr>"

text \<open>\<open>parsed\<close> is the result of \<^verbatim>\<open>bootparam_parse_size\<close>, \<open>None\<close> an error.\<close>

definition ioremap_size_parse :: "u64 option \<Rightarrow> ioremap_state \<Rightarrow> ioremap_state" where
  "ioremap_size_parse parsed st =
     (case parsed of
        None \<Rightarrow> st
      | Some sz \<Rightarrow> let sz = page_up sz
                   in if sz > IOREMAP_SIZE then st else st\<lparr>io_pages := unat (PAGES sz)\<rparr>)"

definition io_align_mask :: "u64 \<Rightarrow> u64 \<Rightarrow> nat" where
  "io_align_mask paddr sz =
     (let paddr_al = ffsl paddr;
          size_al = ffsl sz;
          size_al = (if size_al > MEGA_PAGE_SHIFT then MEGA_PAGE_SHIFT else size_al)
      in if size_al \<le> paddr_al then unat (PAGES (push_bit size_al 1) - 1) else 0)"

definition io_search :: "ioremap_state \<Rightarrow> nat \<Rightarrow> nat \<Rightarrow> nat" where
  "io_search st pages align_mask =
     u32_of (bitmap_find_next_zero_area (io_bitmap st) (io_pages st) 0 pages align_mask)"

text \<open>The jump to \<^verbatim>\<open>retry\<close> clears \<^verbatim>\<open>align_mask\<close>, so it is taken at most once.\<close>

definition io_find :: "ioremap_state \<Rightarrow> nat \<Rightarrow> nat \<Rightarrow> nat option" where
  "io_find st pages align_mask =
     (let start = io_search st pages align_mask
      in if start > io_pages st then
           if align_mask = 0 then None
           else let start = io_search st pages 0
                in if start > io_pages st then None else Some start
         else Some start)"

definition ioremap :: "(u64 \<Rightarrow> u64 \<Rightarrow> u64 \<Rightarrow> int) \<Rightarrow> ioremap_state \<Rightarrow> u64 \<Rightarrow> u64 \<Rightarrow>
    ioremap_state \<times> (int + u64)" where
  "ioremap map_range st paddr sz =
     (let sz = page_up sz;
          pages = u32_of (unat (PAGES sz))
      in case io_find st pages (io_align_mask paddr sz) of
           None \<Rightarrow> (st, Inl (- errno_num ENOMEM))
         | Some start \<Rightarrow>
             let ret = IOREMAP_BASE + of_nat start * PAGE_SIZE + ucast (page_offset paddr);
                 err = map_range ret paddr sz
             in if err \<noteq> 0 then (st, Inl err)
                else (st\<lparr>io_bitmap := bitmap_set (io_bitmap st) start pages\<rparr>, Inr ret))"

definition is_ioremap :: "ioremap_state \<Rightarrow> u64 \<Rightarrow> nat \<Rightarrow> bool" where
  "is_ioremap st addr pages =
     (let e = IOREMAP_BASE + of_nat (io_pages st) * PAGE_SIZE
      in if addr < IOREMAP_BASE \<or> addr \<ge> e then False
         else if addr + of_nat pages * PAGE_SIZE > e then False
         else True)"

definition iounmap :: "(u64 \<Rightarrow> u64 \<Rightarrow> int) \<Rightarrow> ioremap_state \<Rightarrow> u64 \<Rightarrow> u64 \<Rightarrow> ioremap_state \<times> int" where
  "iounmap unmap_range st vaddr sz =
     (let sz = page_up sz;
          pages = u32_of (unat (PAGES sz));
          vaddr = vaddr AND PAGE_MASK
      in if \<not> is_ioremap st vaddr pages then (st, - errno_num ERANGE)
         else let err = unmap_range vaddr sz
              in if err \<noteq> 0 then (st, err)
                 else let start = u32_of (unat ((vaddr - IOREMAP_BASE) div PAGE_SIZE))
                      in (st\<lparr>io_bitmap := bitmap_clear (io_bitmap st) start pages\<rparr>, 0))"

section \<open>Correctness\<close>

definition io_ok :: "ioremap_state \<Rightarrow> bool" where
  "io_ok st \<longleftrightarrow> io_pages st \<le> bm_cap (io_bitmap st) \<and> io_pages st \<le> IOREMAP_PAGES"

lemma IOREMAP_PAGES_val: "IOREMAP_PAGES = 131072"
  by (simp add: IOREMAP_PAGES_def unat_PAGES IOREMAP_SIZE_def MIB_def KIB_def)

lemma ioremap_boot_ok: "io_ok ioremap_boot"
  by (simp add: io_ok_def ioremap_boot_def bm_cap_def IOREMAP_PAGES_val)

lemma ioremap_size_parse_ok:
  assumes "io_ok st" and "io_pages st = IOREMAP_PAGES"
  shows "io_ok (ioremap_size_parse parsed st)"
proof (cases parsed)
  case (Some sz)
  have "unat (PAGES (page_up sz)) \<le> IOREMAP_PAGES" if "\<not> page_up sz > IOREMAP_SIZE"
    using that by (simp add: unat_PAGES IOREMAP_PAGES_def word_less_nat_alt not_less div_le_mono)
  then show ?thesis using assms Some by (auto simp: ioremap_size_parse_def io_ok_def Let_def)
qed (use assms in \<open>simp add: ioremap_size_parse_def\<close>)

text \<open>The mask is that of a power of two, at most a mega page.\<close>

lemma io_align_mask_power:
  assumes "unat sz mod 0x1000 = 0"
  shows "\<exists>k \<le> 9. io_align_mask paddr sz = 2 ^ k - 1"
proof -
  define al where "al = (if ffsl sz > MEGA_PAGE_SHIFT then MEGA_PAGE_SHIFT else ffsl sz)"
  have "12 \<le> ffsl sz \<or> sz = 0"
  proof (rule ccontr)
    assume *: "\<not> ?thesis"
    then have "bit sz (ffsl sz)" using ffsl_correct by blast
    moreover have "take_bit 12 sz = 0"
      using assms unat_mod [of sz "0x1000"] by (simp add: take_bit_eq_mod unat_eq_zero)
    ultimately show False using * by (simp add: take_bit_zero_iff)
  qed
  moreover have "ffsl 0 = 63" by code_simp
  ultimately have "12 \<le> al \<and> al \<le> 21"
    by (auto simp: al_def MEGA_PAGE_SHIFT_def PAGE_SHIFT_def)
  then have "al = 12 + (al - 12)" "al - 12 \<le> 9" by linarith+
  then obtain k where k: "al = 12 + k" "k \<le> 9" by blast
  have "k = 0 \<or> k = 1 \<or> k = 2 \<or> k = 3 \<or> k = 4 \<or> k = 5 \<or> k = 6 \<or> k = 7 \<or> k = 8 \<or> k = 9"
    using k(2) by arith
  then have "unat (PAGES (push_bit al 1) - 1) = 2 ^ k - 1"
    unfolding k(1) by (elim disjE) (simp_all add: PAGES_def PAGE_SIZE_val)
  moreover have "io_align_mask paddr sz = (if al \<le> ffsl paddr then unat (PAGES (push_bit al 1) - 1) else 0)"
    by (simp add: io_align_mask_def al_def Let_def)
  ultimately show ?thesis using k(2) by (cases "al \<le> ffsl paddr") (auto intro: exI [of _ 0])
qed

lemma io_search_exact:
  assumes "io_ok st" and "pages < 2 ^ 31" and "k \<le> 9"
  shows "io_search st pages (2 ^ k - 1) = bm_search (io_bitmap st) (io_pages st) 0 pages k"
proof -
  have "(2::nat) ^ k \<le> 2 ^ 9" using assms(3) by (intro power_increasing) auto
  moreover have "bm_search (io_bitmap st) (io_pages st) 0 pages k \<le> io_pages st + (2 ^ k - 1) + pages"
    unfolding bm_search_def bitmap_find_next_zero_area_def by (rule zero_area_upper)
  ultimately have "bm_search (io_bitmap st) (io_pages st) 0 pages k < 2 ^ 32"
    using assms(1,2) unfolding io_ok_def IOREMAP_PAGES_val by simp linarith
  then show ?thesis by (simp add: io_search_def bm_search_def u32_of_def)
qed

abbreviation io_run_free :: "ioremap_state \<Rightarrow> nat \<Rightarrow> nat \<Rightarrow> bool" where
  "io_run_free st s n \<equiv> s + n \<le> io_pages st \<and> (\<forall>i. s \<le> i \<and> i < s + n \<longrightarrow> \<not> bm_bit (io_bitmap st) i)"

lemma io_find_spec:
  assumes ok: "io_ok st" and pg: "pages < 2 ^ 31" and "k \<le> 9"
  shows "io_find st pages (2 ^ k - 1) = Some s \<Longrightarrow> io_run_free st s pages"
    and "io_find st pages (2 ^ k - 1) = Some s \<Longrightarrow> 0 < pages \<Longrightarrow> io_run_free st t pages \<Longrightarrow>
      t mod 2 ^ k = 0 \<Longrightarrow> s mod 2 ^ k = 0"
    and "io_find st pages (2 ^ k - 1) = None \<Longrightarrow> 0 < pages \<Longrightarrow> \<not> io_run_free st t pages"
proof -
  let ?S = "bm_search (io_bitmap st) (io_pages st) 0 pages"
  have k0: "io_search st pages 0 = ?S 0" using io_search_exact [OF ok pg, of 0] by simp
  have f: "io_find st pages (2 ^ k - 1) =
      (if ?S k \<le> io_pages st then Some (?S k)
       else if k \<noteq> 0 \<and> ?S 0 \<le> io_pages st then Some (?S 0) else None)"
  proof -
    have "(2::nat) ^ k - 1 = 0 \<longleftrightarrow> k = 0"
      using one_less_power [of "2 :: nat" k] by (cases "k = 0") auto
    then show ?thesis
      unfolding io_find_def io_search_exact [OF ok pg assms(3)] k0 Let_def by (auto simp: not_le)
  qed
  have sound: "io_run_free st (?S j) pages \<and> ?S j mod 2 ^ j = 0" if "?S j \<le> io_pages st" for j
    using bmp.search_sound [OF _ that] by simp
  show "io_find st pages (2 ^ k - 1) = Some s \<Longrightarrow> io_run_free st s pages"
    unfolding f using sound by (auto split: if_splits)
  have least: "?S j \<le> io_pages st" if "0 < pages" "io_run_free st t pages" "t mod 2 ^ j = 0" for j
    using bmp.search_least [of 0 t pages "io_pages st" j "io_bitmap st"] that by force
  show "s mod 2 ^ k = 0"
    if "io_find st pages (2 ^ k - 1) = Some s" "0 < pages" "io_run_free st t pages" "t mod 2 ^ k = 0"
    using that least [of k] sound [of k] unfolding f by simp
  show "\<not> io_run_free st t pages" if "io_find st pages (2 ^ k - 1) = None" "0 < pages"
    using that least [of 0] unfolding f by (auto split: if_splits)
qed

lemma io_claim:
  assumes "io_ok st" and "s + n \<le> io_pages st"
  shows "io_ok (st\<lparr>io_bitmap := bitmap_set (io_bitmap st) s n\<rparr>)"
    "io_ok (st\<lparr>io_bitmap := bitmap_clear (io_bitmap st) s n\<rparr>)"
    "bm_bit (bitmap_set (io_bitmap st) s n) i \<longleftrightarrow> bm_bit (io_bitmap st) i \<or> s \<le> i \<and> i < s + n"
    "bm_bit (bitmap_clear (io_bitmap st) s n) i \<longleftrightarrow> bm_bit (io_bitmap st) i \<and> \<not> (s \<le> i \<and> i < s + n)"
proof -
  have cap: "s + n \<le> bm_cap (io_bitmap st)" using assms by (simp add: io_ok_def)
  show "io_ok (st\<lparr>io_bitmap := bitmap_set (io_bitmap st) s n\<rparr>)"
    "io_ok (st\<lparr>io_bitmap := bitmap_clear (io_bitmap st) s n\<rparr>)"
    using assms(1) bmp.cap_claim [OF cap] bmp.cap_release [OF cap] by (simp_all add: io_ok_def)
qed (use bmp.used_claim bmp.used_release assms in \<open>simp_all add: io_ok_def\<close>)

lemma io_request:
  assumes sz: "unat sz + 0xfff < 2 ^ 43" "sz \<noteq> 0"
  defines "n \<equiv> (unat sz + 0xfff) div 0x1000"
  shows "n < 2 ^ 31" and "0 < n" and "u32_of (unat (PAGES (page_up sz))) = n"
    and "\<exists>k \<le> 9. io_align_mask paddr (page_up sz) = 2 ^ k - 1"
proof -
  have up: "unat (page_up sz) = 0x1000 * n" using sz(1) by (simp add: unat_page_up n_def)
  have "0 < unat sz" using sz(2) by (simp add: unat_gt_0)
  then show n: "n < 2 ^ 31" "0 < n" using sz(1) by (simp_all add: n_def div_greater_zero_iff)
  show "u32_of (unat (PAGES (page_up sz))) = n"
    using n(1) by (simp add: unat_PAGES up u32_of_def)
  show "\<exists>k \<le> 9. io_align_mask paddr (page_up sz) = 2 ^ k - 1"
    using io_align_mask_power [of "page_up sz" paddr] up by auto
qed

lemma ioremap_cases:
  fixes sz paddr :: u64 and map_range :: "u64 \<Rightarrow> u64 \<Rightarrow> u64 \<Rightarrow> int" and st :: ioremap_state
  assumes ok: "io_ok st" and sz: "unat sz + 0xfff < 2 ^ 43" "sz \<noteq> 0"
  defines "n \<equiv> (unat sz + 0xfff) div 0x1000" and "r \<equiv> ioremap map_range st paddr sz"
  obtains (full) "r = (st, Inl (- errno_num ENOMEM))" "\<And>s. \<not> io_run_free st s n"
  | (unmapped) va where "r = (st, Inl (map_range va paddr (page_up sz)))"
      "map_range va paddr (page_up sz) \<noteq> 0"
  | (mapped) s va where "va = IOREMAP_BASE + of_nat s * PAGE_SIZE + ucast (page_offset paddr)"
      "r = (st\<lparr>io_bitmap := bitmap_set (io_bitmap st) s n\<rparr>, Inr va)" "io_run_free st s n"
      "map_range va paddr (page_up sz) = 0"
proof -
  note n = io_request [OF sz, folded n_def]
  obtain k where k: "k \<le> 9" "io_align_mask paddr (page_up sz) = 2 ^ k - 1" using n(4) by blast
  note find = io_find_spec [OF ok n(1) k(1)]
  show thesis
  proof (cases "io_find st n (2 ^ k - 1)")
    case None
    then have "r = (st, Inl (- errno_num ENOMEM))"
      unfolding r_def ioremap_def Let_def n(3) k(2) by simp
    then show thesis using find(3) [OF None n(2)] by (rule full)
  next
    case (Some s)
    let ?va = "IOREMAP_BASE + of_nat s * PAGE_SIZE + ucast (page_offset paddr)"
    have r: "r = (if map_range ?va paddr (page_up sz) \<noteq> 0
        then (st, Inl (map_range ?va paddr (page_up sz)))
        else (st\<lparr>io_bitmap := bitmap_set (io_bitmap st) s n\<rparr>, Inr ?va))"
      unfolding r_def ioremap_def Let_def n(3) k(2) Some by simp
    show thesis
      by (cases "map_range ?va paddr (page_up sz) = 0")
         (use r mapped [OF refl _ find(1) [OF Some]] unmapped in auto)
  qed
qed

lemma io_slot_address:
  assumes "s \<le> IOREMAP_PAGES"
  shows "unat (IOREMAP_BASE + of_nat s * PAGE_SIZE) = unat IOREMAP_BASE + 0x1000 * s"
    and "(IOREMAP_BASE + of_nat s * PAGE_SIZE + ucast (page_offset p)) AND PAGE_MASK
      = IOREMAP_BASE + of_nat s * PAGE_SIZE"
proof -
  have base: "unat IOREMAP_BASE = 0x1000 * 0xffffffc010000"
    by (simp add: IOREMAP_BASE_def GRINCH_BASE_def MIB_def KIB_def)
  have s: "s \<le> 131072" using assms by (simp add: IOREMAP_PAGES_val)
  then have off: "unat (of_nat s * PAGE_SIZE) = 0x1000 * s"
    by (simp add: unat_word_ariths(2) unat_of_nat)
  have lt: "unat IOREMAP_BASE + 0x1000 * s + 0xfff < 2 ^ LENGTH(64)" using s base by simp
  then have "unat IOREMAP_BASE + 0x1000 * s < 2 ^ LENGTH(64)" by linarith
  then show slot: "unat (IOREMAP_BASE + of_nat s * PAGE_SIZE) = unat IOREMAP_BASE + 0x1000 * s"
    by (simp only: unat_word_ariths(1) off mod_less)
  let ?o = "ucast (page_offset p) :: u64"
  have o: "unat ?o = unat p mod 0x1000"
    by (simp add: unsigned_ucast_eq unat_page_offset take_bit_nat_eq_self less_trans [OF mod_less_divisor])
  then have "unat IOREMAP_BASE + 0x1000 * s + unat ?o < 2 ^ LENGTH(64)"
    using lt mod_less_divisor [of "0x1000" "unat p"] by linarith
  then have "unat (IOREMAP_BASE + of_nat s * PAGE_SIZE + ?o) = unat IOREMAP_BASE + 0x1000 * s + unat p mod 0x1000"
    by (simp only: unat_word_ariths(1) [of _ ?o] slot mod_less) (simp only: o)
  then have "unat ((IOREMAP_BASE + of_nat s * PAGE_SIZE + ?o) AND PAGE_MASK)
      = unat (IOREMAP_BASE + of_nat s * PAGE_SIZE)"
  proof -
    let ?q = "0xffffffc010000 + s" and ?r = "unat p mod 0x1000"
    have "(0x1000 * ?q + ?r) div 0x1000 = ?q" by simp
    moreover have "unat IOREMAP_BASE + 0x1000 * s + ?r = 0x1000 * ?q + ?r" using base by simp
    ultimately show ?thesis
      unfolding unat_and_PAGE_MASK slot \<open>unat (IOREMAP_BASE + of_nat s * PAGE_SIZE + ?o) = _\<close> base
      by simp
  qed
  then show "(IOREMAP_BASE + of_nat s * PAGE_SIZE + ?o) AND PAGE_MASK
      = IOREMAP_BASE + of_nat s * PAGE_SIZE"
    by (simp only: word_unat_eq_iff)
qed

section \<open>Properties\<close>

text \<open>
  C17. \<open>ioremap\<close>, when the page-table update succeeds, returns an address in the window
  whose slots were free and are now claimed, and no other slot changes; the address keeps
  the page offset of the physical address. It fails with \<^verbatim>\<open>ENOMEM\<close> only when no run of
  free slots is large enough, aligned or not, and an error of any kind changes nothing.
\<close>

theorem ioremap_window:
  assumes ok: "io_ok st" and sz: "unat sz + 0xfff < 2 ^ 43" "sz \<noteq> 0"
  defines "n \<equiv> (unat sz + 0xfff) div 0x1000"
  shows "case ioremap map_range st paddr sz of
      (st', Inr va) \<Rightarrow> io_ok st' \<and> (\<exists>s. io_run_free st s n \<and>
         va = IOREMAP_BASE + of_nat s * PAGE_SIZE + ucast (page_offset paddr) \<and>
         (\<forall>i. bm_bit (io_bitmap st') i \<longleftrightarrow> bm_bit (io_bitmap st) i \<or> s \<le> i \<and> i < s + n))
    | (st', Inl e) \<Rightarrow> st' = st \<and>
         ((\<exists>s. io_run_free st s n) \<longrightarrow> (\<exists>va. e = map_range va paddr (page_up sz) \<and> e \<noteq> 0))"
  unfolding n_def
proof (rule ioremap_cases [OF ok sz, where map_range = map_range and paddr = paddr], goal_cases)
  case (3 s va)
  note sn = conjunct1 [OF 3(3)]
  show ?case
    unfolding 3(2) prod.case sum.case
    using io_claim(1) [OF ok sn] io_claim(3) [OF ok sn] 3(1,3) by auto
qed auto

theorem ioremap_window_witness:
  "case ioremap (\<lambda>_ _ _. 0) ioremap_boot 0x10000000 0x100 of
     (st', Inr va) \<Rightarrow> io_ok st' | (st', Inl e) \<Rightarrow> st' = ioremap_boot"
  using ioremap_window [OF ioremap_boot_ok, of "0x100" "\<lambda>_ _ _. 0" "0x10000000"]
  by (auto split: prod.splits sum.splits)

text \<open>
  C18. \<open>iounmap\<close> of what \<open>ioremap\<close> returned gives the window back: it passes the range
  check, and if the page-table update succeeds every slot is as before the \<open>ioremap\<close>.
\<close>

theorem iounmap_ioremap:
  assumes ok: "io_ok st" and sz: "unat sz + 0xfff < 2 ^ 43" "sz \<noteq> 0"
    and "ioremap map_range st paddr sz = (st1, Inr va)"
    and "iounmap unmap_range st1 va sz = (st2, e)"
  shows "if e = 0 then \<forall>i. bm_bit (io_bitmap st2) i = bm_bit (io_bitmap st) i
    else \<exists>v. e = unmap_range v (page_up sz)"
proof -
  define n where "n = (unat sz + 0xfff) div 0x1000"
  note n = io_request [OF sz, folded n_def]
  obtain s where st1: "st1 = st\<lparr>io_bitmap := bitmap_set (io_bitmap st) s n\<rparr>"
    and va: "va = IOREMAP_BASE + of_nat s * PAGE_SIZE + ucast (page_offset paddr)"
    and free: "io_run_free st s n"
    using assms(4) unfolding n_def
    by (rule_tac ioremap_cases [OF ok sz, where map_range = map_range and paddr = paddr]) auto
  let ?v = "IOREMAP_BASE + of_nat s * PAGE_SIZE"
  have le: "s + n \<le> IOREMAP_PAGES" "io_pages st \<le> IOREMAP_PAGES" and small: "s < 2 ^ 31"
    using free ok by (simp_all add: io_ok_def IOREMAP_PAGES_val)
  note slot = io_slot_address
  have addr: "unat ?v = unat IOREMAP_BASE + 0x1000 * s"
    "unat (?v + of_nat n * PAGE_SIZE) = unat IOREMAP_BASE + 0x1000 * (s + n)"
    "unat (IOREMAP_BASE + of_nat (io_pages st) * PAGE_SIZE) = unat IOREMAP_BASE + 0x1000 * io_pages st"
    using slot(1) [of s] slot(1) [of "s + n"] slot(1) [of "io_pages st"] le
    by (simp_all add: distrib_right add.assoc)
  have inside: "is_ioremap st1 ?v n"
    unfolding is_ioremap_def Let_def word_less_nat_alt word_le_nat_alt st1
    using addr free n(2) by simp
  have start: "u32_of (unat ((?v - IOREMAP_BASE) div PAGE_SIZE)) = s"
    using small by (simp add: unat_div unat_word_ariths(2) unat_of_nat u32_of_def)
  have unmap: "iounmap unmap_range st1 va sz = (if unmap_range ?v (page_up sz) \<noteq> 0
      then (st1, unmap_range ?v (page_up sz))
      else (st1\<lparr>io_bitmap := bitmap_clear (io_bitmap st1) s n\<rparr>, 0))"
    unfolding iounmap_def Let_def n(3) va slot(2) [OF add_leD1 [OF le(1)]] start
    using inside by simp
  have restored: "bm_bit (bitmap_clear (bitmap_set (io_bitmap st) s n) s n) i = bm_bit (io_bitmap st) i" for i
    using free ok by (intro bmp.release_claim) (auto simp: io_ok_def)
  show ?thesis
  proof (cases "unmap_range ?v (page_up sz) = 0")
    case True
    then have "io_bitmap st2 = bitmap_clear (bitmap_set (io_bitmap st) s n) s n" "e = 0"
      using unmap assms(5) by (auto simp: st1)
    then show ?thesis by (simp only: restored if_True simp_thms)
  next
    case False
    then have "e = unmap_range ?v (page_up sz)" using unmap assms(5) by simp
    then show ?thesis using False by auto
  qed
qed

lemma ioremap_boot_maps: "\<exists>st1 va. ioremap (\<lambda>_ _ _. 0) ioremap_boot 0x10000000 0x100 = (st1, Inr va)"
proof -
  have free: "io_run_free ioremap_boot 0 1"
    by (simp add: ioremap_boot_def bm_bit_def IOREMAP_PAGES_val)
  show ?thesis
    by (rule ioremap_cases [OF ioremap_boot_ok, of "0x100" "\<lambda>_ _ _. 0" "0x10000000"]) (use free in auto)
qed

theorem iounmap_ioremap_witness:
  "\<exists>st1 va st2. ioremap (\<lambda>_ _ _. 0) ioremap_boot 0x10000000 0x100 = (st1, Inr va) \<and>
     iounmap (\<lambda>_ _. 0) st1 va 0x100 = (st2, 0) \<and> (\<forall>i. bm_bit (io_bitmap st2) i = bm_bit (io_bitmap ioremap_boot) i)"
proof -
  obtain st1 va where m: "ioremap (\<lambda>_ _ _. 0) ioremap_boot 0x10000000 0x100 = (st1, Inr va)"
    using ioremap_boot_maps by blast
  obtain st2 e where un: "iounmap (\<lambda>_ _. 0) st1 va 0x100 = (st2, e)" by force
  show ?thesis using iounmap_ioremap [OF ioremap_boot_ok _ _ m un] m un by (cases "e = 0") simp_all
qed

end
