(* ===== verification/Cstring.thy ===== *)
theory Cstring
  imports Prelude "HOL-Library.Monad_Syntax"
begin

text \<open>
  The string and memory routines of \<^verbatim>\<open>common/src/string.c\<close> (one source, compiled into the
  kernel and the C library) and the character classes of \<^verbatim>\<open>common/include/ctype.h\<close>. Memory
  is a byte store; a pointer is an address and the null pointer is 0. \<^verbatim>\<open>char\<close> is unsigned,
  as in the RISC-V and arm64 ABIs. A routine bounded by a count is total; one that runs to
  the terminating NUL is a partial function: \<open>None\<close> means that there is no NUL to find.
\<close>

type_synonym bytes = "nat \<Rightarrow> u8"

abbreviation chr :: "u8 \<Rightarrow> int" where "chr c \<equiv> uint c"

text \<open>Character and string literals as bytes.\<close>

abbreviation asc :: "char \<Rightarrow> u8" where "asc \<equiv> of_char"

abbreviation lit :: "string \<Rightarrow> u8 list" where "lit s \<equiv> map of_char s"

section \<open>Character classes\<close>

definition isdigit :: "u8 \<Rightarrow> bool" where
  "isdigit c \<longleftrightarrow> asc CHR ''0'' \<le> c \<and> c \<le> asc CHR ''9''"

definition tolower :: "u8 \<Rightarrow> u8" where
  "tolower c = c OR 0x20"

definition isblank :: "u8 \<Rightarrow> bool" where
  "isblank c \<longleftrightarrow> c = 9 \<or> c = 32"

text \<open>The table \<^verbatim>\<open>_ctype\<close>, by its ranges.\<close>

definition CT_U :: u8 where "CT_U = 0x01"
definition CT_L :: u8 where "CT_L = 0x02"
definition CT_D :: u8 where "CT_D = 0x04"
definition CT_C :: u8 where "CT_C = 0x08"
definition CT_P :: u8 where "CT_P = 0x10"
definition CT_S :: u8 where "CT_S = 0x20"
definition CT_X :: u8 where "CT_X = 0x40"
definition CT_SP :: u8 where "CT_SP = 0x80"

definition ctype :: "u8 \<Rightarrow> u8" where
  "ctype c =
     (if c < 32 then (if 9 \<le> c \<and> c \<le> 13 then CT_C OR CT_S else CT_C)
      else if c = 32 then CT_S OR CT_SP
      else if c < 48 then CT_P
      else if c < 58 then CT_D
      else if c < 65 then CT_P
      else if c < 71 then CT_U OR CT_X
      else if c < 91 then CT_U
      else if c < 97 then CT_P
      else if c < 103 then CT_L OR CT_X
      else if c < 123 then CT_L
      else if c < 127 then CT_P
      else if c = 127 then CT_C
      else if c < 160 then 0
      else if c = 160 then CT_S OR CT_SP
      else if c < 192 then CT_P
      else if c = 215 then CT_P
      else if c < 223 then CT_U
      else if c = 247 then CT_P
      else CT_L)"

definition isalnum :: "u8 \<Rightarrow> bool" where
  "isalnum c \<longleftrightarrow> ctype c AND (CT_U OR CT_L OR CT_D) \<noteq> 0"

definition isxdigit :: "u8 \<Rightarrow> bool" where
  "isxdigit c \<longleftrightarrow> ctype c AND (CT_D OR CT_X) \<noteq> 0"

definition isprint :: "u8 \<Rightarrow> bool" where
  "isprint c \<longleftrightarrow> ctype c AND (CT_P OR CT_U OR CT_L OR CT_D OR CT_SP) \<noteq> 0"

lemmas ctype_defs = ctype_def CT_U_def CT_L_def CT_D_def CT_C_def CT_P_def CT_S_def CT_X_def CT_SP_def

section \<open>Blocks of memory\<close>

fun memcmp :: "bytes \<Rightarrow> nat \<Rightarrow> nat \<Rightarrow> nat \<Rightarrow> int" where
  "memcmp m d s 0 = 0"
| "memcmp m d s (Suc n) = (if chr (m d) - chr (m s) \<noteq> 0 then chr (m d) - chr (m s) else memcmp m (d + 1) (s + 1) n)"

fun memset :: "bytes \<Rightarrow> nat \<Rightarrow> int \<Rightarrow> nat \<Rightarrow> bytes" where
  "memset m p c 0 = m"
| "memset m p c (Suc n) = memset (m(p := word_of_int c)) (p + 1) c n"

fun copy_up :: "bytes \<Rightarrow> nat \<Rightarrow> nat \<Rightarrow> nat \<Rightarrow> bytes" where
  "copy_up m a b 0 = m"
| "copy_up m a b (Suc n) = copy_up (m(a := m b)) (a + 1) (b + 1) n"

fun copy_down :: "bytes \<Rightarrow> nat \<Rightarrow> nat \<Rightarrow> nat \<Rightarrow> bytes" where
  "copy_down m a b 0 = m"
| "copy_down m a b (Suc n) = copy_down (m(a + n := m (b + n))) a b n"

definition memmove :: "bytes \<Rightarrow> nat \<Rightarrow> nat \<Rightarrow> nat \<Rightarrow> bytes" where
  "memmove m dst src count =
     (if src \<noteq> dst then
        if src > dst then copy_up m dst src count else copy_down m dst src count
      else m)"

definition memcpy :: "bytes \<Rightarrow> nat \<Rightarrow> nat \<Rightarrow> nat \<Rightarrow> bytes" where
  "memcpy m dest src n = copy_up m dest src n"

fun memchr :: "bytes \<Rightarrow> nat \<Rightarrow> int \<Rightarrow> nat \<Rightarrow> nat option" where
  "memchr m s c 0 = None"
| "memchr m s c (Suc n) = (if chr (m s) = c then Some s else memchr m (s + 1) c n)"

section \<open>Strings\<close>

partial_function (option) strchrnul :: "bytes \<Rightarrow> nat \<Rightarrow> u8 \<Rightarrow> nat option" where
  "strchrnul m s c = (if m s = c then Some s else if m s = 0 then Some s else strchrnul m (s + 1) c)"

partial_function (option) strchr :: "bytes \<Rightarrow> nat \<Rightarrow> u8 \<Rightarrow> nat option" where
  "strchr m s c = (if m s = c then Some s else if m s = 0 then Some 0 else strchr m (s + 1) c)"

partial_function (option) strpbrk :: "bytes \<Rightarrow> nat \<Rightarrow> nat \<Rightarrow> nat option" where
  "strpbrk m sc ct =
     (if m sc = 0 then Some 0
      else do {
        r \<leftarrow> strchr m ct (m sc);
        if r \<noteq> 0 then Some sc else strpbrk m (sc + 1) ct
      })"

fun strncpy :: "bytes \<Rightarrow> nat \<Rightarrow> nat \<Rightarrow> nat \<Rightarrow> bytes" where
  "strncpy m tmp src 0 = m"
| "strncpy m tmp src (Suc count) =
     (let m = m(tmp := m src)
      in strncpy m (tmp + 1) (if m tmp \<noteq> 0 then src + 1 else src) count)"

text \<open>The result is the token, the new value of \<^verbatim>\<open>*s\<close> and the store.\<close>

definition strsep :: "bytes \<Rightarrow> nat \<Rightarrow> nat \<Rightarrow> (nat \<times> nat \<times> bytes) option" where
  "strsep m s ct =
     (if s = 0 then Some (0, s, m)
      else do {
        e \<leftarrow> strpbrk m s ct;
        if e \<noteq> 0 then Some (s, e + 1, m(e := 0)) else Some (s, 0, m)
      })"

partial_function (option) strcmp :: "bytes \<Rightarrow> nat \<Rightarrow> nat \<Rightarrow> int option" where
  "strcmp m s1 s2 =
     (if m s1 = m s2 then
        if m s1 = 0 then Some 0 else strcmp m (s1 + 1) (s2 + 1)
      else Some (chr (m s1) - chr (m s2)))"

partial_function (option) strrchr_loop :: "bytes \<Rightarrow> nat \<Rightarrow> nat \<Rightarrow> u8 \<Rightarrow> nat option" where
  "strrchr_loop m l t ch =
     (let l = (if m t = ch then t else l)
      in if m t = 0 then Some l else strrchr_loop m l (t + 1) ch)"

definition strrchr :: "bytes \<Rightarrow> nat \<Rightarrow> u8 \<Rightarrow> nat option" where
  "strrchr m t c = strrchr_loop m 0 t c"

partial_function (option) strlen_loop :: "bytes \<Rightarrow> nat \<Rightarrow> nat \<Rightarrow> nat option" where
  "strlen_loop m s i = (if m s \<noteq> 0 then strlen_loop m (s + 1) (i + 1) else Some i)"

definition strlen :: "bytes \<Rightarrow> nat \<Rightarrow> nat option" where
  "strlen m s = (if s = 0 then Some 0 else strlen_loop m s 0)"

definition strnlen :: "bytes \<Rightarrow> nat \<Rightarrow> nat \<Rightarrow> nat" where
  "strnlen m s n = (case memchr m s 0 n of Some p \<Rightarrow> p - s | None \<Rightarrow> n)"

fun strncmp :: "bytes \<Rightarrow> nat \<Rightarrow> nat \<Rightarrow> nat \<Rightarrow> int" where
  "strncmp m s1 s2 0 = 0"
| "strncmp m s1 s2 (Suc n) =
     (let diff = chr (m s1) - chr (m s2)
      in if diff \<noteq> 0 then diff else if m s1 = 0 then 0 else strncmp m (s1 + 1) (s2 + 1) n)"

partial_function (option) strcount_loop :: "bytes \<Rightarrow> nat \<Rightarrow> u8 \<Rightarrow> nat \<Rightarrow> nat option" where
  "strcount_loop m s c ret =
     (if m s \<noteq> 0 then strcount_loop m (s + 1) c (if m s = c then (ret + 1) mod 2 ^ 32 else ret) else Some ret)"

definition strcount :: "bytes \<Rightarrow> nat \<Rightarrow> u8 \<Rightarrow> nat option" where
  "strcount m s c = strcount_loop m s c 0"

section \<open>Copying\<close>

text \<open>What a copy should do: the bytes of the source range as they were, nothing else changed.\<close>

definition copied :: "bytes \<Rightarrow> nat \<Rightarrow> nat \<Rightarrow> nat \<Rightarrow> bytes" where
  "copied m dst src n = (\<lambda>a. if dst \<le> a \<and> a < dst + n then m (src + (a - dst)) else m a)"

lemma copied_Suc_low:
  "dst \<le> src \<or> src + Suc n \<le> dst \<Longrightarrow> copied (m(dst := m src)) (Suc dst) (Suc src) n = copied m dst src (Suc n)"
  by (rule ext) (auto simp: copied_def Suc_diff_Suc not_less_eq_eq le_Suc_eq)

lemma copied_Suc_high:
  "src \<le> dst \<Longrightarrow> copied (m(dst + n := m (src + n))) dst src n = copied m dst src (Suc n)"
  by (rule ext) (auto simp: copied_def less_Suc_eq)

lemma copied_0 [simp]: "copied m dst src 0 = m"
  by (rule ext) (auto simp: copied_def)

lemma copied_same [simp]: "copied m p p n = m"
  by (rule ext) (simp add: copied_def)

lemma copy_up_copied: "dst \<le> src \<or> src + n \<le> dst \<Longrightarrow> copy_up m dst src n = copied m dst src n"
proof (induction n arbitrary: m dst src)
  case (Suc n)
  have "copy_up (m(dst := m src)) (Suc dst) (Suc src) n = copied (m(dst := m src)) (Suc dst) (Suc src) n"
    using Suc.prems by (intro Suc.IH) linarith
  then show ?case using copied_Suc_low [OF Suc.prems, of m] by simp
qed simp

lemma copy_down_copied: "src \<le> dst \<Longrightarrow> copy_down m dst src n = copied m dst src n"
  by (induction n arbitrary: m) (simp_all add: copied_Suc_high)

lemma memcpy_copied: "dst \<le> src \<or> src + n \<le> dst \<Longrightarrow> memcpy m dst src n = copied m dst src n"
  by (simp add: memcpy_def copy_up_copied)

lemma memmove_copied: "memmove m dst src n = copied m dst src n"
  by (auto simp: memmove_def copy_up_copied copy_down_copied)

lemma memset_eq: "memset m p c n = (\<lambda>a. if p \<le> a \<and> a < p + n then word_of_int c else m a)"
proof (induction n arbitrary: m p)
  case (Suc n)
  show ?case by (rule ext) (auto simp: Suc.IH)
qed (rule ext, auto)

lemma memcmp_zero_iff: "memcmp m d s n = 0 \<longleftrightarrow> (\<forall>i < n. m (d + i) = m (s + i))"
proof (induction m d s n rule: memcmp.induct)
  case (2 m d s n)
  then show ?case by (auto simp: All_less_Suc2 word_uint_eq_iff)
qed simp

section \<open>Strings in memory\<close>

text \<open>The bytes \<open>s\<close>, none of them NUL, lie at \<open>p\<close> and a NUL follows.\<close>

fun cstr :: "bytes \<Rightarrow> nat \<Rightarrow> u8 list \<Rightarrow> bool" where
  "cstr m p [] \<longleftrightarrow> m p = 0"
| "cstr m p (c # s) \<longleftrightarrow> c \<noteq> 0 \<and> m p = c \<and> cstr m (p + 1) s"

lemma cstr_nth: "cstr m p s \<Longrightarrow> i < length s \<Longrightarrow> m (p + i) = s ! i"
  by (induction m p s arbitrary: i rule: cstr.induct) (auto simp: nth_Cons' less_Suc_eq_0_disj)

lemma cstr_end: "cstr m p s \<Longrightarrow> m (p + length s) = 0"
  by (induction m p s rule: cstr.induct) auto

lemma cstr_nonzero: "cstr m p s \<Longrightarrow> 0 \<notin> set s"
  by (induction m p s rule: cstr.induct) auto

lemma cstr_iff: "cstr m p s \<longleftrightarrow> 0 \<notin> set s \<and> (\<forall>i < length s. m (p + i) = s ! i) \<and> m (p + length s) = 0"
  by (induction m p s rule: cstr.induct) (auto simp: All_less_Suc2)

lemma cstr_cong:
  "(\<And>a. p \<le> a \<Longrightarrow> a \<le> p + length s \<Longrightarrow> m' a = m a) \<Longrightarrow> cstr m' p s = cstr m p s"
  by (simp add: cstr_iff)

lemma cstr_append: "cstr m p (s @ t) \<Longrightarrow> cstr m (p + length s) t"
proof (induction s arbitrary: p)
  case (Cons c s)
  then show ?case using Cons.IH [of "p + 1"] by simp
qed simp

lemma cstr_inj: "cstr m p s \<Longrightarrow> cstr m p t \<Longrightarrow> s = t"
  by (induction m p s arbitrary: t rule: cstr.induct) (case_tac t; auto)+

lemma strlen_loop_cstr: "cstr m p s \<Longrightarrow> strlen_loop m p i = Some (i + length s)"
  by (induction m p s arbitrary: i rule: cstr.induct) (subst strlen_loop.simps, simp)+

lemma strlen_cstr: "cstr m p s \<Longrightarrow> 0 < p \<Longrightarrow> strlen m p = Some (length s)"
  by (simp add: strlen_def strlen_loop_cstr)

lemma memchr_cstr: "cstr m p s \<Longrightarrow> memchr m p 0 n = (if length s < n then Some (p + length s) else None)"
proof (induction n arbitrary: p s)
  case (Suc n)
  show ?case
  proof (cases s)
    case (Cons c s')
    then have "memchr m (p + 1) 0 n = (if length s' < n then Some (p + 1 + length s') else None)"
      using Suc by auto
    then show ?thesis using Suc.prems Cons by (simp add: uint_0_iff)
  qed (use Suc in simp)
qed simp

lemma strnlen_cstr: "cstr m p s \<Longrightarrow> strnlen m p n = min n (length s)"
  by (simp add: strnlen_def memchr_cstr)

text \<open>Comparison: the difference at the first mismatch, the end counting as NUL.\<close>

fun diff_at :: "u8 list \<Rightarrow> u8 list \<Rightarrow> int" where
  "diff_at [] [] = 0"
| "diff_at [] (d # t) = - chr d"
| "diff_at (c # s) [] = chr c"
| "diff_at (c # s) (d # t) = (if c = d then diff_at s t else chr c - chr d)"

lemma strcmp_cstr: "cstr m p s \<Longrightarrow> cstr m q t \<Longrightarrow> strcmp m p q = Some (diff_at s t)"
  by (induction s t arbitrary: p q rule: diff_at.induct) (subst strcmp.simps; auto)+

lemma strncmp_cstr:
  "cstr m p s \<Longrightarrow> cstr m q t \<Longrightarrow> strncmp m p q n = diff_at (take n s) (take n t)"
proof (induction n arbitrary: p q s t)
  case (Suc n)
  then show ?case by (cases s; cases t) (auto simp: Let_def word_uint_eq_iff)
qed simp

lemma diff_at_zero_iff: "0 \<notin> set s \<Longrightarrow> 0 \<notin> set t \<Longrightarrow> diff_at s t = 0 \<longleftrightarrow> s = t"
  by (induction s t rule: diff_at.induct) (auto simp: uint_0_iff dest: word_uint_eq_iff [THEN iffD2])

lemma diff_at_neg_iff: "0 \<notin> set s \<Longrightarrow> 0 \<notin> set t \<Longrightarrow> diff_at s t < 0 \<longleftrightarrow> ord_class.lexordp s t"
proof (induction s t rule: diff_at.induct)
  case (2 d t)
  then have "0 < uint d" using uint_ge_0 [of d] by (metis list.set_intros(1) order_le_less uint_0_iff)
  then show ?case by simp
next
  case (4 c s d t)
  then show ?case by (cases "c = d") (auto simp: word_less_def word_uint_eq_iff)
qed (auto simp: not_less)

section \<open>Searching\<close>

definition before_char :: "(u8 \<Rightarrow> bool) \<Rightarrow> u8 list \<Rightarrow> u8 list" where
  "before_char D s = takeWhile (\<lambda>c. \<not> D c) s"

lemma strchr_cstr:
  "cstr m p s \<Longrightarrow> strchr m p c =
     Some (if c \<in> set s \<or> c = 0 then p + length (before_char (\<lambda>x. x = c) s) else 0)"
proof (induction s arbitrary: p)
  case Nil
  then show ?case by (subst strchr.simps) (simp add: before_char_def)
next
  case (Cons d s)
  then have "strchr m (p + 1) c = Some (if c \<in> set s \<or> c = 0 then p + 1 + length (before_char (\<lambda>x. x = c) s) else 0)"
    by simp
  then show ?case using Cons.prems by (subst strchr.simps) (auto simp: before_char_def)
qed

lemma strchrnul_cstr:
  "cstr m p s \<Longrightarrow> strchrnul m p c = Some (p + length (before_char (\<lambda>x. x = c) s))"
proof (induction s arbitrary: p)
  case Nil
  then show ?case by (subst strchrnul.simps) (simp add: before_char_def)
next
  case (Cons d s)
  then have "strchrnul m (p + 1) c = Some (p + 1 + length (before_char (\<lambda>x. x = c) s))" by simp
  then show ?case using Cons.prems by (subst strchrnul.simps) (auto simp: before_char_def)
qed

lemma strpbrk_cstr:
  assumes "cstr m ct d" and "0 < ct"
  shows "cstr m p s \<Longrightarrow> strpbrk m p ct =
     Some (if set s \<inter> set d \<noteq> {} then p + length (before_char (\<lambda>x. x \<in> set d) s) else 0)"
proof (induction s arbitrary: p)
  case Nil
  then show ?case by (subst strpbrk.simps) simp
next
  case (Cons c s)
  have "strpbrk m (p + 1) ct = Some (if set s \<inter> set d \<noteq> {} then p + 1 + length (before_char (\<lambda>x. x \<in> set d) s) else 0)"
    using Cons by simp
  then show ?case using Cons.prems assms(2)
    by (subst strpbrk.simps) (auto simp: before_char_def strchr_cstr [OF assms(1)])
qed

lemma strcount_loop_cstr:
  "cstr m p s \<Longrightarrow> r < 2 ^ 32 \<Longrightarrow> strcount_loop m p c r = Some ((r + count_list s c) mod 2 ^ 32)"
proof (induction s arbitrary: p r)
  case Nil
  then show ?case by (subst strcount_loop.simps) simp
next
  case (Cons d s)
  show ?case
  proof (cases "d = c")
    case True
    have "strcount_loop m (p + 1) c ((r + 1) mod 2 ^ 32) = Some (((r + 1) mod 2 ^ 32 + count_list s c) mod 2 ^ 32)"
      using Cons.prems by (intro Cons.IH) simp_all
    also have "\<dots> = Some ((r + 1 + count_list s c) mod 2 ^ 32)" by (simp only: mod_add_left_eq)
    finally show ?thesis using Cons.prems True by (subst strcount_loop.simps) (simp add: add_ac)
  next
    case False
    then show ?thesis using Cons.prems Cons.IH [of "p + 1" r] by (subst strcount_loop.simps) simp
  qed
qed

lemma strncpy_eq:
  assumes "cstr m src s" and "tmp + count \<le> src \<or> src + length s < tmp"
  shows "strncpy m tmp src count =
    (\<lambda>a. if tmp \<le> a \<and> a < tmp + count then (if a - tmp < length s then s ! (a - tmp) else 0) else m a)"
  using assms
proof (induction count arbitrary: m tmp src s)
  case 0
  show ?case by (rule ext) auto
next
  case (Suc n)
  let ?m = "m(tmp := m src)"
  show ?case
  proof (cases s)
    case Nil
    have *: "cstr ?m src []" using Suc.prems Nil by auto
    have "strncpy ?m (tmp + 1) src n = (\<lambda>a. if tmp + 1 \<le> a \<and> a < tmp + 1 + n
        then (if a - (tmp + 1) < length ([] :: u8 list) then [] ! (a - (tmp + 1)) else 0) else ?m a)"
      by (rule Suc.IH [OF *]) (use Suc.prems Nil in auto)
    then show ?thesis using Suc.prems Nil by (intro ext) (auto simp: Let_def)
  next
    case (Cons c s')
    have *: "cstr ?m (src + 1) s'"
      using Suc.prems Cons cstr_cong [of "src + 1" s' ?m m] by auto
    have "strncpy ?m (tmp + 1) (src + 1) n = (\<lambda>a. if tmp + 1 \<le> a \<and> a < tmp + 1 + n
        then (if a - (tmp + 1) < length s' then s' ! (a - (tmp + 1)) else 0) else ?m a)"
      by (rule Suc.IH [OF *]) (use Suc.prems Cons in auto)
    then show ?thesis using Suc.prems Cons
      by (intro ext) (auto simp: Let_def nth_Cons' le_Suc_eq)
  qed
qed

lemma strrchr_loop_cstr:
  "cstr m p s \<Longrightarrow> c \<noteq> 0 \<Longrightarrow> strrchr_loop m l p c =
     Some (if c \<in> set s then p + (length s - 1 - length (before_char (\<lambda>x. x = c) (rev s))) else l)"
proof (induction s arbitrary: p l)
  case Nil
  then show ?case by (subst strrchr_loop.simps) simp
next
  case (Cons d s)
  have len: "length (takeWhile (\<lambda>x. x \<noteq> c) (rev s)) \<le> length s"
    by (metis length_rev length_takeWhile_le)
  have lt: "c \<in> set s \<Longrightarrow> length (takeWhile (\<lambda>x. x \<noteq> c) (rev s)) < length s"
    by (metis (mono_tags, lifting) len le_neq_implies_less length_rev set_rev takeWhile_eq_all_conv takeWhile_eq_take take_all_iff order_refl)
  have "strrchr_loop m (if d = c then p else l) (p + 1) c =
      Some (if c \<in> set s then p + 1 + (length s - 1 - length (before_char (\<lambda>x. x = c) (rev s)))
            else if d = c then p else l)"
    using Cons by simp
  then show ?case using Cons.prems lt
    by (subst strrchr_loop.simps) (auto simp: before_char_def takeWhile_append Let_def)
qed

section \<open>Tokens\<close>

text \<open>What splitting at the delimiters \<open>D\<close> means.\<close>

function tokens :: "(u8 \<Rightarrow> bool) \<Rightarrow> u8 list \<Rightarrow> u8 list list" where
  "tokens D s = (case dropWhile (\<lambda>c. \<not> D c) s of [] \<Rightarrow> [s] | _ # r \<Rightarrow> before_char D s # tokens D r)"
  by auto
termination
proof (relation "measure (\<lambda>(D, s). length s)")
  fix D :: "u8 \<Rightarrow> bool" and s r c
  assume "dropWhile (\<lambda>c. \<not> D c) s = c # r"
  then have "length r < length (dropWhile (\<lambda>c. \<not> D c) s)" by simp
  also have "\<dots> \<le> length s" by (rule length_dropWhile_le)
  finally show "((D, r), (D, s)) \<in> measure (\<lambda>(D, s). length s)" by simp
qed simp

declare tokens.simps [simp del]

lemma before_char_split:
  assumes "\<exists>c \<in> set s. D c"
  obtains c r where "s = before_char D s @ c # r" and "D c" and "dropWhile (\<lambda>c. \<not> D c) s = c # r"
    and "tokens D s = before_char D s # tokens D r"
proof -
  have "dropWhile (\<lambda>c. \<not> D c) s \<noteq> []" using assms by simp
  then obtain c r where cr: "dropWhile (\<lambda>c. \<not> D c) s = c # r" by (meson neq_Nil_conv)
  moreover have "D c" using cr by (metis dropWhile_eq_Cons_conv)
  moreover have "s = before_char D s @ c # r"
    using takeWhile_dropWhile_id [of "\<lambda>c. \<not> D c" s] cr by (simp add: before_char_def)
  moreover have "tokens D s = before_char D s # tokens D r" by (subst tokens.simps) (simp add: cr)
  ultimately show thesis using that by blast
qed

lemma tokens_none: "\<forall>c \<in> set s. \<not> D c \<Longrightarrow> tokens D s = [s]"
proof -
  assume "\<forall>c \<in> set s. \<not> D c"
  then have e: "dropWhile (\<lambda>c. \<not> D c) s = []" by simp
  show ?thesis unfolding tokens.simps [of D s] e by simp
qed

lemma cstr_cut:
  assumes "cstr m p (t @ c # r)"
  shows "cstr (m(p + length t := 0)) p t" and "cstr (m(p + length t := 0)) (p + length t + 1) r"
proof -
  show "cstr (m(p + length t := 0)) p t" using assms by (auto simp: cstr_iff nth_append)
  have "cstr m (p + length t) (c # r)" using cstr_append [OF assms] .
  then show "cstr (m(p + length t := 0)) (p + length t + 1) r"
    using cstr_cong [of "p + length t + 1" r "m(p + length t := 0)" m] by auto
qed

definition split_on :: "u8 list \<Rightarrow> u8 list \<Rightarrow> u8 list list" where
  "split_on d s = tokens (\<lambda>c. c \<in> set d) s"

text \<open>One call of \<^verbatim>\<open>strsep\<close>: the last token, or the first one and the rest.\<close>

lemma strsep_last:
  assumes "cstr m p s" "0 < p" "cstr m ct d" "0 < ct" "set s \<inter> set d = {}"
  shows "strsep m p ct = Some (p, 0, m)" and "split_on d s = [s]"
  using assms by (auto simp: strsep_def strpbrk_cstr split_on_def intro!: tokens_none)

lemma strsep_more:
  assumes "cstr m p s" "0 < p" "cstr m ct d" "0 < ct" "set s \<inter> set d \<noteq> {}"
  obtains t r q where "strsep m p ct = Some (p, q, m(q - 1 := 0))" "q = p + length t + 1"
    "cstr (m(q - 1 := 0)) p t" "cstr (m(q - 1 := 0)) q r" "length t + length r + 1 = length s"
    "split_on d s = t # split_on d r"
proof -
  let ?D = "\<lambda>c. c \<in> set d" and ?t = "before_char (\<lambda>c. c \<in> set d) s"
  have "\<exists>c \<in> set s. ?D c" using assms(5) by blast
  then obtain c r where s: "s = ?t @ c # r" "tokens ?D s = ?t # tokens ?D r" by (rule before_char_split)
  let ?q = "p + length ?t + 1"
  have "strsep m p ct = Some (p, ?q, m(?q - 1 := 0))"
    using assms by (simp add: strsep_def strpbrk_cstr)
  moreover have "cstr (m(?q - 1 := 0)) p ?t" "cstr (m(?q - 1 := 0)) ?q r"
    using cstr_cut [of m p ?t c r] assms(1) s(1) by simp_all
  moreover have "length ?t + length r + 1 = length s" using arg_cong [OF s(1), of length] by simp
  ultimately show thesis using that s(2) unfolding split_on_def by blast
qed

lemma strsep_null [simp]: "strsep m 0 ct = Some (0, 0, m)"
  by (simp add: strsep_def)

lemma split_on_nonempty: "split_on d s \<noteq> []"
  unfolding split_on_def by (subst tokens.simps) (simp split: list.splits)

section \<open>Properties\<close>

text \<open>
  C37. Comparing two strings in memory always returns. \<^verbatim>\<open>strcmp\<close> is zero exactly for equal
  strings and negative exactly if the first precedes the second in lexicographic order of
  bytes; \<^verbatim>\<open>strncmp\<close> is zero exactly if the first \<open>n\<close> bytes agree, so with the length of
  the first string it tests for a prefix.
\<close>

theorem strcmp_lexicographic:
  assumes "cstr m p s" and "cstr m q t"
  shows "(\<exists>d. strcmp m p q = Some d \<and> (d = 0 \<longleftrightarrow> s = t) \<and> (d < 0 \<longleftrightarrow> ord_class.lexordp s t)) \<and>
    (strncmp m p q n = 0 \<longleftrightarrow> take n s = take n t)"
proof -
  have nz: "0 \<notin> set s" "0 \<notin> set t" using assms cstr_nonzero by blast+
  then have nzt: "0 \<notin> set (take n s)" "0 \<notin> set (take n t)" by (meson in_set_takeD)+
  from strcmp_cstr [OF assms] strncmp_cstr [OF assms, of n] show ?thesis
    by (auto simp: diff_at_zero_iff [OF nz] diff_at_neg_iff [OF nz] diff_at_zero_iff [OF nzt])
qed

theorem strcmp_lexicographic_witness:
  "\<exists>d. strcmp ((\<lambda>_. 0)(8 := 97, 9 := 98, 16 := 97, 17 := 98, 18 := 99)) 8 16 = Some d \<and> d < 0"
proof -
  let ?m = "(\<lambda>_. 0)(8 := 97, 9 := 98, 16 := 97, 17 := 98, 18 := 99) :: bytes"
  have "cstr ?m 8 [97, 98]" "cstr ?m 16 [97, 98, 99]" by simp_all
  from strcmp_lexicographic [OF this, of 3] show ?thesis by auto
qed

text \<open>
  C38. \<^verbatim>\<open>memmove\<close> copies the source range as it was before the call, however the two ranges
  overlap, and changes nothing else. \<^verbatim>\<open>memcpy\<close> copies upwards byte by byte and does the
  same if the destination does not start inside the source range.
\<close>

theorem memmove_exact:
  "memmove m dst src n = (\<lambda>a. if dst \<le> a \<and> a < dst + n then m (src + (a - dst)) else m a) \<and>
   (\<not> (src < dst \<and> dst < src + n) \<longrightarrow> memcpy m dst src n = memmove m dst src n)"
  using memcpy_copied [of dst src n m] by (auto simp: memmove_copied copied_def [symmetric])

theorem memmove_exact_witness:
  "memmove ((\<lambda>_. 0)(4 := 1, 5 := 2)) 5 4 2 = (\<lambda>_. 0)(4 := 1, 5 := 1, 6 := 2) \<and>
   memcpy ((\<lambda>_. 0)(4 := 1, 5 := 2)) 3 4 2 = (\<lambda>_. 0)(3 := 1, 4 := 2, 5 := 2)"
proof -
  let ?m = "(\<lambda>_. 0)(4 := 1, 5 := 2) :: bytes"
  have "memcpy ?m 3 4 2 = memmove ?m 3 4 2" using memmove_exact [of ?m 3 4 2] by simp
  moreover have "memmove ?m 5 4 2 = (\<lambda>_. 0)(4 := 1, 5 := 1, 6 := 2)"
    using memmove_exact [of ?m 5 4 2] by (auto simp: fun_eq_iff)
  moreover have "memmove ?m 3 4 2 = (\<lambda>_. 0)(3 := 1, 4 := 2, 5 := 2)"
    using memmove_exact [of ?m 3 4 2] by (auto simp: fun_eq_iff)
  ultimately show ?thesis by simp
qed

end
