(* ===== verification/Bootparam.thy ===== *)
theory Bootparam
  imports Cstring Layout Errno
begin

text \<open>
  Number parsing, \<^verbatim>\<open>common/src/strtox.c\<close>, and the boot command line,
  \<^verbatim>\<open>kernel/bootparam.c\<close>. Strings lie in a byte store as in \<open>Cstring\<close>. The value of a
  number is a 64-bit word that wraps, the count of digits a 32-bit word that carries the
  overflow mark, as in the source.
\<close>

section \<open>Numbers\<close>

definition KSTRTOX_OVERFLOW :: u32 where "KSTRTOX_OVERFLOW = push_bit 31 1"
definition ULLONG_MAX :: u64 where "ULLONG_MAX = NOT 0"
definition INT_MAX :: nat where "INT_MAX = 2 ^ 31 - 1"

text \<open>The value of a character as a digit, up to base 16.\<close>

definition digit_val :: "u8 \<Rightarrow> nat option" where
  "digit_val c =
     (let lc = c OR 0x20
      in if asc CHR ''0'' \<le> c \<and> c \<le> asc CHR ''9'' then Some (unat c - 48)
         else if asc CHR ''a'' \<le> lc \<and> lc \<le> asc CHR ''f'' then Some (unat lc - 97 + 10)
         else None)"

fun parse_integer_limit :: "bytes \<Rightarrow> nat \<Rightarrow> nat \<Rightarrow> nat \<Rightarrow> u64 \<Rightarrow> u32 \<Rightarrow> u64 \<times> u32" where
  "parse_integer_limit m s base max_chars res rv =
     (if max_chars = 0 then (res, rv)
      else case digit_val (m s) of
             None \<Rightarrow> (res, rv)
           | Some val \<Rightarrow>
               if val \<ge> base then (res, rv)
               else let rv = (if res AND push_bit 60 ULLONG_MAX \<noteq> 0 \<and>
                                 res > (ULLONG_MAX - of_nat val) div of_nat base
                              then rv OR KSTRTOX_OVERFLOW else rv)
                    in parse_integer_limit m (s + 1) base (max_chars - 1)
                         (res * of_nat base + of_nat val) (rv + 1))"

declare parse_integer_limit.simps [simp del]

definition parse_integer_fixup_radix :: "bytes \<Rightarrow> nat \<Rightarrow> nat \<Rightarrow> nat \<times> nat" where
  "parse_integer_fixup_radix m s base =
     (let base = (if base = 0 then
                    if m s = asc CHR ''0'' then
                      if tolower (m (s + 1)) = asc CHR ''x'' \<and> isxdigit (m (s + 2)) then 16 else 8
                    else 10
                  else base)
      in (if base = 16 \<and> m s = asc CHR ''0'' \<and> tolower (m (s + 1)) = asc CHR ''x'' then s + 2 else s, base))"

text \<open>The value and the end pointer.\<close>

definition strntoull :: "bytes \<Rightarrow> nat \<Rightarrow> nat \<Rightarrow> nat \<Rightarrow> u64 \<times> nat" where
  "strntoull m startp max_chars base =
     (let (cp, base) = parse_integer_fixup_radix m startp base;
          prefix_chars = cp - startp
      in if prefix_chars < max_chars then
           let (result, rv) = parse_integer_limit m cp base (max_chars - prefix_chars) 0 0
           in (result, cp + unat (rv AND NOT KSTRTOX_OVERFLOW))
         else (0, startp + max_chars))"

definition strtoull :: "bytes \<Rightarrow> nat \<Rightarrow> nat \<Rightarrow> u64 \<times> nat" where
  "strtoull m cp base = strntoull m cp INT_MAX base"

definition strtoul :: "bytes \<Rightarrow> nat \<Rightarrow> nat \<Rightarrow> u64 \<times> nat" where
  "strtoul m cp base = strtoull m cp base"

section \<open>Boot parameters\<close>

definition bootparam_parse_size :: "bytes \<Rightarrow> nat \<Rightarrow> u64 result option" where
  "bootparam_parse_size m str =
     (let (ret, ep) = strtoul m str 10
      in if ret = 0 then Some (Err EINVAL)
         else do {
           len \<leftarrow> strlen m ep;
           Some (if len > 1 then Err EINVAL
                 else if len = 0 then Ok ret
                 else if m ep = asc CHR ''K'' then Ok (ret * KIB)
                 else if m ep = asc CHR ''M'' then Ok (ret * MIB)
                 else if m ep = asc CHR ''G'' then Ok (ret * GIB)
                 else Err EINVAL)
         })"

text \<open>
  A registered parameter: the address of its name and its handler, which reads its argument
  from the store (a null pointer if the parameter has none) and changes the state \<open>'s\<close> of
  the kernel.
\<close>

type_synonym 's bootparam = "nat \<times> (bytes \<Rightarrow> nat \<Rightarrow> 's \<Rightarrow> 's)"

fun run_params :: "'s bootparam list \<Rightarrow> bytes \<Rightarrow> nat \<Rightarrow> nat \<Rightarrow> 's \<Rightarrow> 's option" where
  "run_params [] m name arg st = Some st"
| "run_params ((iname, parse) # ps) m name arg st =
     do {
       c \<leftarrow> strcmp m name iname;
       run_params ps m name arg (if c = 0 then parse m arg st else st)
     }"

text \<open>\<open>eq\<close> is the address of the literal \<^verbatim>\<open>"="\<close>.\<close>

definition parse_param :: "'s bootparam list \<Rightarrow> nat \<Rightarrow> bytes \<Rightarrow> nat \<Rightarrow> 's \<Rightarrow> ('s \<times> bytes) option" where
  "parse_param ps eq m str st =
     do {
       (name, str, m) \<leftarrow> strsep m str eq;
       (arg, str, m) \<leftarrow> strsep m str eq;
       st \<leftarrow> run_params ps m name arg st;
       Some (st, m)
     }"

partial_function (option) bootparam_loop ::
    "'s bootparam list \<Rightarrow> nat \<Rightarrow> nat \<Rightarrow> bytes \<Rightarrow> nat \<Rightarrow> 's \<Rightarrow> ('s \<times> bytes) option" where
  "bootparam_loop ps eq sp m str st =
     do {
       r \<leftarrow> strsep m str sp;
       (case r of (token, str', m1) \<Rightarrow>
          if token = 0 then Some (st, m1)
          else do {
            len \<leftarrow> strlen m1 token;
            if len = 0 then bootparam_loop ps eq sp m1 str' st
            else do {
              q \<leftarrow> parse_param ps eq m1 token st;
              (case q of (st', m2) \<Rightarrow> bootparam_loop ps eq sp m2 str' st')
            }
          })
     }"

text \<open>
  \<open>bootargs\<close> is the property of the device tree (0 if there is none), \<open>tmp\<close> the address of
  the 128-byte buffer on the stack, \<open>sp\<close> that of the literal \<^verbatim>\<open>" "\<close>.
\<close>

definition bootparam_init ::
    "'s bootparam list \<Rightarrow> nat \<Rightarrow> nat \<Rightarrow> nat \<Rightarrow> nat \<Rightarrow> bytes \<Rightarrow> 's \<Rightarrow> ('s \<times> bytes) option" where
  "bootparam_init ps eq sp tmp bootargs m st =
     (if bootargs = 0 then Some (st, m)
      else bootparam_loop ps eq sp (strncpy m tmp bootargs (128 - 1)) tmp st)"

section \<open>Parsing numbers\<close>

definition num_val :: "nat \<Rightarrow> nat \<Rightarrow> nat list \<Rightarrow> nat" where
  "num_val base acc ds = foldl (\<lambda>a d. a * base + d) acc ds"

lemma num_val_simps [simp]:
  "num_val base acc [] = acc" "num_val base acc (d # ds) = num_val base (acc * base + d) ds"
  "num_val base acc (ds @ [d]) = num_val base acc ds * base + d"
  by (simp_all add: num_val_def)

text \<open>The bytes at \<open>s\<close> are the digits \<open>ds\<close> and then something that is no digit.\<close>

fun digits_at :: "bytes \<Rightarrow> nat \<Rightarrow> nat \<Rightarrow> nat list \<Rightarrow> bool" where
  "digits_at m s base [] \<longleftrightarrow> (case digit_val (m s) of None \<Rightarrow> True | Some v \<Rightarrow> base \<le> v)"
| "digits_at m s base (d # ds) \<longleftrightarrow> digit_val (m s) = Some d \<and> d < base \<and> digits_at m (s + 1) base ds"

lemma low31_count:
  fixes rv :: u32
  assumes "take_bit 31 rv = of_nat k" and "k + 1 < 2 ^ 31"
  shows "take_bit 31 (rv + 1) = of_nat (k + 1)" and "take_bit 31 ((rv OR KSTRTOX_OVERFLOW) + 1) = of_nat (k + 1)"
proof -
  have tb: "unat (take_bit 31 v) = unat v mod 2 ^ 31" for v :: u32
    unfolding unsigned_take_bit_eq by (rule take_bit_eq_mod)
  have step: "take_bit 31 (w + 1) = of_nat (k + 1)" if "take_bit 31 w = of_nat k" for w :: u32
  proof -
    have "unat w mod 2 ^ 31 = k"
      using arg_cong [OF that, of unat] assms(2) unfolding tb by (simp add: unat_of_nat_small)
    then have "(unat w + 1) mod 2 ^ 31 = k + 1" using assms(2) by (simp add: mod_Suc)
    then have "unat (w + 1) mod 2 ^ 31 = k + 1"
      by (simp add: unat_word_ariths mod_mod_cancel)
    moreover have "unat (of_nat (k + 1) :: u32) = k + 1"
      by (rule unat_of_nat_small) (use assms(2) in simp)
    ultimately have "unat (take_bit 31 (w + 1)) = unat (of_nat (k + 1) :: u32)" by (simp only: tb)
    then show ?thesis by (rule word_unat_eq_iff [THEN iffD2])
  qed
  show "take_bit 31 (rv + 1) = of_nat (k + 1)" by (rule step [OF assms(1)])
  have "take_bit 31 KSTRTOX_OVERFLOW = 0" by (simp add: KSTRTOX_OVERFLOW_def take_bit_push_bit)
  then have "take_bit 31 (rv OR KSTRTOX_OVERFLOW) = of_nat k" using assms(1) by (simp add: take_bit_or)
  then show "take_bit 31 ((rv OR KSTRTOX_OVERFLOW) + 1) = of_nat (k + 1)" by (rule step)
qed

lemma parse_integer_limit_digits:
  assumes "digits_at m s base ds" and "length ds < max_chars" and "k + length ds < 2 ^ 31"
    and "take_bit 31 rv = of_nat k"
  shows "\<exists>rv'. parse_integer_limit m s base max_chars (of_nat r) rv = (of_nat (num_val base r ds), rv') \<and>
    take_bit 31 rv' = of_nat (k + length ds)"
  using assms
proof (induction ds arbitrary: s max_chars r rv k)
  case Nil
  then show ?case by (subst parse_integer_limit.simps) (auto split: option.splits)
next
  case (Cons d ds)
  define rv1 where "rv1 = (if of_nat r AND push_bit 60 ULLONG_MAX \<noteq> 0 \<and>
    of_nat r > (ULLONG_MAX - of_nat d) div of_nat base then rv OR KSTRTOX_OVERFLOW else rv)"
  have "k + 1 < 2 ^ 31" using Cons.prems(3) by simp
  then have "take_bit 31 (rv1 + 1) = of_nat (k + 1)"
    using low31_count [OF Cons.prems(4)] by (simp add: rv1_def)
  then have "\<exists>rv'. parse_integer_limit m (s + 1) base (max_chars - 1) (of_nat (r * base + d)) (rv1 + 1)
      = (of_nat (num_val base (r * base + d) ds), rv') \<and> take_bit 31 rv' = of_nat (k + 1 + length ds)"
    using Cons.prems(1-3) by (intro Cons.IH) auto
  moreover have "parse_integer_limit m s base max_chars (of_nat r) rv =
      parse_integer_limit m (s + 1) base (max_chars - 1) (of_nat (r * base + d)) (rv1 + 1)"
    using Cons.prems by (subst parse_integer_limit.simps) (simp add: rv1_def Let_def)
  ultimately show ?case by simp
qed

lemma strip_overflow: "rv AND NOT KSTRTOX_OVERFLOW = take_bit 31 (rv :: u32)"
proof -
  have "NOT KSTRTOX_OVERFLOW = mask 31" by (simp add: KSTRTOX_OVERFLOW_def mask_eq_exp_minus_1)
  then show ?thesis by (simp add: take_bit_eq_mask)
qed

lemma strtoull_digits:
  assumes "parse_integer_fixup_radix m p base = (p + k, b)" and "digits_at m (p + k) b ds"
    and "k + length ds < INT_MAX"
  shows "strtoull m p base = (of_nat (num_val b 0 ds), p + k + length ds)"
proof -
  have len: "length ds < INT_MAX - k" "0 + length ds < 2 ^ 31" using assms(3) by (auto simp: INT_MAX_def)
  obtain rv where rv: "parse_integer_limit m (p + k) b (INT_MAX - k) 0 0 = (of_nat (num_val b 0 ds), rv)"
    "take_bit 31 rv = of_nat (length ds)"
    using parse_integer_limit_digits [OF assms(2) len(1,2), of 0 0] by auto
  have "unat (take_bit 31 rv) = length ds"
    using rv(2) len(2) by (simp add: unat_of_nat_small)
  then show ?thesis using assms(1,3) rv(1) by (simp add: strtoull_def strntoull_def strip_overflow)
qed

section \<open>Dispatch of boot parameters\<close>

text \<open>
  The abstract view: a parameter is a name and a function of its argument, if any; a token
  \<^verbatim>\<open>name=arg\<close> is cut at the equals signs.
\<close>

type_synonym 's param = "u8 list \<times> (u8 list option \<Rightarrow> 's \<Rightarrow> 's)"

definition param_of :: "u8 list \<Rightarrow> u8 list \<times> u8 list option" where
  "param_of t = (case split_on [61] t of n # a # _ \<Rightarrow> (n, Some a) | [n] \<Rightarrow> (n, None) | [] \<Rightarrow> ([], None))"

definition apply_params :: "'s param list \<Rightarrow> u8 list \<times> u8 list option \<Rightarrow> 's \<Rightarrow> 's" where
  "apply_params qs na st = fold (\<lambda>(nm, H) st. if fst na = nm then H (snd na) st else st) qs st"

definition handles :: "(bytes \<Rightarrow> nat \<Rightarrow> 's \<Rightarrow> 's) \<Rightarrow> (u8 list option \<Rightarrow> 's \<Rightarrow> 's) \<Rightarrow> bool" where
  "handles parse H \<longleftrightarrow> (\<forall>m st. parse m 0 st = H None st) \<and>
     (\<forall>m a t st. 0 < a \<longrightarrow> cstr m a t \<longrightarrow> parse m a st = H (Some t) st)"

text \<open>The names and literals are in place, outside the buffer from \<open>lo\<close> to \<open>hi\<close>.\<close>

definition outside :: "nat \<Rightarrow> nat \<Rightarrow> nat \<Rightarrow> u8 list \<Rightarrow> bool" where
  "outside lo hi p s \<longleftrightarrow> 0 < p \<and> (p + length s < lo \<or> hi \<le> p)"

definition registered :: "bytes \<Rightarrow> nat \<Rightarrow> nat \<Rightarrow> 's bootparam list \<Rightarrow> 's param list \<Rightarrow> bool" where
  "registered m lo hi ps qs \<longleftrightarrow>
     list_all2 (\<lambda>(ip, parse) (nm, H). cstr m ip nm \<and> outside lo hi ip nm \<and> handles parse H) ps qs"

definition same_outside :: "nat \<Rightarrow> nat \<Rightarrow> bytes \<Rightarrow> bytes \<Rightarrow> bool" where
  "same_outside lo hi m m' \<longleftrightarrow> (\<forall>a. a < lo \<or> hi \<le> a \<longrightarrow> m' a = m a)"

lemma same_outside_refl [simp]: "same_outside lo hi m m"
  by (simp add: same_outside_def)

lemma same_outside_trans: "same_outside lo hi m m' \<Longrightarrow> same_outside lo hi m' m'' \<Longrightarrow> same_outside lo hi m m''"
  by (simp add: same_outside_def)

lemma same_outside_mono: "same_outside lo hi m m' \<Longrightarrow> lo' \<le> lo \<Longrightarrow> hi \<le> hi' \<Longrightarrow> same_outside lo' hi' m m'"
  by (auto simp: same_outside_def)

lemma cstr_outside: "same_outside lo hi m m' \<Longrightarrow> outside lo hi p s \<Longrightarrow> cstr m' p s = cstr m p s"
  by (rule cstr_cong) (auto simp: same_outside_def outside_def)

lemma registered_outside:
  "same_outside lo hi m m' \<Longrightarrow> registered m lo hi ps qs \<Longrightarrow> registered m' lo hi ps qs"
  unfolding registered_def by (erule list_all2_mono) (auto simp: cstr_outside)

lemma run_params_eq:
  assumes "registered m lo hi ps qs" and "cstr m name n"
    and "arg = 0 \<and> a = None \<or> (\<exists>t. 0 < arg \<and> cstr m arg t \<and> a = Some t)"
  shows "run_params ps m name arg st = Some (apply_params qs (n, a) st)"
  using assms(1) unfolding registered_def
proof (induction ps qs arbitrary: st rule: list_all2_induct)
  case (Cons p ps q qs)
  obtain ip parse nm H where e: "p = (ip, parse)" "q = (nm, H)" by (cases p, cases q)
  with Cons have h: "cstr m ip nm" "handles parse H" by auto
  have "strcmp m name ip = Some (diff_at n nm)" by (rule strcmp_cstr [OF assms(2) h(1)])
  moreover have "diff_at n nm = 0 \<longleftrightarrow> n = nm"
    using diff_at_zero_iff cstr_nonzero assms(2) h(1) by blast
  moreover have "parse m arg st = H a st" using h(2) assms(3) unfolding handles_def by blast
  ultimately show ?case using Cons e by (simp add: apply_params_def)
qed (simp add: apply_params_def)

lemma parse_param_eq:
  assumes reg: "registered m lo hi ps qs" and eq: "cstr m eq [61]" "outside lo hi eq [61]"
    and t: "cstr m p t" "0 < p" "lo \<le> p" "p + length t < hi"
  shows "\<exists>m'. parse_param ps eq m p st = Some (apply_params qs (param_of t) st, m') \<and>
    same_outside p (p + length t) m m'"
proof (cases "set t \<inter> set [61] = {}")
  case True
  have eq0: "0 < eq" using eq(2) by (simp add: outside_def)
  note last = strsep_last [OF t(1,2) eq(1) eq0 True]
  have "run_params ps m p 0 st = Some (apply_params qs (t, None) st)"
    by (rule run_params_eq [OF reg t(1)]) simp
  then show ?thesis using last by (simp add: parse_param_def param_of_def)
next
  case False
  have eq0: "0 < eq" using eq(2) by (simp add: outside_def)
  from strsep_more [OF t(1,2) eq(1) eq0 False] obtain n r q where
    n: "strsep m p eq = Some (p, q, m(q - 1 := 0))" "q = p + length n + 1"
      "cstr (m(q - 1 := 0)) p n" "cstr (m(q - 1 := 0)) q r" "length n + length r + 1 = length t"
      "split_on [61] t = n # split_on [61] r" by metis
  let ?m1 = "m(q - 1 := 0)"
  have so1: "same_outside p (p + length t) m ?m1" using n(2,5) by (auto simp: same_outside_def)
  then have wide: "same_outside lo hi m ?m1" using t(3,4) by (elim same_outside_mono) simp_all
  have eq1: "cstr ?m1 eq [61]" and reg1: "registered ?m1 lo hi ps qs"
    using cstr_outside [OF wide eq(2)] eq(1) registered_outside [OF wide reg] by blast+
  have q0: "0 < q" using n(2) by simp
  show ?thesis
  proof (cases "set r \<inter> set [61] = {}")
    case True
    note last = strsep_last [OF n(4) q0 eq1 eq0 True]
    have "run_params ps ?m1 p q st = Some (apply_params qs (n, Some r) st)"
      by (rule run_params_eq [OF reg1 n(3)]) (use n(4) q0 in blast)
    then show ?thesis using last n(1,6) so1 by (simp add: parse_param_def param_of_def)
  next
    case False
    from strsep_more [OF n(4) q0 eq1 eq0 False] obtain a r2 q2 where
      a: "strsep ?m1 q eq = Some (q, q2, ?m1(q2 - 1 := 0))" "q2 = q + length a + 1"
        "cstr (?m1(q2 - 1 := 0)) q a" "length a + length r2 + 1 = length r"
        "split_on [61] r = a # split_on [61] r2" by metis
    let ?m2 = "?m1(q2 - 1 := 0)"
    have so2: "same_outside q (p + length t) ?m1 ?m2" using n(2,5) a(2,4) by (auto simp: same_outside_def)
    then have "same_outside lo hi ?m1 ?m2" using t(3,4) n(2) by (elim same_outside_mono) simp_all
    then have reg2: "registered ?m2 lo hi ps qs" using registered_outside reg1 by blast
    have "cstr ?m2 p n" using n(2,3) a(2) cstr_cong [of p n ?m2 ?m1] by simp
    then have "run_params ps ?m2 p q st = Some (apply_params qs (n, Some a) st)"
      by (rule run_params_eq [OF reg2]) (use a(3) q0 in blast)
    moreover have "same_outside p (p + length t) m ?m2"
      using so1 same_outside_mono [OF so2, of p] n(2) same_outside_trans by fastforce
    ultimately show ?thesis using a(1,5) n(1,6) by (auto simp: parse_param_def param_of_def)
  qed
qed

definition run_cmdline :: "'s param list \<Rightarrow> u8 list \<Rightarrow> 's \<Rightarrow> 's" where
  "run_cmdline qs s st = fold (\<lambda>t. apply_params qs (param_of t)) (filter (\<lambda>t. t \<noteq> []) (split_on [32] s)) st"

lemma bootparam_loop_null: "bootparam_loop ps eq sp m 0 st = Some (st, m)"
  by (subst bootparam_loop.simps) simp

text \<open>The token at \<open>p\<close> is handled; the loop goes on with what is left at \<open>q\<close>.\<close>

lemma bootparam_loop_token:
  assumes "strsep m p sp = Some (p, q, m1)" and "cstr m1 p t" "0 < p"
    and reg: "registered m1 lo hi ps qs" "cstr m1 eq [61]" "outside lo hi eq [61]" "lo \<le> p" "p + length t < hi"
  shows "\<exists>m2. bootparam_loop ps eq sp m p st =
      bootparam_loop ps eq sp m2 q (if t = [] then st else apply_params qs (param_of t) st) \<and>
    same_outside p (p + length t) m1 m2"
proof (cases "t = []")
  case True
  have "strlen m1 p = Some 0" using assms(2,3) True by (simp add: strlen_def strlen_loop_cstr [of m1 p "[]"])
  then show ?thesis using assms(1,3) True by (subst bootparam_loop.simps) auto
next
  case False
  from parse_param_eq [OF reg(1-3) assms(2,3) reg(4,5)] obtain m2 where
    "parse_param ps eq m1 p st = Some (apply_params qs (param_of t) st, m2)"
    "same_outside p (p + length t) m1 m2" by blast
  then show ?thesis using assms False by (subst bootparam_loop.simps) (auto simp: strlen_cstr)
qed

lemma bootparam_loop_eq:
  assumes "registered m lo hi ps qs" "cstr m eq [61]" "outside lo hi eq [61]"
    "cstr m sp [32]" "outside lo hi sp [32]" "cstr m p s" "0 < p" "lo \<le> p" "p + length s < hi"
  shows "\<exists>m'. bootparam_loop ps eq sp m p st = Some (run_cmdline qs s st, m')"
  using assms
proof (induction s arbitrary: m p st rule: length_induct)
  case (1 s)
  note reg = "1.prems"(1) and eq = "1.prems"(2,3) and sp = "1.prems"(4,5) and p = "1.prems"(6-9)
  have sp0: "0 < sp" using sp(2) by (simp add: outside_def)
  show ?case
  proof (cases "set s \<inter> set [32] = {}")
    case True
    note last = strsep_last [OF p(1,2) sp(1) sp0 True]
    from bootparam_loop_token [OF last(1) p(1,2) reg eq p(3,4), of st] show ?thesis
      by (auto simp: bootparam_loop_null run_cmdline_def last(2))
  next
    case False
    from strsep_more [OF p(1,2) sp(1) sp0 False] obtain t r q where
      t: "strsep m p sp = Some (p, q, m(q - 1 := 0))" "q = p + length t + 1"
        "cstr (m(q - 1 := 0)) p t" "cstr (m(q - 1 := 0)) q r" "length t + length r + 1 = length s"
        "split_on [32] s = t # split_on [32] r" by metis
    let ?m1 = "m(q - 1 := 0)"
    have so1: "same_outside lo hi m ?m1" using t(2,5) p(3,4) by (auto simp: same_outside_def)
    have reg1: "registered ?m1 lo hi ps qs" and eq1: "cstr ?m1 eq [61]"
      using registered_outside [OF so1 reg] cstr_outside [OF so1 eq(2)] eq(1) by blast+
    let ?st = "if t = [] then st else apply_params qs (param_of t) st"
    have "p + length t < hi" using t(5) p(4) by simp
    from bootparam_loop_token [OF t(1,3) p(2) reg1 eq1 eq(2) p(3) this, of st] obtain m2 where
      m2: "bootparam_loop ps eq sp m p st = bootparam_loop ps eq sp m2 q ?st"
        "same_outside p (p + length t) ?m1 m2" by blast
    have "same_outside lo hi ?m1 m2" using m2(2) p(3,4) t(5) by (elim same_outside_mono) simp_all
    with so1 have so2: "same_outside lo hi m m2" by (rule same_outside_trans)
    have "cstr m2 q r" using t(4) cstr_cong [of q r m2 ?m1] m2(2) t(2) by (simp add: same_outside_def)
    then have "\<exists>m'. bootparam_loop ps eq sp m2 q ?st = Some (run_cmdline qs r ?st, m')"
      using "1.IH" [rule_format, of r m2 q ?st] t(2,5) p registered_outside [OF so2 reg]
        cstr_outside [OF so2 eq(2)] cstr_outside [OF so2 sp(2)] eq sp by simp
    then show ?thesis using m2(1) by (cases "t = []") (simp_all add: run_cmdline_def t(6))
  qed
qed


text \<open>The string \<^verbatim>\<open>"a=b c"\<close> at 256 and a parameter \<^verbatim>\<open>a\<close> that records its argument.\<close>

definition sample_store :: bytes where
  "sample_store = (\<lambda>_. 0)(8 := 61, 16 := 32, 24 := 97,
     256 := 97, 257 := 61, 258 := 98, 259 := 32, 260 := 99)"


text \<open>
  C35. A size on the command line: a decimal number with an optional unit K, M or G gives
  the number times the unit, in 64-bit arithmetic; zero, an unknown unit or further
  characters give EINVAL. The value wraps: a number of more than 64 bits is not an error.
\<close>

theorem bootparam_parse_size_value:
  fixes ds :: "nat list"
  assumes "cstr m p (map (\<lambda>d. of_nat (48 + d)) ds @ suf)" and "0 < p"
    and "\<forall>d \<in> set ds. d < 10" and "length ds < INT_MAX" and "suf = [] \<or> hd suf < 48 \<or> 57 < hd suf"
  shows "bootparam_parse_size m p = Some (
    let v = of_nat (num_val 10 0 ds) :: u64
    in if v = 0 then Err EINVAL else if suf = [] then Ok v else if suf = [75] then Ok (v * 1024)
       else if suf = [77] then Ok (v * 1048576) else if suf = [71] then Ok (v * 1073741824) else Err EINVAL)"
proof -
  have dig: "digit_val (of_nat (48 + d)) = Some d" if "d < 10" for d
  proof -
    have u: "unat (of_nat (48 + d) :: u8) = 48 + d" by (rule unat_of_nat_small) (use that in simp)
    have "(48 :: u8) \<le> of_nat (48 + d)" "of_nat (48 + d) \<le> (57 :: u8)"
      unfolding word_le_nat_alt u using that by simp_all
    then show ?thesis unfolding digit_val_def Let_def u by simp
  qed
  have stop: "case digit_val c of None \<Rightarrow> True | Some v \<Rightarrow> 10 \<le> v" if "c < 48 \<or> 57 < c" for c
    using that by (auto simp: digit_val_def Let_def not_le)
  have at: "digits_at m q 10 ds" if "cstr m q (map (\<lambda>d. of_nat (48 + d)) ds @ suf)" "\<forall>d \<in> set ds. d < 10" for q ds
    using that
  proof (induction ds arbitrary: q)
    case Nil
    show ?case
    proof (cases suf)
      case (Cons c s')
      then show ?thesis using Nil assms(5) stop [of c] by simp
    qed (use Nil stop [of 0] in simp)
  next
    case (Cons d ds)
    then show ?case using dig [of d] by (auto simp del: of_nat_add)
  qed
  have fix10: "parse_integer_fixup_radix m p 10 = (p + 0, 10)" by (simp add: parse_integer_fixup_radix_def)
  have st: "strtoul m p 10 = (of_nat (num_val 10 0 ds), p + length ds)"
    using strtoull_digits [OF fix10, of ds] at [OF assms(1,3)] assms(4) by (simp add: strtoul_def)
  have "cstr m (p + length ds) suf" using cstr_append [OF assms(1)] by simp
  moreover from this have "strlen m (p + length ds) = Some (length suf)"
    using assms(2) by (simp add: strlen_cstr)
  ultimately show ?thesis
    by (cases suf; cases "tl suf") (auto simp: bootparam_parse_size_def st Let_def KIB_def MIB_def GIB_def)
qed

theorem bootparam_parse_size_value_witness:
  "bootparam_parse_size ((\<lambda>_. 0)(8 := 54, 9 := 52, 10 := 75)) 8 = Some (Ok 65536)"
  using bootparam_parse_size_value [of "(\<lambda>_. 0)(8 := 54, 9 := 52, 10 := 75)" 8 "[6, 4]" "[75]"]
  by (simp add: INT_MAX_def)

end
