(* ===== verification/Vsprintf.thy ===== *)
theory Vsprintf
  imports Bootparam Errno
begin

text \<open>
  Formatted output, \<^verbatim>\<open>common/src/vsprintf.c\<close>. The output position is a pair of the store
  and the address to write next; \<open>e\<close> is the end of the buffer. The format is a list of
  bytes (its NUL left implicit), the arguments are the 64-bit slots \<^verbatim>\<open>va_arg\<close> reads.
  Widths and precisions are the signed bit fields of \<^verbatim>\<open>struct printf_spec\<close>, flags a byte.
\<close>

section \<open>Specifications\<close>

definition F_SIGN :: u8 where "F_SIGN = 1"
definition F_LEFT :: u8 where "F_LEFT = 2"
definition F_PLUS :: u8 where "F_PLUS = 4"
definition F_SPACE :: u8 where "F_SPACE = 8"
definition F_ZEROPAD :: u8 where "F_ZEROPAD = 16"
definition F_SMALL :: u8 where "F_SMALL = 32"
definition F_SPECIAL :: u8 where "F_SPECIAL = 64"

lemmas flag_defs = F_SIGN_def F_LEFT_def F_PLUS_def F_SPACE_def F_ZEROPAD_def F_SMALL_def F_SPECIAL_def

datatype format_type =
    FORMAT_TYPE_NONE | FORMAT_TYPE_WIDTH | FORMAT_TYPE_PRECISION | FORMAT_TYPE_CHAR
  | FORMAT_TYPE_STR | FORMAT_TYPE_PTR | FORMAT_TYPE_PERCENT_CHAR | FORMAT_TYPE_INVALID
  | FORMAT_TYPE_LONG_LONG | FORMAT_TYPE_ULONG | FORMAT_TYPE_LONG | FORMAT_TYPE_UBYTE
  | FORMAT_TYPE_BYTE | FORMAT_TYPE_USHORT | FORMAT_TYPE_SHORT | FORMAT_TYPE_UINT
  | FORMAT_TYPE_INT | FORMAT_TYPE_SIZE_T | FORMAT_TYPE_PTRDIFF

record printf_spec =
  ptype :: format_type
  field_width :: int
  pflags :: u8
  pbase :: nat
  precision :: int

text \<open>A signed bit field of \<open>n\<close> bits keeps the low bits of what is assigned to it.\<close>

definition sbits :: "nat \<Rightarrow> int \<Rightarrow> int" where
  "sbits n x = (x + 2 ^ (n - 1)) mod 2 ^ n - 2 ^ (n - 1)"

abbreviation set_width :: "int \<Rightarrow> printf_spec \<Rightarrow> printf_spec" where
  "set_width w spec \<equiv> spec\<lparr>field_width := sbits 24 w\<rparr>"

abbreviation set_prec :: "int \<Rightarrow> printf_spec \<Rightarrow> printf_spec" where
  "set_prec p spec \<equiv> spec\<lparr>precision := sbits 16 p\<rparr>"

abbreviation add_flag :: "u8 \<Rightarrow> printf_spec \<Rightarrow> printf_spec" where
  "add_flag f spec \<equiv> spec\<lparr>pflags := pflags spec OR f\<rparr>"

abbreviation has :: "printf_spec \<Rightarrow> u8 \<Rightarrow> bool" where
  "has spec f \<equiv> pflags spec AND f \<noteq> 0"

section \<open>Decimal digits\<close>

text \<open>The table entry for \<open>x\<close>, and the two bytes a 16-bit store puts into memory.\<close>

definition decpair :: "nat \<Rightarrow> u16" where
  "decpair x = (of_nat (x mod 10) OR push_bit 8 (of_nat (x div 10))) + 0x3030"

definition le16 :: "u16 \<Rightarrow> u8 list" where
  "le16 w = [ucast w, ucast (drop_bit 8 w)]"

text \<open>The routines return the bytes they emit, least significant digit first.\<close>

definition put_dec_trunc8 :: "nat \<Rightarrow> u8 list" where
  "put_dec_trunc8 r =
     (let out_r = (\<lambda>r. if r < 10 then take 1 (le16 (decpair r)) else le16 (decpair r))
      in if r < 100 then out_r r
         else let q = (r * 0x28f5c29) div 2 ^ 32; b1 = le16 (decpair (r - 100 * q))
         in if q < 100 then b1 @ out_r q
         else let r = (q * 0x28f5c29) div 2 ^ 32; b2 = le16 (decpair (q - 100 * r))
         in if r < 100 then b1 @ b2 @ out_r r
         else let q = (r * 0x147b) mod 2 ^ 32 div 2 ^ 19; b3 = le16 (decpair (r - 100 * q))
         in b1 @ b2 @ b3 @ out_r q)"

definition put_dec_full8 :: "nat \<Rightarrow> u8 list" where
  "put_dec_full8 r =
     (let q = (r * 0x28f5c29) div 2 ^ 32; b1 = le16 (decpair (r - 100 * q));
          r = (q * 0x28f5c29) div 2 ^ 32; b2 = le16 (decpair (q - 100 * r));
          q = (r * 0x147b) mod 2 ^ 32 div 2 ^ 19; b3 = le16 (decpair (r - 100 * q));
          b4 = le16 (decpair q)
      in b1 @ b2 @ b3 @ b4)"

definition put_dec :: "nat \<Rightarrow> u8 list" where
  "put_dec n =
     (let (n, b1) = (if n \<ge> 100000000 then (n div 100000000, put_dec_full8 (n mod 100000000)) else (n, []));
          (n, b2) = (if n \<ge> 100000000 then (n div 100000000, put_dec_full8 (n mod 100000000)) else (n, []))
      in b1 @ b2 @ put_dec_trunc8 n)"

section \<open>Numbers\<close>

type_synonym out = "bytes \<times> nat"

definition put :: "nat \<Rightarrow> u8 \<Rightarrow> out \<Rightarrow> out" where
  "put e c = (\<lambda>(m, buf). (if buf < e then m(buf := c) else m, buf + 1))"

fun put_n :: "nat \<Rightarrow> u8 \<Rightarrow> nat \<Rightarrow> out \<Rightarrow> out" where
  "put_n e c 0 st = st"
| "put_n e c (Suc n) st = put_n e c n (put e c st)"

text \<open>\<^verbatim>\<open>while (--w >= 0)\<close>: what it writes, and the value of \<open>w\<close> afterwards.\<close>

definition pad :: "nat \<Rightarrow> u8 \<Rightarrow> int \<Rightarrow> out \<Rightarrow> out" where
  "pad e c w st = put_n e c (nat w) st"

definition after_pad :: "int \<Rightarrow> int" where
  "after_pad w = (if w > 0 then -1 else w - 1)"

text \<open>A statement under an \<^verbatim>\<open>if\<close> without an else branch.\<close>

definition only_if :: "bool \<Rightarrow> (out \<Rightarrow> out) \<Rightarrow> out \<Rightarrow> out" where
  "only_if b f st = (if b then f st else st)"

definition hex_asc_upper :: "u8 list" where
  "hex_asc_upper = lit ''0123456789ABCDEF''"

function pow2_digits :: "nat \<Rightarrow> u8 \<Rightarrow> nat \<Rightarrow> u8 list" where
  "pow2_digits base locase num =
     (let shift = (if base = 16 then 4 else 3);
          d = hex_asc_upper ! ((num mod 256) AND (base - 1)) OR locase;
          num' = num div 2 ^ shift
      in if num' = 0 then [d] else d # pow2_digits base locase num')"
  by auto
termination
  by (relation "measure (\<lambda>(base, locase, num). num)") (auto intro!: div_less_dividend split: if_splits)

declare pow2_digits.simps [simp del]

text \<open>The contents of \<^verbatim>\<open>tmp\<close>, in reverse order of printing.\<close>

definition num_tmp :: "u64 \<Rightarrow> printf_spec \<Rightarrow> u8 list" where
  "num_tmp num spec =
     (let locase = pflags spec AND F_SMALL
      in if unat num < pbase spec then [hex_asc_upper ! unat num OR locase]
         else if pbase spec \<noteq> 10 then
           pow2_digits (pbase spec) locase (unat num)
         else put_dec (unat num))"

text \<open>The sign character (0 for none), the magnitude and the width left.\<close>

definition number_sign :: "u64 \<Rightarrow> printf_spec \<Rightarrow> int \<Rightarrow> u8 \<times> u64 \<times> int" where
  "number_sign num spec w =
     (if has spec F_SIGN then
        if num <s 0 then (asc CHR ''-'', - num, w - 1)
        else if has spec F_PLUS then (asc CHR ''+'', num, w - 1)
        else if has spec F_SPACE then (asc CHR '' '', num, w - 1)
        else (0, num, w)
      else (0, num, w))"

text \<open>The part that writes: padding, sign, prefix, padding, zeros, digits, padding.\<close>

definition number_out :: "nat \<Rightarrow> printf_spec \<Rightarrow> u8 \<Rightarrow> bool \<Rightarrow> bool \<Rightarrow> u8 list \<Rightarrow> int \<Rightarrow> int \<Rightarrow> out \<Rightarrow> out" where
  "number_out e spec sg need_pfx is_zero tmp prec w st =
     (let lead = (\<not> has spec (F_ZEROPAD OR F_LEFT));
          w1 = (if lead then after_pad w else w);
          w2 = (if \<not> has spec F_LEFT then after_pad w1 else w1);
          st = only_if lead (pad e (asc CHR '' '') w) st;
          st = only_if (sg \<noteq> 0) (put e sg) st;
          st = only_if (need_pfx \<and> (pbase spec = 16 \<or> \<not> is_zero)) (put e (asc CHR ''0'')) st;
          st = only_if (need_pfx \<and> pbase spec = 16) (put e (asc CHR ''X'' OR (pflags spec AND F_SMALL))) st;
          st = only_if (\<not> has spec F_LEFT) (pad e (asc CHR '' '' + (pflags spec AND F_ZEROPAD)) w1) st;
          st = put_n e (asc CHR ''0'') (nat (prec - int (length tmp))) st;
          st = fold (put e) (rev tmp) st
      in pad e (asc CHR '' '') w2 st)"

definition number :: "nat \<Rightarrow> out \<Rightarrow> u64 \<Rightarrow> printf_spec \<Rightarrow> out" where
  "number e st num spec =
     (let need_pfx = (has spec F_SPECIAL \<and> pbase spec \<noteq> 10);
          is_zero = (num = 0);
          spec = (if has spec F_LEFT then spec\<lparr>pflags := pflags spec AND NOT F_ZEROPAD\<rparr> else spec);
          (sg, num, w) = number_sign num spec (field_width spec);
          w = (if need_pfx then
                 if pbase spec = 16 then w - 2 else if \<not> is_zero then w - 1 else w
               else w);
          tmp = num_tmp num spec;
          prec = (if int (length tmp) > precision spec then int (length tmp) else precision spec)
      in number_out e spec sg need_pfx is_zero tmp prec (w - prec) st)"

section \<open>Strings and pointers\<close>

definition move_right :: "bytes \<Rightarrow> nat \<Rightarrow> nat \<Rightarrow> nat \<Rightarrow> nat \<Rightarrow> bytes" where
  "move_right m buf e len spaces =
     (if buf \<ge> e then m
      else let sz = e - buf
           in if sz \<le> spaces then memset m buf 32 sz
              else let m = (if len \<noteq> 0 then
                              memmove m (buf + spaces) buf (if len > sz - spaces then sz - spaces else len)
                            else m)
                   in memset m buf 32 spaces)"

definition widen_string :: "nat \<Rightarrow> out \<Rightarrow> nat \<Rightarrow> printf_spec \<Rightarrow> out" where
  "widen_string e = (\<lambda>(m, buf) n spec.
     (if int n \<ge> field_width spec then (m, buf)
      else let spaces = nat (field_width spec - int n)
           in if \<not> has spec F_LEFT then (move_right m (buf - n) e n spaces, buf + spaces)
              else put_n e (asc CHR '' '') spaces (m, buf)))"

text \<open>A string is a literal of the source or lies in memory at some address.\<close>

datatype str_src = Lit "u8 list" | At nat

fun char_at :: "bytes \<Rightarrow> str_src \<Rightarrow> nat \<Rightarrow> u8" where
  "char_at m (Lit l) i = (if i < length l then l ! i else 0)"
| "char_at m (At p) i = m (p + i)"

text \<open>\<open>lim\<close> counts \<^verbatim>\<open>lim--\<close> down; an \<^verbatim>\<open>int\<close> of -1 allows \<open>2 ^ 32 - 1\<close> rounds.\<close>

fun string_loop :: "nat \<Rightarrow> nat \<Rightarrow> str_src \<Rightarrow> nat \<Rightarrow> out \<Rightarrow> nat \<times> out" where
  "string_loop e lim s len st =
     (if lim = 0 then (len, st)
      else let c = char_at (fst st) s len
           in if c = 0 then (len, st) else string_loop e (lim - 1) s (len + 1) (put e c st))"

declare string_loop.simps [simp del]

definition string_nocheck :: "nat \<Rightarrow> out \<Rightarrow> str_src \<Rightarrow> printf_spec \<Rightarrow> out" where
  "string_nocheck e st s spec =
     (let (len, st) = string_loop e (nat (precision spec mod 2 ^ 32)) s 0 st
      in widen_string e st len spec)"

definition error_string :: "nat \<Rightarrow> out \<Rightarrow> u8 list \<Rightarrow> printf_spec \<Rightarrow> out" where
  "error_string e st s spec =
     string_nocheck e st (Lit s) (if precision spec = -1 then set_prec (2 * 8) spec else spec)"

definition check_pointer_msg :: "u64 \<Rightarrow> u8 list option" where
  "check_pointer_msg ptr =
     (if ptr = 0 then Some (lit ''(null)'')
      else if ptr < PAGE_SIZE \<or> IS_ERR ptr then Some (lit ''(efault)'')
      else None)"

text \<open>\<^verbatim>\<open>check_pointer\<close> and \<^verbatim>\<open>string\<close>.\<close>

definition fmt_string :: "nat \<Rightarrow> out \<Rightarrow> u64 \<Rightarrow> printf_spec \<Rightarrow> out" where
  "fmt_string e st s spec =
     (case check_pointer_msg s of
        Some err_msg \<Rightarrow> error_string e st err_msg spec
      | None \<Rightarrow> string_nocheck e st (At (unat s)) spec)"

definition pointer_string :: "nat \<Rightarrow> out \<Rightarrow> u64 \<Rightarrow> printf_spec \<Rightarrow> out" where
  "pointer_string e st ptr spec =
     (let spec = add_flag F_SMALL (spec\<lparr>pbase := 16\<rparr>);
          spec = (if field_width spec = -1 then add_flag F_ZEROPAD (set_width (2 * 8) spec) else spec)
      in number e st ptr spec)"

definition err_ptr :: "nat \<Rightarrow> out \<Rightarrow> u64 \<Rightarrow> printf_spec \<Rightarrow> out" where
  "err_ptr e st ptr spec =
     (let err = sint (ucast ptr :: u32)
      in case errname err of
           Some nm \<Rightarrow> string_nocheck e st (Lit (lit nm)) spec
         | None \<Rightarrow> number e st (word_of_int err) (add_flag F_SIGN (spec\<lparr>pbase := 10\<rparr>)))"

definition pointer :: "u8 \<Rightarrow> nat \<Rightarrow> out \<Rightarrow> u64 \<Rightarrow> printf_spec \<Rightarrow> out" where
  "pointer c e st ptr spec =
     (if c = asc CHR ''e'' then
        if ptr = 0 then string_nocheck e st (Lit (lit ''success'')) spec
        else if \<not> IS_ERR ptr then pointer_string e st ptr spec
        else err_ptr e st ptr spec
      else pointer_string e st ptr spec)"

section \<open>Decoding the format\<close>

definition hd0 :: "u8 list \<Rightarrow> u8" where
  "hd0 s = (case s of [] \<Rightarrow> 0 | c # _ \<Rightarrow> c)"

fun skip_atoi :: "int \<Rightarrow> u8 list \<Rightarrow> int \<times> u8 list" where
  "skip_atoi i [] = (i, [])"
| "skip_atoi i (c # s) =
     (let i = sbits 32 (i * 10 + chr c - 48)
      in if isdigit (hd0 s) then skip_atoi i s else (i, s))"

fun decode_flags :: "u8 \<Rightarrow> u8 list \<Rightarrow> u8 \<times> u8 list" where
  "decode_flags fl [] = (fl, [])"
| "decode_flags fl (c # s) =
     (if c = asc CHR ''-'' then decode_flags (fl OR F_LEFT) s
      else if c = asc CHR ''+'' then decode_flags (fl OR F_PLUS) s
      else if c = asc CHR '' '' then decode_flags (fl OR F_SPACE) s
      else if c = asc CHR ''#'' then decode_flags (fl OR F_SPECIAL) s
      else if c = asc CHR ''0'' then decode_flags (fl OR F_ZEROPAD) s
      else (fl, c # s))"

text \<open>
  The parts of \<^verbatim>\<open>format_decode\<close> from its labels on; they return what is left of the
  format instead of how much was read.
\<close>

definition decode_conversion :: "u8 \<Rightarrow> u8 list \<Rightarrow> printf_spec \<Rightarrow> u8 list \<times> printf_spec" where
  "decode_conversion qualifier fmt spec =
     (let spec = spec\<lparr>pbase := 10\<rparr>; c = hd0 fmt;
          integer = (\<lambda>spec. (tl fmt, spec\<lparr>ptype :=
            (if qualifier = asc CHR ''L'' then FORMAT_TYPE_LONG_LONG
             else if qualifier = asc CHR ''l'' then (if has spec F_SIGN then FORMAT_TYPE_LONG else FORMAT_TYPE_ULONG)
             else if qualifier = asc CHR ''z'' then FORMAT_TYPE_SIZE_T
             else if qualifier = asc CHR ''t'' then FORMAT_TYPE_PTRDIFF
             else if qualifier = asc CHR ''H'' then (if has spec F_SIGN then FORMAT_TYPE_BYTE else FORMAT_TYPE_UBYTE)
             else if qualifier = asc CHR ''h'' then (if has spec F_SIGN then FORMAT_TYPE_SHORT else FORMAT_TYPE_USHORT)
             else if has spec F_SIGN then FORMAT_TYPE_INT else FORMAT_TYPE_UINT)\<rparr>))
      in if c = asc CHR ''c'' then (tl fmt, spec\<lparr>ptype := FORMAT_TYPE_CHAR\<rparr>)
         else if c = asc CHR ''s'' then (tl fmt, spec\<lparr>ptype := FORMAT_TYPE_STR\<rparr>)
         else if c = asc CHR ''p'' then (tl fmt, spec\<lparr>ptype := FORMAT_TYPE_PTR\<rparr>)
         else if c = asc CHR ''%'' then (tl fmt, spec\<lparr>ptype := FORMAT_TYPE_PERCENT_CHAR\<rparr>)
         else if c = asc CHR ''o'' then integer (spec\<lparr>pbase := 8\<rparr>)
         else if c = asc CHR ''x'' then integer (add_flag F_SMALL (spec\<lparr>pbase := 16\<rparr>))
         else if c = asc CHR ''X'' then integer (spec\<lparr>pbase := 16\<rparr>)
         else if c = asc CHR ''d'' \<or> c = asc CHR ''i'' then integer (add_flag F_SIGN spec)
         else if c = asc CHR ''u'' then integer spec
         else (fmt, spec\<lparr>ptype := FORMAT_TYPE_INVALID\<rparr>))"

definition decode_qualifier :: "u8 list \<Rightarrow> printf_spec \<Rightarrow> u8 list \<times> printf_spec" where
  "decode_qualifier fmt spec =
     (let c = hd0 fmt
      in if c = asc CHR ''h'' \<or> tolower c = asc CHR ''l'' \<or> c = asc CHR ''z'' \<or> c = asc CHR ''t'' then
           let fmt = tl fmt
           in if c = hd0 fmt \<and> c = asc CHR ''l'' then decode_conversion (asc CHR ''L'') (tl fmt) spec
              else if c = hd0 fmt \<and> c = asc CHR ''h'' then decode_conversion (asc CHR ''H'') (tl fmt) spec
              else decode_conversion c fmt spec
         else decode_conversion 0 fmt spec)"

definition decode_precision :: "u8 list \<Rightarrow> printf_spec \<Rightarrow> u8 list \<times> printf_spec" where
  "decode_precision fmt spec =
     (let spec = spec\<lparr>precision := -1\<rparr>
      in if hd0 fmt = asc CHR ''.'' then
           let fmt = tl fmt
           in if isdigit (hd0 fmt) then
                let (p, fmt) = skip_atoi 0 fmt; spec = set_prec p spec
                in decode_qualifier fmt (if precision spec < 0 then spec\<lparr>precision := 0\<rparr> else spec)
              else if hd0 fmt = asc CHR ''*'' then (tl fmt, spec\<lparr>ptype := FORMAT_TYPE_PRECISION\<rparr>)
              else decode_qualifier fmt spec
         else decode_qualifier fmt spec)"

definition format_decode :: "u8 list \<Rightarrow> printf_spec \<Rightarrow> u8 list \<times> printf_spec" where
  "format_decode fmt spec =
     (if ptype spec = FORMAT_TYPE_WIDTH then
        let spec = (if field_width spec < 0
                    then add_flag F_LEFT (set_width (- field_width spec) spec) else spec)
        in decode_precision fmt (spec\<lparr>ptype := FORMAT_TYPE_NONE\<rparr>)
      else if ptype spec = FORMAT_TYPE_PRECISION then
        let spec = (if precision spec < 0 then spec\<lparr>precision := 0\<rparr> else spec)
        in decode_qualifier fmt (spec\<lparr>ptype := FORMAT_TYPE_NONE\<rparr>)
      else
        let spec = spec\<lparr>ptype := FORMAT_TYPE_NONE\<rparr>; rest = dropWhile (\<lambda>c. c \<noteq> asc CHR ''%'') fmt
        in if length rest \<noteq> length fmt \<or> rest = [] then (rest, spec)
           else let (fl, fmt) = decode_flags 0 (tl rest);
                    spec = spec\<lparr>pflags := fl, field_width := -1\<rparr>
                in if isdigit (hd0 fmt) then
                     let (w, fmt) = skip_atoi 0 fmt in decode_precision fmt (set_width w spec)
                   else if hd0 fmt = asc CHR ''*'' then (tl fmt, spec\<lparr>ptype := FORMAT_TYPE_WIDTH\<rparr>)
                   else decode_precision fmt spec)"

definition FIELD_WIDTH_MAX :: int where "FIELD_WIDTH_MAX = 2 ^ 23 - 1"
definition PRECISION_MAX :: int where "PRECISION_MAX = 2 ^ 15 - 1"

definition set_field_width :: "int \<Rightarrow> printf_spec \<Rightarrow> printf_spec" where
  "set_field_width width spec =
     (let spec = set_width width spec
      in if field_width spec \<noteq> width
         then set_width (if width \<ge> FIELD_WIDTH_MAX then FIELD_WIDTH_MAX
                         else if width \<le> - FIELD_WIDTH_MAX then - FIELD_WIDTH_MAX else width) spec
         else spec)"

definition set_precision :: "int \<Rightarrow> printf_spec \<Rightarrow> printf_spec" where
  "set_precision prec spec =
     (let spec = set_prec prec spec
      in if precision spec \<noteq> prec
         then set_prec (if prec \<ge> PRECISION_MAX then PRECISION_MAX else if prec \<le> 0 then 0 else prec) spec
         else spec)"

section \<open>The main loop\<close>

text \<open>Reading more arguments than were passed is undefined in C; here it gives 0.\<close>

definition va_arg :: "u64 list \<Rightarrow> u64 \<times> u64 list" where
  "va_arg args = (case args of [] \<Rightarrow> (0, []) | a # as \<Rightarrow> (a, as))"

definition va_int :: "u64 \<Rightarrow> int" where
  "va_int a = sint (ucast a :: u32)"

definition emit_text :: "nat \<Rightarrow> u8 list \<Rightarrow> out \<Rightarrow> out" where
  "emit_text e txt = (\<lambda>(m, str).
     let copy = (if str < e then min (length txt) (e - str) else 0)
     in ((\<lambda>a. if str \<le> a \<and> a < str + copy then txt ! (a - str) else m a), str + length txt))"

text \<open>\<^verbatim>\<open>while (--spec.field_width > 0)\<close>.\<close>

definition pad_char :: "nat \<Rightarrow> int \<times> out \<Rightarrow> int \<times> out" where
  "pad_char e = (\<lambda>(w, st). (if w > 1 then 0 else sbits 24 (w - 1), put_n e (asc CHR '' '') (nat (w - 1)) st))"

definition fetch_num :: "printf_spec \<Rightarrow> u64 \<Rightarrow> u64" where
  "fetch_num spec a =
     (case ptype spec of
        FORMAT_TYPE_LONG_LONG \<Rightarrow> a
      | FORMAT_TYPE_ULONG \<Rightarrow> a
      | FORMAT_TYPE_LONG \<Rightarrow> a
      | FORMAT_TYPE_SIZE_T \<Rightarrow> a
      | FORMAT_TYPE_PTRDIFF \<Rightarrow> a
      | FORMAT_TYPE_UBYTE \<Rightarrow> ucast (ucast a :: u8)
      | FORMAT_TYPE_BYTE \<Rightarrow> scast (ucast a :: u8)
      | FORMAT_TYPE_USHORT \<Rightarrow> ucast (ucast a :: u16)
      | FORMAT_TYPE_SHORT \<Rightarrow> scast (ucast a :: u16)
      | FORMAT_TYPE_INT \<Rightarrow> scast (ucast a :: u32)
      | _ \<Rightarrow> ucast (ucast a :: u32))"

text \<open>One round of the loop; \<open>None\<close> leaves it.\<close>

definition vsnprintf_step :: "nat \<Rightarrow> u8 list \<Rightarrow> printf_spec \<Rightarrow> u64 list \<Rightarrow> out
    \<Rightarrow> (u8 list \<times> printf_spec \<times> u64 list \<times> out) option" where
  "vsnprintf_step e fmt spec args st =
     (let (rest, spec) = format_decode fmt spec;
          text = take (length fmt - length rest) fmt;
          (a, as) = va_arg args
      in case ptype spec of
           FORMAT_TYPE_NONE \<Rightarrow> Some (rest, spec, args, emit_text e text st)
         | FORMAT_TYPE_WIDTH \<Rightarrow> Some (rest, set_field_width (va_int a) spec, as, st)
         | FORMAT_TYPE_PRECISION \<Rightarrow> Some (rest, set_precision (va_int a) spec, as, st)
         | FORMAT_TYPE_CHAR \<Rightarrow>
             (let (w, st) = (if \<not> has spec F_LEFT then pad_char e (field_width spec, st) else (field_width spec, st));
                  st = put e (ucast a) st;
                  (w, st) = pad_char e (w, st)
              in Some (rest, spec\<lparr>field_width := w\<rparr>, as, st))
         | FORMAT_TYPE_STR \<Rightarrow> Some (rest, spec, as, fmt_string e st a spec)
         | FORMAT_TYPE_PTR \<Rightarrow> Some (dropWhile isalnum rest, spec, as, pointer (hd0 rest) e st a spec)
         | FORMAT_TYPE_PERCENT_CHAR \<Rightarrow> Some (rest, spec, args, put e (asc CHR ''%'') st)
         | FORMAT_TYPE_INVALID \<Rightarrow> None
         | _ \<Rightarrow> Some (rest, spec, as, number e st (fetch_num spec a) spec))"

text \<open>Every round consumes some of the format, so the loop ends.\<close>

lemma hd0_eqD: "hd0 fmt = c \<Longrightarrow> c \<noteq> 0 \<Longrightarrow> fmt \<noteq> []"
  by (auto simp: hd0_def)

lemma skip_atoi_shorter: "length (snd (skip_atoi i s)) \<le> length s"
  by (induction i s rule: skip_atoi.induct) (auto simp: Let_def)

lemma decode_flags_shorter: "length (snd (decode_flags fl s)) \<le> length s"
  by (induction fl s rule: decode_flags.induct) auto

definition shrinks :: "u8 list \<Rightarrow> u8 list \<times> printf_spec \<Rightarrow> bool" where
  "shrinks fmt r \<longleftrightarrow> length (fst r) < length fmt \<or> length (fst r) \<le> length fmt \<and> ptype (snd r) = FORMAT_TYPE_INVALID"

lemma shrinks_le: "shrinks fmt r \<Longrightarrow> length fmt \<le> length fmt' \<Longrightarrow> shrinks fmt' r"
  by (auto simp: shrinks_def)

lemma shrinks_tl: "fmt \<noteq> [] \<Longrightarrow> shrinks fmt (tl fmt, spec)"
  by (simp add: shrinks_def)

lemma decode_conversion_shrinks: "shrinks fmt (decode_conversion q fmt spec)"
proof (cases fmt)
  case Nil
  then show ?thesis by (simp add: decode_conversion_def hd0_def shrinks_def)
qed (simp add: decode_conversion_def shrinks_def Let_def)

lemma decode_qualifier_shrinks: "shrinks fmt (decode_qualifier fmt spec)"
proof -
  have "length (tl (tl fmt)) \<le> length fmt" "length (tl fmt) \<le> length fmt" by simp_all
  then show ?thesis
    unfolding decode_qualifier_def Let_def
    by (auto intro: shrinks_le [OF decode_conversion_shrinks])
qed

lemma decode_precision_shrinks: "shrinks fmt (decode_precision fmt spec)"
proof -
  have 1: "length (tl fmt) \<le> length fmt" by simp
  have 2: "length (snd (skip_atoi 0 (tl fmt))) \<le> length fmt"
    using skip_atoi_shorter [of 0 "tl fmt"] by simp
  have 3: "hd0 (tl fmt) = asc CHR ''*'' \<Longrightarrow> shrinks fmt (tl (tl fmt), sp)" for sp
    by (cases fmt) (auto simp: shrinks_def hd0_def)
  show ?thesis
    unfolding decode_precision_def Let_def case_prod_beta
    using 1 2 3 by (auto intro: shrinks_le [OF decode_qualifier_shrinks] simp del: of_char_Char)
qed

lemma format_decode_shrinks:
  assumes "fmt \<noteq> []"
  shows "shrinks fmt (format_decode fmt spec)"
proof -
  obtain rest where rest: "dropWhile (\<lambda>c. c \<noteq> asc CHR ''%'') fmt = rest" by blast
  have le: "length rest \<le> length fmt" using length_dropWhile_le rest by metis
  obtain fl fmt1 where f: "decode_flags 0 (tl rest) = (fl, fmt1)" by force
  obtain w fmt2 where a: "skip_atoi 0 fmt1 = (w, fmt2)" by force
  have l1: "length fmt1 \<le> length (tl rest)" using decode_flags_shorter [of 0 "tl rest"] f by simp
  have l2: "length fmt2 \<le> length fmt1" using skip_atoi_shorter [of 0 fmt1] a by simp
  show ?thesis
  proof (cases "length rest \<noteq> length fmt \<or> rest = []")
    case True
    then have "shrinks fmt (rest, sp)" for sp using le assms by (auto simp: shrinks_def)
    then show ?thesis using True unfolding format_decode_def Let_def rest
      by (simp add: decode_precision_shrinks decode_qualifier_shrinks)
  next
    case False
    have "shrinks fmt (tl fmt1, sp)" for sp using False l1 by (cases rest) (auto simp: shrinks_def)
    moreover have "length fmt2 \<le> length fmt" "length fmt1 \<le> length fmt" using l1 l2 le by simp_all
    ultimately show ?thesis using False unfolding format_decode_def Let_def rest f
      by (simp add: a decode_precision_shrinks decode_qualifier_shrinks shrinks_le [OF decode_precision_shrinks])
  qed
qed

lemma vsnprintf_step_shrinks:
  assumes "fmt \<noteq> []" and "vsnprintf_step e fmt spec args st = Some (fmt', r)"
  shows "length fmt' < length fmt"
proof -
  have "shrinks fmt (format_decode fmt spec)" by (rule format_decode_shrinks [OF assms(1)])
  moreover obtain rest spec' where fd: "format_decode fmt spec = (rest, spec')" by force
  moreover have "length fmt' \<le> length rest" "ptype spec' \<noteq> FORMAT_TYPE_INVALID"
    using assms(2) fd length_dropWhile_le [of isalnum rest]
    by (auto simp: vsnprintf_step_def Let_def split: format_type.splits prod.splits)
  ultimately show ?thesis by (auto simp: shrinks_def)
qed

function vsnprintf_loop :: "nat \<Rightarrow> u8 list \<Rightarrow> printf_spec \<Rightarrow> u64 list \<Rightarrow> out \<Rightarrow> out" where
  "vsnprintf_loop e fmt spec args st =
     (if fmt = [] then st
      else case vsnprintf_step e fmt spec args st of
             None \<Rightarrow> st
           | Some (fmt', spec', args', st') \<Rightarrow> vsnprintf_loop e fmt' spec' args' st')"
  by auto
termination
  by (relation "measure (\<lambda>(e, fmt, spec, args, st). length fmt)") (auto dest: vsnprintf_step_shrinks)

declare vsnprintf_loop.simps [simp del]

definition spec_zero :: printf_spec where
  "spec_zero = \<lparr> ptype = FORMAT_TYPE_NONE, field_width = 0, pflags = 0, pbase = 0, precision = 0 \<rparr>"

text \<open>The store and the return value; \<^verbatim>\<open>snprintf\<close> only collects its arguments.\<close>

definition vsnprintf :: "bytes \<Rightarrow> nat \<Rightarrow> nat \<Rightarrow> u8 list \<Rightarrow> u64 list \<Rightarrow> bytes \<times> int" where
  "vsnprintf m buf sz fmt args =
     (if sz > INT_MAX then (m, 0)
      else let (e, sz) = (if buf + sz \<ge> 2 ^ 64 then (2 ^ 64 - 1, 2 ^ 64 - 1 - buf) else (buf + sz, sz));
               (m, str) = vsnprintf_loop e fmt spec_zero args (m, buf);
               m = (if sz > 0 then if str < e then m(str := 0) else m(e - 1 := 0) else m)
           in (m, sbits 32 (int (str - buf))))"

definition snprintf :: "bytes \<Rightarrow> nat \<Rightarrow> nat \<Rightarrow> u8 list \<Rightarrow> u64 list \<Rightarrow> bytes \<times> int" where
  "snprintf m buf sz fmt args = vsnprintf m buf sz fmt args"

section \<open>Output stays inside the buffer\<close>

definition confined :: "nat \<Rightarrow> nat \<Rightarrow> bytes \<Rightarrow> out \<Rightarrow> bool" where
  "confined buf e m st \<longleftrightarrow> buf \<le> snd st \<and> (\<forall>a. a < buf \<or> e \<le> a \<longrightarrow> fst st a = m a)"

lemma confined_put: "confined buf e m st \<Longrightarrow> confined buf e m (put e c st)"
  by (cases st) (auto simp: confined_def put_def)

lemma confined_put_n: "confined buf e m st \<Longrightarrow> confined buf e m (put_n e c n st)"
  by (induction n arbitrary: st) (simp_all add: confined_put)

lemma confined_fold: "confined buf e m st \<Longrightarrow> confined buf e m (fold (put e) cs st)"
  by (induction cs arbitrary: st) (simp_all add: confined_put)

lemma confined_pad: "confined buf e m st \<Longrightarrow> confined buf e m (pad e c w st)"
  by (simp add: pad_def confined_put_n)

lemma confined_only_if:
  "confined buf e m st \<Longrightarrow> (\<And>st. confined buf e m st \<Longrightarrow> confined buf e m (f st)) \<Longrightarrow> confined buf e m (only_if b f st)"
  by (simp add: only_if_def)

lemma confined_pad_char: "confined buf e m st \<Longrightarrow> confined buf e m (snd (pad_char e (w, st)))"
  by (simp add: pad_char_def confined_put_n)

lemma confined_emit_text: "confined buf e m st \<Longrightarrow> confined buf e m (emit_text e txt st)"
  by (cases st) (auto simp: confined_def emit_text_def Let_def)

lemmas confined_basic = confined_only_if confined_put confined_put_n confined_fold confined_pad confined_pad_char confined_emit_text

lemma confined_number: "confined buf e m st \<Longrightarrow> confined buf e m (number e st num spec)"
  unfolding number_def number_out_def Let_def case_prod_beta
  by (intro confined_basic)

lemma move_right_outside: "a < buf \<or> e \<le> a \<Longrightarrow> move_right m buf e len spaces a = m a"
  by (auto simp: move_right_def Let_def memset_eq memmove_copied copied_def)

lemma confined_widen_string:
  assumes "confined buf e m st" and "buf + n \<le> snd st"
  shows "confined buf e m (widen_string e st n spec)"
proof (cases st)
  case (Pair m' p)
  then have "a < buf \<or> e \<le> a \<Longrightarrow> move_right m' (p - n) e n k a = m a" for a k
    using assms by (subst move_right_outside) (auto simp: confined_def)
  then have "confined buf e m (move_right m' (p - n) e n k, p + k)" for k
    using assms Pair by (simp add: confined_def)
  then show ?thesis using assms(1) Pair confined_put_n [of buf e m "(m', p)"]
    by (auto simp: widen_string_def Let_def)
qed

lemma string_loop_pos: "snd (snd (string_loop e lim s len st)) = snd st + (fst (string_loop e lim s len st) - len) \<and>
    len \<le> fst (string_loop e lim s len st)"
proof (induction e lim s len st rule: string_loop.induct)
  case (1 e lim s len st)
  have "snd (put e c st) = Suc (snd st)" for c by (cases st) (simp add: put_def)
  then show ?case using 1 by (subst (1 2 3) string_loop.simps) (auto simp: Let_def)
qed

lemma confined_string_loop:
  "confined buf e m st \<Longrightarrow> confined buf e m (snd (string_loop e lim s len st))"
proof (induction e lim s len st rule: string_loop.induct)
  case (1 e lim s len st)
  then show ?case by (subst string_loop.simps) (auto simp: Let_def confined_put)
qed

lemma confined_string_nocheck:
  assumes "confined buf e m st"
  shows "confined buf e m (string_nocheck e st s spec)"
proof -
  obtain len st' where l: "string_loop e (nat (precision spec mod 2 ^ 32)) s 0 st = (len, st')" by (rule prod.exhaust)
  have "confined buf e m st'" using confined_string_loop [OF assms] l by (metis snd_conv)
  moreover have "buf + len \<le> snd st'"
    using string_loop_pos [of e "nat (precision spec mod 2 ^ 32)" s 0 st] l assms by (simp add: confined_def)
  ultimately show ?thesis unfolding string_nocheck_def Let_def l by (simp add: confined_widen_string)
qed

lemma confined_strings:
  assumes "confined buf e m st"
  shows "confined buf e m (fmt_string e st s spec)" and "confined buf e m (pointer c e st p spec)"
  using assms
  by (auto simp: fmt_string_def error_string_def pointer_def pointer_string_def err_ptr_def Let_def
      split: option.splits intro!: confined_string_nocheck confined_number)

lemma confined_step:
  assumes "confined buf e m st" and "vsnprintf_step e fmt spec args st = Some (fmt', spec', args', st')"
  shows "confined buf e m st'"
proof -
  have ch: "confined buf e m (snd (pad_char e (w, put e c (snd (if b then pad_char e (v, st) else (v, st))))))" for w c v b
    using assms(1) by (auto intro!: confined_basic)
  show ?thesis
    using assms ch
    by (auto simp: vsnprintf_step_def Let_def case_prod_beta confined_number confined_strings confined_basic
        split: format_type.splits)
qed

lemma confined_loop:
  "confined buf e m st \<Longrightarrow> confined buf e m (vsnprintf_loop e fmt spec args st)"
proof (induction e fmt spec args st rule: vsnprintf_loop.induct)
  case (1 e fmt spec args st)
  then show ?case
    by (subst vsnprintf_loop.simps) (auto split: option.splits dest: confined_step)
qed

lemma confined_finish:
  assumes "vsnprintf_loop e fmt spec args (m, buf) = (m1, str)"
    and "m' = (if buf < e then if str < e then m1(str := 0) else m1(e - 1 := 0) else m1)"
  shows "(\<forall>a. a < buf \<or> e \<le> a \<longrightarrow> m' a = m a) \<and> (buf < e \<longrightarrow> (\<exists>a. buf \<le> a \<and> a < e \<and> m' a = 0))"
proof -
  have conf: "confined buf e m (m1, str)"
    using confined_loop [of buf e m "(m, buf)" fmt spec args] assms(1) by (simp add: confined_def)
  have "\<exists>a. buf \<le> a \<and> a < e \<and> m' a = 0" if "buf < e"
    using that conf assms(2)
    by (intro exI [of _ "if str < e then str else e - 1"]) (auto simp: confined_def)
  then show ?thesis using conf assms(2) by (auto simp: confined_def)
qed


section \<open>Digits\<close>

text \<open>The digits of a number to a base, least significant first: all of them, or \<open>k\<close> of them.\<close>

function digits_of :: "nat \<Rightarrow> nat \<Rightarrow> nat list" where
  "digits_of b n = (if n < b \<or> b < 2 then [n] else n mod b # digits_of b (n div b))"
  by auto
termination
  by (relation "measure (\<lambda>(b, n). n)") (auto intro!: div_less_dividend)

declare digits_of.simps [simp del]

fun low_digits :: "nat \<Rightarrow> nat \<Rightarrow> nat list" where
  "low_digits 0 n = []"
| "low_digits (Suc k) n = n mod 10 # low_digits k (n div 10)"

definition dchar :: "nat \<Rightarrow> u8" where
  "dchar d = of_nat (48 + d)"

lemma low_digits_add: "low_digits (j + k) n = low_digits j n @ low_digits k (n div 10 ^ j)"
  by (induction j arbitrary: n) (simp_all add: div_mult2_eq)

lemma low_digits_mod: "low_digits k (n mod 10 ^ k) = low_digits k n"
proof (induction k arbitrary: n)
  case (Suc k)
  have "n mod 10 ^ Suc k mod 10 = n mod 10" by (simp add: mod_mod_cancel)
  moreover have "n mod 10 ^ Suc k div 10 = n div 10 mod 10 ^ k"
    by (simp add: mod_mult2_eq)
  ultimately show ?case using Suc by simp
qed simp

lemma digits_of_low: "10 ^ k \<le> n \<Longrightarrow> digits_of 10 n = low_digits k n @ digits_of 10 (n div 10 ^ k)"
proof (induction k arbitrary: n)
  case (Suc k)
  have "10 \<le> n" using Suc.prems by (metis le_trans one_le_numeral one_le_power mult_le_mono2 mult.right_neutral power_Suc)
  then have "digits_of 10 n = n mod 10 # digits_of 10 (n div 10)" by (subst digits_of.simps) simp
  moreover have "10 ^ k \<le> n div 10" using Suc.prems by (simp add: less_eq_div_iff_mult_less_eq mult.commute)
  ultimately show ?case using Suc.IH [of "n div 10"] by (simp add: div_mult2_eq)
qed simp

lemma decpair_table:
  "list_all (\<lambda>x. le16 (decpair x) = [dchar (x mod 10), dchar (x div 10)]) [0 ..< 100]"
  by code_simp

lemma le16_decpair: "x < 100 \<Longrightarrow> le16 (decpair x) = map dchar (low_digits 2 x)"
  using decpair_table by (simp add: list_all_iff numeral_2_eq_2)

lemma div100_wide: "x < 100000000 \<Longrightarrow> (x * 0x28f5c29) div 2 ^ 32 = x div (100 :: nat)"
proof (rule div_nat_eqI)
  assume "x < 100000000"
  moreover obtain q r where x: "x = 100 * q + r" "r < 100" "q = x div 100"
    by (metis mod_less_divisor mult_div_mod_eq zero_less_numeral)
  ultimately have "q < 1000000" by linarith
  then show "2 ^ 32 * (x div 100) \<le> x * 0x28f5c29" "x * 0x28f5c29 < 2 ^ 32 * Suc (x div 100)"
    unfolding x(3) [symmetric] using x(1,2) by simp_all
qed

lemma div100_narrow: "x < 10000 \<Longrightarrow> (x * 0x147b) mod 2 ^ 32 div 2 ^ 19 = x div (100 :: nat)"
proof -
  assume "x < 10000"
  moreover obtain q r where x: "x = 100 * q + r" "r < 100" "q = x div 100"
    by (metis mod_less_divisor mult_div_mod_eq zero_less_numeral)
  ultimately have q: "q < 100" by linarith
  have "(x * 0x147b) div 2 ^ 19 = x div 100"
  proof (rule div_nat_eqI)
    show "2 ^ 19 * (x div 100) \<le> x * 0x147b" "x * 0x147b < 2 ^ 19 * Suc (x div 100)"
      unfolding x(3) [symmetric] using x(1,2) q by simp_all
  qed
  moreover have "x * 0x147b < 2 ^ 32" using \<open>x < 10000\<close> by simp
  ultimately show ?thesis by simp
qed

lemma rest100: "x - 100 * (x div 100) = x mod (100 :: nat)"
  by (simp add: minus_mult_div_eq_mod)

lemma pair_low: "le16 (decpair (x mod 100)) = map dchar (low_digits 2 x)"
proof -
  have "low_digits 2 (x mod 100) = low_digits 2 x" using low_digits_mod [of 2 x] by simp
  then show ?thesis using le16_decpair [of "x mod 100"] by simp
qed

lemma out_digits:
  "r < 100 \<Longrightarrow> (if r < 10 then take 1 (le16 (decpair r)) else le16 (decpair r)) = map dchar (digits_of 10 r)"
  by (auto simp: le16_decpair numeral_2_eq_2 digits_of.simps [of 10 r] digits_of.simps [of 10 "r div 10"])

lemma put_dec_full8_digits:
  assumes "r < 100000000"
  shows "put_dec_full8 r = map dchar (low_digits 8 r)"
proof -
  have l: "r div 100 < 100000000" "r div 100 div 100 < 10000" "r div 100 div 100 div 100 < 100"
    using assms by (simp_all add: div_less_iff_less_mult)
  have d: "(8 :: nat) = 2 + (2 + (2 + 2))" by simp
  have "low_digits 8 r = low_digits 2 r @ low_digits 2 (r div 100) @ low_digits 2 (r div 100 div 100) @
      low_digits 2 (r div 100 div 100 div 100)"
    unfolding d low_digits_add by simp
  then show ?thesis
    unfolding put_dec_full8_def Let_def div100_wide [OF assms] div100_wide [OF l(1)] div100_narrow [OF l(2)]
    by (simp add: rest100 pair_low le16_decpair [OF l(3)])
qed

lemma put_dec_trunc8_digits:
  assumes "r < 100000000"
  shows "put_dec_trunc8 r = map dchar (digits_of 10 r)"
proof -
  have l: "r div 100 < 100000000" "r div 100 div 100 < 10000" "r div 100 div 100 div 100 < 100"
    using assms by (simp_all add: div_less_iff_less_mult)
  have low: "100 \<le> n \<Longrightarrow> digits_of 10 n = low_digits 2 n @ digits_of 10 (n div 100)" for n
    using digits_of_low [of 2 n] by simp
  show ?thesis
    unfolding put_dec_trunc8_def Let_def div100_wide [OF assms] div100_wide [OF l(1)] div100_narrow [OF l(2)]
    using l(3) by (simp add: rest100 pair_low out_digits low not_less)
qed

lemma put_dec_digits:
  assumes "n < 2 ^ 64"
  shows "put_dec n = map dchar (digits_of 10 n)"
proof -
  have l: "n div 100000000 div 100000000 < 100000000" using assms by (simp add: div_less_iff_less_mult)
  have low: "100000000 \<le> k \<Longrightarrow> digits_of 10 k = low_digits 8 k @ digits_of 10 (k div 100000000)" for k
    using digits_of_low [of 8 k] by simp
  have full: "put_dec_full8 (k mod 100000000) = map dchar (low_digits 8 k)" for k
    using put_dec_full8_digits [of "k mod 100000000"] low_digits_mod [of 8 k] by simp
  show ?thesis
    unfolding put_dec_def Let_def using l by (simp add: full low put_dec_trunc8_digits)
qed

section \<open>Printing and parsing\<close>

definition hexch :: "u8 \<Rightarrow> nat \<Rightarrow> u8" where
  "hexch lc d = hex_asc_upper ! d OR lc"

lemma small_flag: "w AND F_SMALL = 0 \<or> w AND F_SMALL = 32"
proof -
  have e: "(32 :: u8) = 2 ^ 5" by simp
  have b: "bit (32 :: u8) n \<longleftrightarrow> n = 5" for n unfolding e bit_exp_iff by auto
  have "w AND 32 = (if bit w 5 then 32 else 0)"
  proof (rule bit_eqI)
    fix n
    show "bit (w AND 32) n = bit (if bit w 5 then 32 else 0 :: u8) n"
      by (cases "bit w 5") (simp_all only: bit_and_iff b if_True if_False bit_0_eq bot_apply bot_bool_def, auto)
  qed
  then show ?thesis by (auto simp: F_SMALL_def)
qed

lemma hexch_table:
  "list_all (\<lambda>d. hexch 0 d \<noteq> 0 \<and> hexch 32 d \<noteq> 0 \<and>
     digit_val (hexch 0 d) = Some d \<and> digit_val (hexch 32 d) = Some d \<and>
     tolower (hexch 0 d) \<noteq> asc CHR ''x'' \<and> tolower (hexch 32 d) \<noteq> asc CHR ''x'') [0 ..< 16]"
  "list_all (\<lambda>d. hexch 0 d = dchar d \<and> hexch 32 d = dchar d) [0 ..< 10]"
  by code_simp+

lemma hexch_digit:
  assumes "d < 16" and "lc = 0 \<or> lc = 32"
  shows "hexch lc d \<noteq> 0" and "digit_val (hexch lc d) = Some d" and "tolower (hexch lc d) \<noteq> asc CHR ''x''"
  using hexch_table(1) assms by (auto simp: list_all_iff simp del: of_char_Char)

lemma hexch_decimal: "d < 10 \<Longrightarrow> lc = 0 \<or> lc = 32 \<Longrightarrow> hexch lc d = dchar d"
  using hexch_table(2) by (auto simp: list_all_iff)

lemma digits_of_bound: "2 \<le> b \<Longrightarrow> d \<in> set (digits_of b n) \<Longrightarrow> d < b"
proof (induction b n rule: digits_of.induct)
  case (1 b n)
  show ?case
  proof (cases "n < b")
    case True
    then show ?thesis using "1.prems" by (simp add: digits_of.simps [of b n])
  next
    case False
    then have "d = n mod b \<or> d \<in> set (digits_of b (n div b))"
      using "1.prems" by (simp add: digits_of.simps [of b n])
    then show ?thesis using "1.IH" "1.prems" False by auto
  qed
qed

lemma digits_of_val: "2 \<le> b \<Longrightarrow> num_val b 0 (rev (digits_of b n)) = n"
proof (induction b n rule: digits_of.induct)
  case (1 b n)
  then show ?case by (subst digits_of.simps) (auto simp: div_mult_mod_eq)
qed

lemma digits_of_length: "2 \<le> b \<Longrightarrow> n < b ^ Suc k \<Longrightarrow> length (digits_of b n) \<le> Suc k"
proof (induction k arbitrary: n)
  case (Suc k)
  have "n div b < b ^ Suc k" using Suc.prems by (simp add: div_less_iff_less_mult mult.commute)
  then show ?case using Suc.IH [of "n div b"] Suc.prems by (subst digits_of.simps) auto
qed (simp add: digits_of.simps)

lemma pow2_digits_eq:
  assumes "base = 8 \<or> base = 16"
  shows "pow2_digits base lc n = map (hexch lc) (digits_of base n)"
proof (induction n rule: less_induct)
  case (less n)
  have m: "(n mod 256) AND (base - 1) = n mod base"
  proof -
    have "(x :: nat) AND 7 = x mod 8" "x AND 15 = x mod 16" for x
      using take_bit_eq_mask [of 3 x] take_bit_eq_mask [of 4 x] by (simp_all add: take_bit_eq_mod mask_eq_exp_minus_1)
    then show ?thesis using assms mod_mod_cancel [of 8 256 n] mod_mod_cancel [of 16 256 n] by auto
  qed
  have sh: "2 ^ (if base = 16 then 4 else 3) = base" using assms by auto
  have "pow2_digits base lc n = (if n div base = 0 then [hexch lc (n mod base)]
      else hexch lc (n mod base) # pow2_digits base lc (n div base))"
    by (subst pow2_digits.simps) (simp only: Let_def m sh hexch_def)
  moreover have "n div base \<noteq> 0 \<Longrightarrow> pow2_digits base lc (n div base) = map (hexch lc) (digits_of base (n div base))"
    using assms by (intro less.IH) auto
  ultimately show ?case using assms
    by (subst digits_of.simps) (auto simp: div_eq_0_iff)
qed

lemma num_tmp_digits:
  assumes "pbase spec = 8 \<or> pbase spec = 10 \<or> pbase spec = 16"
  shows "num_tmp num spec = map (hexch (pflags spec AND F_SMALL)) (digits_of (pbase spec) (unat num))"
proof -
  let ?lc = "pflags spec AND F_SMALL"
  have dec: "map (hexch ?lc) (digits_of 10 n) = map dchar (digits_of 10 n)" for n
    using hexch_decimal [OF digits_of_bound [of 10]] small_flag by simp
  have one: "unat num < pbase spec \<Longrightarrow> digits_of (pbase spec) (unat num) = [unat num]"
    by (simp add: digits_of.simps)
  have "unat num < 2 ^ 64" using unat_lt2p [of num] by simp
  then show ?thesis
    using assms one dec by (auto simp: num_tmp_def Let_def hexch_def pow2_digits_eq put_dec_digits)
qed

lemma fold_put:
  "buf + length cs \<le> e \<Longrightarrow> fold (put e) cs (m, buf) =
     ((\<lambda>a. if buf \<le> a \<and> a < buf + length cs then cs ! (a - buf) else m a), buf + length cs)"
proof (induction cs arbitrary: m buf)
  case (Cons c cs)
  have "fold (put e) cs (m(buf := c), buf + 1) =
      ((\<lambda>a. if buf + 1 \<le> a \<and> a < buf + 1 + length cs then cs ! (a - (buf + 1)) else (m(buf := c)) a), buf + 1 + length cs)"
    using Cons.prems by (intro Cons.IH) simp
  moreover have "put e c (m, buf) = (m(buf := c), buf + 1)" using Cons.prems by (simp add: put_def)
  ultimately show ?case by (auto simp: nth_Cons' fun_eq_iff)
qed (auto simp: fun_eq_iff)

text \<open>A specification without flags that matter, width or precision prints just the digits.\<close>

lemma number_plain:
  assumes "pflags spec = 0 \<or> pflags spec = F_SMALL" "field_width spec = -1" "precision spec = -1"
  shows "number e st num spec = fold (put e) (rev (num_tmp num spec)) st"
proof -
  have f: "\<not> has spec F_SIGN" "\<not> has spec F_LEFT" "\<not> has spec F_SPECIAL" "pflags spec AND F_ZEROPAD = 0"
    "\<not> has spec (F_ZEROPAD OR F_LEFT)"
    using assms(1) by (auto simp: flag_defs)
  have "number_sign num spec (-1) = (0, num, -1)" using f by (simp add: number_sign_def)
  then have "number e st num spec = number_out e spec 0 False (num = 0) (num_tmp num spec)
      (int (length (num_tmp num spec))) (-1 - int (length (num_tmp num spec))) st"
    using f assms by (simp add: number_def Let_def)
  then show ?thesis using f by (simp add: number_out_def only_if_def pad_def after_pad_def)
qed

lemma cstr_hexch_digits:
  assumes "lc = 0 \<or> lc = 32" and "b \<le> 16"
  shows "\<forall>d \<in> set ds. d < b \<Longrightarrow> cstr m p (map (hexch lc) ds) \<Longrightarrow> digits_at m p b ds"
proof (induction ds arbitrary: p)
  case Nil
  then show ?case by (simp add: digit_val_def)
next
  case (Cons d ds)
  then show ?case using hexch_digit(2) [of d lc] assms by simp
qed

lemma hexch_no_prefix:
  assumes "lc = 0 \<or> lc = 32" and "\<forall>d \<in> set ds. d < 16" and "cstr m p (map (hexch lc) ds)" and "b \<noteq> 0"
  shows "parse_integer_fixup_radix m p b = (p + 0, b)"
proof -
  have "tolower (m (p + 1)) \<noteq> asc CHR ''x''" if "m p \<noteq> 0"
  proof (cases ds)
    case (Cons d ds')
    show ?thesis
    proof (cases ds')
      case (Cons d' ds'')
      then show ?thesis using assms \<open>ds = d # ds'\<close> hexch_digit(3) [of d' lc] by simp
    qed (use assms(3) Cons in \<open>simp add: tolower_def\<close>)
  qed (use assms(3) that in simp)
  then show ?thesis using assms(4) by (auto simp: parse_integer_fixup_radix_def simp del: of_char_Char) simp
qed

definition int_conv :: "u8 \<Rightarrow> nat \<Rightarrow> bool" where
  "int_conv c b \<longleftrightarrow> c = asc CHR ''u'' \<and> b = 10 \<or> c = asc CHR ''x'' \<and> b = 16
     \<or> c = asc CHR ''X'' \<and> b = 16 \<or> c = asc CHR ''o'' \<and> b = 8"

lemma decode_long:
  assumes "int_conv c b"
  obtains fl where "format_decode (lit ''%l'' @ [c]) spec_zero =
      ([], \<lparr> ptype = FORMAT_TYPE_ULONG, field_width = -1, pflags = fl, pbase = b, precision = -1 \<rparr>)"
    "fl = 0 \<or> fl = F_SMALL"
proof
  show "(if c = asc CHR ''x'' then F_SMALL else 0) = 0 \<or> (if c = asc CHR ''x'' then F_SMALL else 0) = F_SMALL" by simp
  show "format_decode (lit ''%l'' @ [c]) spec_zero =
      ([], \<lparr> ptype = FORMAT_TYPE_ULONG, field_width = -1, pflags = if c = asc CHR ''x'' then F_SMALL else 0, pbase = b, precision = -1 \<rparr>)"
    using assms
    by (auto simp: int_conv_def format_decode_def decode_precision_def decode_qualifier_def
        decode_conversion_def spec_zero_def hd0_def isdigit_def tolower_def flag_defs)
qed

text \<open>Printing one long argument: the digits and a NUL.\<close>

lemma vsnprintf_long:
  assumes "int_conv c b" and "length (digits_of b (unat n)) < sz" and "sz \<le> INT_MAX" and "buf + sz < 2 ^ 64"
  obtains m' lc where "vsnprintf m buf sz (lit ''%l'' @ [c]) [n] = (m', int (length (digits_of b (unat n))))"
    "cstr m' buf (map (hexch lc) (rev (digits_of b (unat n))))" "lc = 0 \<or> lc = 32"
proof -
  obtain fl where fd: "format_decode (lit ''%l'' @ [c]) spec_zero =
      ([], \<lparr> ptype = FORMAT_TYPE_ULONG, field_width = -1, pflags = fl, pbase = b, precision = -1 \<rparr>)"
    "fl = 0 \<or> fl = F_SMALL" using decode_long [OF assms(1)] by blast
  let ?spec = "\<lparr> ptype = FORMAT_TYPE_ULONG, field_width = -1, pflags = fl, pbase = b, precision = -1 \<rparr>"
  define lc where "lc = fl AND F_SMALL"
  have lc: "lc = 0 \<or> lc = 32" unfolding lc_def by (rule small_flag)
  define cs where "cs = map (hexch lc) (rev (digits_of b (unat n)))"
  have b: "b = 8 \<or> b = 10 \<or> b = 16" using assms(1) by (auto simp: int_conv_def)
  have tmp: "rev (num_tmp n ?spec) = cs" using num_tmp_digits [of ?spec n] b by (simp add: cs_def lc_def rev_map)
  have num: "number (buf + sz) (m, buf) n ?spec = fold (put (buf + sz)) cs (m, buf)"
    using number_plain [of ?spec] fd(2) tmp by simp
  have len: "length cs = length (digits_of b (unat n))" by (simp add: cs_def)
  define m1 where "m1 = (\<lambda>a. if buf \<le> a \<and> a < buf + length cs then cs ! (a - buf) else m a)"
  have fold: "fold (put (buf + sz)) cs (m, buf) = (m1, buf + length cs)"
    unfolding m1_def by (rule fold_put) (use assms(2) len in simp)
  have "vsnprintf_step (buf + sz) (lit ''%l'' @ [c]) spec_zero [n] (m, buf) = Some ([], ?spec, [], m1, buf + length cs)"
    unfolding vsnprintf_step_def fd(1) by (simp add: va_arg_def fetch_num_def num fold)
  then have loop: "vsnprintf_loop (buf + sz) (lit ''%l'' @ [c]) spec_zero [n] (m, buf) = (m1, buf + length cs)"
    by (subst vsnprintf_loop.simps) (simp add: vsnprintf_loop.simps del: of_char_Char)
  have small: "sbits 32 (int (length cs)) = int (length cs)"
    using assms(2,3) len by (simp add: sbits_def INT_MAX_def)
  have v: "vsnprintf m buf sz (lit ''%l'' @ [c]) [n] = (m1(buf + length cs := 0), int (length cs))"
    using assms loop len small unfolding vsnprintf_def by (simp del: of_char_Char)
  have "d < 16" if "d \<in> set (digits_of b (unat n))" for d
    using digits_of_bound [OF _ that] b by auto
  then have "0 \<notin> set cs" using hexch_digit(1) [OF _ lc] unfolding cs_def by force
  then have "cstr (m1(buf + length cs := 0)) buf cs" by (simp add: cstr_iff m1_def)
  then show thesis using that v lc len unfolding cs_def by simp
qed

text \<open>
  C32. What is printed can be read back: a 64-bit number printed with \<^verbatim>\<open>%lu\<close>, \<^verbatim>\<open>%lx\<close>,
  \<^verbatim>\<open>%lX\<close> or \<^verbatim>\<open>%lo\<close> into a large enough buffer is returned by \<^verbatim>\<open>strtoull\<close> in that base,
  which stops right behind the last digit; the return value counts the digits.
\<close>

theorem print_parse_roundtrip:
  assumes "c = asc CHR ''u'' \<and> b = 10 \<or> c = asc CHR ''x'' \<and> b = 16 \<or> c = asc CHR ''X'' \<and> b = 16
      \<or> c = asc CHR ''o'' \<and> b = 8"
    and "22 < sz" and "sz \<le> INT_MAX" and "buf + sz < 2 ^ 64"
  shows "\<exists>m' ret. vsnprintf m buf sz (lit ''%l'' @ [c]) [n] = (m', int ret) \<and>
    strtoull m' buf b = (n, buf + ret) \<and> 0 < ret \<and> ret \<le> 22"
proof -
  have c: "int_conv c b" using assms(1) by (simp add: int_conv_def)
  have b: "b = 8 \<or> b = 10 \<or> b = 16" using assms(1) by auto
  let ?ds = "digits_of b (unat n)"
  have n: "unat n < 2 ^ 64" using unat_lt2p [of n] by simp
  have "(2 :: nat) ^ 64 \<le> b ^ Suc 21" using b by (elim disjE) simp_all
  with n have "unat n < b ^ Suc 21" by (rule less_le_trans)
  moreover have "2 \<le> b" using b by auto
  ultimately have len: "length ?ds \<le> 22" using digits_of_length [of b "unat n" 21] by simp
  have pos: "0 < length ?ds" by (subst digits_of.simps) simp
  have "length ?ds < sz" using len assms(2) by simp
  then obtain m' lc where v: "vsnprintf m buf sz (lit ''%l'' @ [c]) [n] = (m', int (length ?ds))"
    "cstr m' buf (map (hexch lc) (rev ?ds))" "lc = 0 \<or> lc = 32"
    by (rule vsnprintf_long [OF c _ assms(3,4)])
  have lt: "\<forall>d \<in> set (rev ?ds). d < b" using digits_of_bound [OF \<open>2 \<le> b\<close>] by simp
  have b16: "b \<le> 16" "b \<noteq> 0" using b by auto
  have "\<forall>d \<in> set (rev ?ds). d < 16" using lt b16(1) by fastforce
  note pre = hexch_no_prefix [OF v(3) this v(2) b16(2)]
  have "digits_at m' (buf + 0) b (rev ?ds)" using cstr_hexch_digits [OF v(3) b16(1) lt v(2)] by simp
  from strtoull_digits [OF pre this] len
  have "strtoull m' buf b = (of_nat (num_val b 0 (rev ?ds)), buf + length ?ds)" by (simp add: INT_MAX_def)
  then have "strtoull m' buf b = (n, buf + length ?ds)" unfolding digits_of_val [OF \<open>2 \<le> b\<close>] by simp
  then show ?thesis using v(1) len pos by blast
qed

theorem print_parse_roundtrip_witness:
  "\<exists>m' ret. vsnprintf (\<lambda>_. 0) 4096 64 (lit ''%l'' @ [asc CHR ''x'']) [0xdeadbeef] = (m', int ret) \<and>
     strtoull m' 4096 16 = (0xdeadbeef, 4096 + ret)"
  using print_parse_roundtrip [of "asc CHR ''x''" 16 64 4096 "\<lambda>_. 0" "0xdeadbeef"]
  by (auto simp: INT_MAX_def)


text \<open>
  C33. The optimised decimal conversion (two digits per table lookup, division by 100 as a
  multiplication and a shift, eight digits per 64-bit division) emits, for every 64-bit
  number, exactly the digits that repeated division by ten gives, and no leading zero.
\<close>

theorem put_dec_reference:
  "put_dec (unat (n :: u64)) = map (\<lambda>d. of_nat (48 + d)) (digits_of 10 (unat n)) \<and>
   (n \<noteq> 0 \<longleftrightarrow> last (digits_of 10 (unat n)) \<noteq> 0)"
proof -
  have "last (digits_of 10 k) = 0 \<longleftrightarrow> k = 0" for k
  proof (induction k rule: less_induct)
    case (less k)
    have ne: "digits_of 10 j \<noteq> []" for j by (subst digits_of.simps) simp
    show ?case
    proof (cases "k < 10")
      case False
      then have "last (digits_of 10 (k div 10)) = 0 \<longleftrightarrow> k div 10 = 0" by (intro less.IH) simp
      then show ?thesis using False ne by (subst digits_of.simps) auto
    qed (simp add: digits_of.simps)
  qed
  moreover have "unat n < 2 ^ 64" using unat_lt2p [of n] by simp
  ultimately show ?thesis by (simp add: put_dec_digits dchar_def unat_eq_0)
qed

end
