(* ===== verification/Salloc.thy ===== *)
theory Salloc
  imports Prelude Errno Cstring
begin

text \<open>
  The chunk allocator of \<^verbatim>\<open>common/src/salloc.c\<close>, shared by the kernel heap and the C
  library. Memory is an explicit store: \<open>hmem\<close> gives the \<^verbatim>\<open>struct memchunk\<close> at each
  address, whatever lies there. Addresses and sizes (64-bit) are \<open>nat\<close> and every
  operation of the source that can wrap is written with its \<open>mod\<close>; flags are 32-bit
  words. The loops follow pointers found in memory, so a damaged heap can make them run
  forever: they are partial functions, and that they return on an intact heap is proved.
\<close>

section \<open>Model\<close>

definition wrap64 :: "nat \<Rightarrow> nat" where
  "wrap64 n = n mod 2 ^ 64"

definition CANARY1 :: u32 where "CANARY1 = 0xdeadbeef"
definition CANARY2 :: u32 where "CANARY2 = 0xf00bf00b"

definition MEMCHUNK_FLAG_LAST :: u32 where "MEMCHUNK_FLAG_LAST = 0x1"
definition MEMCHUNK_FLAG_USED :: u32 where "MEMCHUNK_FLAG_USED = 0x2"

record memchunk =
  canary1 :: u32
  before :: nat
  csize :: nat
  flags :: u32
  canary2 :: u32

type_synonym hmem = "nat \<Rightarrow> memchunk"

text \<open>On rv64 the structure takes 32 bytes; the null pointer is 0.\<close>

abbreviation HDR :: nat where "HDR \<equiv> 32"

abbreviation is_used :: "memchunk \<Rightarrow> bool" where
  "is_used c \<equiv> flags c AND MEMCHUNK_FLAG_USED \<noteq> 0"

abbreviation is_last :: "memchunk \<Rightarrow> bool" where
  "is_last c \<equiv> flags c AND MEMCHUNK_FLAG_LAST \<noteq> 0"

definition salloc_err_str :: "errno option \<Rightarrow> string" where
  "salloc_err_str err =
     (case err of
        Some EINVAL \<Rightarrow> ''corrupted heap structures''
      | Some EMSGSIZE \<Rightarrow> ''size mismatch''
      | Some EAGAIN \<Rightarrow> ''potential double free''
      | None \<Rightarrow> ''success''
      | _ \<Rightarrow> ''Unknown'')"

definition check_chunk :: "memchunk \<Rightarrow> bool" where
  "check_chunk c \<longleftrightarrow> \<not> (canary1 c \<noteq> CANARY1 \<or> canary2 c \<noteq> CANARY2)"

definition set_chunk :: "hmem \<Rightarrow> nat \<Rightarrow> nat \<Rightarrow> nat \<Rightarrow> u32 \<Rightarrow> hmem" where
  "set_chunk h m bef sz fl =
     h(m := \<lparr> canary1 = CANARY1, before = bef, csize = sz, flags = fl, canary2 = CANARY2 \<rparr>)"

definition zero_chunk :: memchunk where
  "zero_chunk = \<lparr> canary1 = 0, before = 0, csize = 0, flags = 0, canary2 = 0 \<rparr>"

definition next_chunk :: "hmem \<Rightarrow> nat \<Rightarrow> nat" where
  "next_chunk h this = (if is_last (h this) then 0 else wrap64 (this + HDR + csize (h this)))"

definition chunk_data :: "nat \<Rightarrow> nat" where
  "chunk_data m = wrap64 (m + HDR)"

definition chunk_of :: "nat \<Rightarrow> nat" where
  "chunk_of ptr = nat ((int ptr - int HDR) mod 2 ^ 64)"

definition salloc_init :: "hmem \<Rightarrow> nat \<Rightarrow> nat \<Rightarrow> hmem \<times> errno option" where
  "salloc_init h base sz =
     (if sz < 1024 then (h, Some ENOMEM)
      else (set_chunk h base 0 (sz - HDR) MEMCHUNK_FLAG_LAST, None))"

definition ALIGN4 :: "nat \<Rightarrow> nat" where
  "ALIGN4 sz = wrap64 (sz + 3) - wrap64 (sz + 3) mod 4"

text \<open>The search: a chunk that fits, the missing size, or a damaged chunk.\<close>

datatype walk = Fits nat | Missing nat | Damaged

partial_function (option) alloc_walk :: "hmem \<Rightarrow> nat \<Rightarrow> nat \<Rightarrow> walk option" where
  "alloc_walk h sz this =
     (if \<not> check_chunk (h this) then Some Damaged
      else if is_used (h this) \<or> csize (h this) < sz then
        (if next_chunk h this \<noteq> 0 then alloc_walk h sz (next_chunk h this)
         else Some (Missing (if is_used (h this) then wrap64 (HDR + sz) else sz - csize (h this))))
      else Some (Fits this))"

text \<open>The tail of the loop body: mark the chunk used and split off what is left.\<close>

definition take_chunk :: "hmem \<Rightarrow> nat \<Rightarrow> nat \<Rightarrow> hmem \<times> errno option" where
  "take_chunk h sz this =
     (let h = h(this := (h this)\<lparr>flags := flags (h this) OR MEMCHUNK_FLAG_USED\<rparr>)
      in if csize (h this) > wrap64 (sz + HDR) then
           let other = wrap64 (chunk_data this + sz);
               remaining = nat ((int (csize (h this)) - int sz - int HDR) mod 2 ^ 32)
           in if is_last (h this) then
                let h = h(this := (h this)\<lparr>flags := flags (h this) AND NOT MEMCHUNK_FLAG_LAST\<rparr>);
                    h = set_chunk h other this remaining MEMCHUNK_FLAG_LAST
                in (h(this := (h this)\<lparr>csize := sz\<rparr>), None)
              else let tmp = next_chunk h this
                   in if tmp = 0 then (h, Some EINVAL)
                      else if \<not> check_chunk (h tmp) then (h, Some EINVAL)
                      else let h = h(tmp := (h tmp)\<lparr>before := other\<rparr>);
                               h = set_chunk h other this remaining 0
                           in (h(this := (h this)\<lparr>csize := sz\<rparr>), None)
         else (h, None))"

datatype salloc_res = Allocated hmem nat | NoMemory nat | Failed hmem errno

definition salloc_alloc :: "hmem \<Rightarrow> nat \<Rightarrow> nat \<Rightarrow> salloc_res option" where
  "salloc_alloc h base sz =
     (case alloc_walk h (ALIGN4 sz) base of
        None \<Rightarrow> None
      | Some Damaged \<Rightarrow> Some (Failed h EINVAL)
      | Some (Missing inc) \<Rightarrow> Some (NoMemory inc)
      | Some (Fits this) \<Rightarrow>
          Some (case take_chunk h (ALIGN4 sz) this of
                  (h, None) \<Rightarrow> Allocated h (chunk_data this)
                | (h, Some e) \<Rightarrow> Failed h e))"

text \<open>The walk to the last chunk; \<open>Some (Inl ())\<close> is a damaged chunk on the way.\<close>

partial_function (option) last_chunk :: "hmem \<Rightarrow> nat \<Rightarrow> (unit + nat) option" where
  "last_chunk h this =
     (if \<not> check_chunk (h this) then Some (Inl ())
      else if next_chunk h this = 0 then Some (Inr this)
      else last_chunk h (next_chunk h this))"

definition salloc_increase :: "hmem \<Rightarrow> nat \<Rightarrow> nat \<Rightarrow> (hmem \<times> errno option) option" where
  "salloc_increase h base increase =
     (case last_chunk h base of
        None \<Rightarrow> None
      | Some (Inl _) \<Rightarrow> Some (h, Some EINVAL)
      | Some (Inr this) \<Rightarrow>
          if is_used (h this) then
            let h = h(this := (h this)\<lparr>flags := flags (h this) AND NOT MEMCHUNK_FLAG_LAST\<rparr>)
            in Some (set_chunk h (next_chunk h this) this
                       (nat ((int increase - int HDR) mod 2 ^ 64)) MEMCHUNK_FLAG_LAST, None)
          else Some (h(this := (h this)\<lparr>csize := wrap64 (csize (h this) + increase)\<rparr>), None))"

definition free_merge_before :: "hmem \<Rightarrow> nat \<Rightarrow> nat \<Rightarrow> nat \<Rightarrow> hmem \<times> nat" where
  "free_merge_before h m bef after =
     (if bef \<noteq> 0 \<and> \<not> is_used (h bef) then
        let h = h(bef := (h bef)\<lparr>csize := wrap64 (csize (h bef) + HDR + csize (h m))\<rparr>);
            h = (if after \<noteq> 0 then h(after := (h after)\<lparr>before := bef\<rparr>) else h)
        in (h(m := zero_chunk), bef)
      else (h, m))"

definition free_merge_after :: "hmem \<Rightarrow> nat \<Rightarrow> nat \<Rightarrow> hmem \<times> errno option" where
  "free_merge_after h m after =
     (if after \<noteq> 0 \<and> \<not> is_used (h after) then
        let tmp = next_chunk h after
        in if tmp \<noteq> 0 \<and> \<not> check_chunk (h tmp) then (h, Some EINVAL)
           else let h = (if tmp \<noteq> 0 then h(tmp := (h tmp)\<lparr>before := m\<rparr>) else h);
                    h = h(m := (h m)\<lparr>csize := wrap64 (csize (h m) + HDR + csize (h after))\<rparr>);
                    h = h(m := (h m)\<lparr>flags := flags (h after)\<rparr>)
                in (h(after := zero_chunk), None)
      else (h, None))"

definition salloc_free :: "hmem \<Rightarrow> nat \<Rightarrow> hmem \<times> errno option" where
  "salloc_free h ptr =
     (let m = chunk_of ptr
      in if \<not> check_chunk (h m) then (h, Some EINVAL)
         else if \<not> is_used (h m) then (h, Some EAGAIN)
         else let h = h(m := (h m)\<lparr>flags := flags (h m) AND NOT MEMCHUNK_FLAG_USED\<rparr>);
                  bef = before (h m);
                  after = next_chunk h m
              in if after \<noteq> 0 \<and> \<not> check_chunk (h after) then (h, Some EINVAL)
                 else if bef \<noteq> 0 \<and> \<not> check_chunk (h bef) then (h, Some EINVAL)
                 else let (h, m) = free_merge_before h m bef after
                      in free_merge_after h m after)"

text \<open>
  \<^verbatim>\<open>salloc_realloc\<close> also copies user data, so it works on the byte store \<open>d\<close> as well;
  headers and data never share addresses in an intact heap. The old block is not freed.
\<close>

definition salloc_realloc ::
    "hmem \<Rightarrow> (nat \<Rightarrow> u8) \<Rightarrow> nat \<Rightarrow> nat \<Rightarrow> nat \<Rightarrow> (salloc_res \<times> (nat \<Rightarrow> u8)) option" where
  "salloc_realloc h d base old sz =
     (if old = 0 then do { r \<leftarrow> salloc_alloc h base sz; Some (r, d) }
      else if \<not> check_chunk (h (chunk_of old)) then Some (Failed h EINVAL, d)
      else do {
        r \<leftarrow> salloc_alloc h base sz;
        Some (case r of
                Allocated h' new \<Rightarrow>
                  (r, memcpy d new old (min (csize (h' (chunk_of old))) (csize (h' (chunk_of new)))))
              | _ \<Rightarrow> (r, d))
      })"

text \<open>The checks walk forward to the last chunk and back to the first, adding up sizes.\<close>

partial_function (option) fsck_forward :: "hmem \<Rightarrow> nat \<Rightarrow> nat \<Rightarrow> (unit + nat \<times> nat) option" where
  "fsck_forward h this sz =
     (if \<not> check_chunk (h this) then Some (Inl ())
      else let sz = wrap64 (sz + HDR + csize (h this))
           in if is_last (h this) then Some (Inr (this, sz))
              else fsck_forward h (next_chunk h this) sz)"

partial_function (option) fsck_backward :: "hmem \<Rightarrow> nat \<Rightarrow> nat \<Rightarrow> (unit + nat) option" where
  "fsck_backward h this sz =
     (if \<not> check_chunk (h this) then Some (Inl ())
      else let sz = wrap64 (sz + HDR + csize (h this))
           in if before (h this) = 0 then Some (Inr sz)
              else fsck_backward h (before (h this)) sz)"

definition salloc_fsck :: "hmem \<Rightarrow> nat \<Rightarrow> nat \<Rightarrow> errno option option" where
  "salloc_fsck h base tot =
     do {
       f \<leftarrow> fsck_forward h base 0;
       (case f of
          Inl _ \<Rightarrow> Some (Some EINVAL)
        | Inr (this, sz) \<Rightarrow>
            if sz \<noteq> tot then Some (Some EMSGSIZE)
            else do {
              b \<leftarrow> fsck_backward h this 0;
              Some (case b of
                      Inl _ \<Rightarrow> Some EINVAL
                    | Inr sz \<Rightarrow> if sz \<noteq> tot then Some EMSGSIZE else None)
            })
     }"

record salloc_stat =
  st_used :: nat
  st_free :: nat
  st_chunks_used :: nat
  st_chunks_free :: nat

definition stat_zero :: salloc_stat where
  "stat_zero = \<lparr> st_used = 0, st_free = 0, st_chunks_used = 0, st_chunks_free = 0 \<rparr>"

definition stat_add :: "salloc_stat \<Rightarrow> memchunk \<Rightarrow> salloc_stat" where
  "stat_add st c =
     (if is_used c
      then st\<lparr>st_used := wrap64 (st_used st + csize c), st_chunks_used := st_chunks_used st + 1\<rparr>
      else st\<lparr>st_free := wrap64 (st_free st + csize c), st_chunks_free := st_chunks_free st + 1\<rparr>)"

partial_function (option) salloc_stats :: "hmem \<Rightarrow> nat \<Rightarrow> salloc_stat \<Rightarrow> (unit + salloc_stat) option" where
  "salloc_stats h this st =
     (if \<not> check_chunk (h this) then Some (Inl ())
      else let st = stat_add st (h this)
           in if is_last (h this) then Some (Inr st) else salloc_stats h (next_chunk h this) st)"

section \<open>Chunk lists\<close>

text \<open>
  The abstract heap is the list of its chunks, each with its data size and whether it is
  used. \<open>chunks h a b cs l\<close>: the chunks \<open>cs\<close> lie in \<open>h\<close> one after the other from
  address \<open>a\<close>, the first with back pointer \<open>b\<close>; the final one carries the last-flag if \<open>l\<close>.
\<close>

type_synonym chunk_list = "(nat \<times> bool) list"

definition mkflags :: "bool \<Rightarrow> bool \<Rightarrow> u32" where
  "mkflags l u = (if l then (if u then 3 else 1) else (if u then 2 else 0))"

definition mkchunk :: "nat \<Rightarrow> nat \<Rightarrow> bool \<Rightarrow> bool \<Rightarrow> memchunk" where
  "mkchunk b s l u = \<lparr> canary1 = CANARY1, before = b, csize = s, flags = mkflags l u, canary2 = CANARY2 \<rparr>"

fun span :: "chunk_list \<Rightarrow> nat" where
  "span [] = 0"
| "span ((s, u) # cs) = HDR + s + span cs"

fun prev :: "nat \<Rightarrow> nat \<Rightarrow> chunk_list \<Rightarrow> nat" where
  "prev a b [] = b"
| "prev a b ((s, u) # cs) = prev (a + HDR + s) a cs"

fun chunks :: "hmem \<Rightarrow> nat \<Rightarrow> nat \<Rightarrow> chunk_list \<Rightarrow> bool \<Rightarrow> bool" where
  "chunks h a b [] l \<longleftrightarrow> True"
| "chunks h a b ((s, u) # cs) l \<longleftrightarrow>
     h a = mkchunk b s (l \<and> cs = []) u \<and> chunks h (a + HDR + s) a cs l"

lemma mkflags_simps [simp]:
  "mkflags l u AND MEMCHUNK_FLAG_USED = 0 \<longleftrightarrow> \<not> u"
  "mkflags l u AND MEMCHUNK_FLAG_LAST = 0 \<longleftrightarrow> \<not> l"
  "mkflags l u OR MEMCHUNK_FLAG_USED = mkflags l True"
  "mkflags l u AND NOT MEMCHUNK_FLAG_USED = mkflags l False"
  "mkflags l u AND NOT MEMCHUNK_FLAG_LAST = mkflags False u"
  by (simp_all add: mkflags_def MEMCHUNK_FLAG_USED_def MEMCHUNK_FLAG_LAST_def)

lemma mkchunk_simps [simp]:
  "check_chunk (mkchunk b s l u)" "csize (mkchunk b s l u) = s" "before (mkchunk b s l u) = b"
  "flags (mkchunk b s l u) = mkflags l u"
  "(mkchunk b s l u)\<lparr>flags := mkflags l' u'\<rparr> = mkchunk b s l' u'"
  "(mkchunk b s l u)\<lparr>csize := s'\<rparr> = mkchunk b s' l u"
  "(mkchunk b s l u)\<lparr>before := b'\<rparr> = mkchunk b' s l u"
  by (simp_all add: mkchunk_def check_chunk_def)

lemma set_chunk_mkchunk:
  "set_chunk h m b s MEMCHUNK_FLAG_LAST = h(m := mkchunk b s True False)"
  "set_chunk h m b s 0 = h(m := mkchunk b s False False)"
  by (simp_all add: set_chunk_def mkchunk_def mkflags_def MEMCHUNK_FLAG_LAST_def)

lemma span_append [simp]: "span (xs @ ys) = span xs + span ys"
  by (induction xs rule: span.induct) simp_all

lemma chunks_append:
  "ys \<noteq> [] \<Longrightarrow> chunks h a b (xs @ ys) l \<longleftrightarrow>
     chunks h a b xs False \<and> chunks h (a + span xs) (prev a b xs) ys l"
  by (induction h a b xs l rule: chunks.induct) (auto simp: add.assoc)

lemma chunks_cong:
  "(\<And>x. a \<le> x \<Longrightarrow> x < a + span cs \<Longrightarrow> h' x = h x) \<Longrightarrow> chunks h' a b cs l = chunks h a b cs l"
  by (induction h a b cs l rule: chunks.induct) auto

lemma chunks_upd_outside [simp]:
  "x < a \<or> a + span cs \<le> x \<Longrightarrow> chunks (h(x := c)) a b cs l = chunks h a b cs l"
  by (rule chunks_cong) auto

lemma prev_snoc: "prev a b (xs @ [(s, u)]) = a + span xs"
  by (induction a b xs rule: prev.induct) simp_all

definition heap_ok :: "hmem \<Rightarrow> nat \<Rightarrow> nat \<Rightarrow> chunk_list \<Rightarrow> bool" where
  "heap_ok h base tot cs \<longleftrightarrow> cs \<noteq> [] \<and> chunks h base 0 cs True \<and> span cs = tot \<and>
     0 < base \<and> base + tot < 2 ^ 64 \<and> tot < 2 ^ 32"

section \<open>Allocation\<close>

fun walk_abs :: "nat \<Rightarrow> nat \<Rightarrow> chunk_list \<Rightarrow> walk" where
  "walk_abs n a [] = Damaged"
| "walk_abs n a ((s, u) # cs) =
     (if u \<or> s < n then
        if cs = [] then Missing (if u then wrap64 (HDR + n) else n - s)
        else walk_abs n (a + HDR + s) cs
      else Fits a)"

lemma next_chunk_mkchunk:
  assumes "h a = mkchunk b s l u" and "a + HDR + s < 2 ^ 64"
  shows "next_chunk h a = (if l then 0 else a + HDR + s)"
  using assms by (simp add: next_chunk_def wrap64_def)

lemma alloc_walk_eq:
  assumes "chunks h a b cs True" and "cs \<noteq> []" and "0 < a" and "a + span cs < 2 ^ 64"
  shows "alloc_walk h n a = Some (walk_abs n a cs)"
  using assms
proof (induction cs arbitrary: a b)
  case (Cons c cs)
  obtain s u where c: "c = (s, u)" by (cases c)
  have ha: "h a = mkchunk b s (cs = []) u" using Cons.prems c by simp
  have nx: "next_chunk h a = (if cs = [] then 0 else a + HDR + s)"
    using next_chunk_mkchunk [of h a, OF ha] Cons.prems c by simp
  show ?case
  proof (cases "cs = []")
    case True
    then show ?thesis using ha nx c by (subst alloc_walk.simps) simp
  next
    case False
    then have "alloc_walk h n (a + HDR + s) = Some (walk_abs n (a + HDR + s) cs)"
      using Cons.prems c by (intro Cons.IH [of _ a]) simp_all
    then show ?thesis using ha nx c False by (subst alloc_walk.simps) simp
  qed
qed simp

lemma walk_abs_Fits:
  "walk_abs n a cs = Fits p \<Longrightarrow>
   \<exists>xs s ys. cs = xs @ (s, False) # ys \<and> n \<le> s \<and> p = a + span xs \<and> (\<forall>(s, u) \<in> set xs. u \<or> s < n)"
proof (induction n a cs rule: walk_abs.induct)
  case (2 n a s u cs)
  show ?case
  proof (cases "u \<or> s < n")
    case True
    then have "cs \<noteq> []" "walk_abs n (a + HDR + s) cs = Fits p" using "2.prems" by (auto split: if_splits)
    from "2.IH" [OF True this] obtain xs t ys where
      "cs = xs @ (t, False) # ys" "n \<le> t" "p = a + HDR + s + span xs" "\<forall>(s, u) \<in> set xs. u \<or> s < n" by blast
    then show ?thesis using True by (intro exI [of _ "(s, u) # xs"] exI [of _ t] exI [of _ ys]) simp
  next
    case False
    then show ?thesis using "2.prems" by (intro exI [of _ "[]"] exI [of _ s] exI [of _ cs]) simp
  qed
qed simp

lemma walk_abs_Missing:
  "walk_abs n a cs = Missing inc \<Longrightarrow> (\<forall>(s, u) \<in> set cs. u \<or> s < n) \<and>
   inc = (if snd (last cs) then wrap64 (HDR + n) else n - fst (last cs))"
  by (induction n a cs rule: walk_abs.induct) (auto split: if_splits)

definition split_chunk :: "nat \<Rightarrow> nat \<Rightarrow> chunk_list" where
  "split_chunk n s = (if s > n + HDR then [(n, True), (s - n - HDR, False)] else [(s, True)])"

lemma span_split_chunk: "n \<le> s \<Longrightarrow> span (split_chunk n s) = HDR + s"
  by (simp add: split_chunk_def)

lemma take_chunk_refines:
  assumes ok: "heap_ok h base tot (xs @ (s, False) # ys)" and "n \<le> s"
  shows "\<exists>h'. take_chunk h n (base + span xs) = (h', None) \<and> heap_ok h' base tot (xs @ split_chunk n s @ ys)"
proof -
  let ?p = "base + span xs" and ?b = "prev base 0 xs"
  have tot: "span xs + (HDR + s + span ys) = tot" "base + tot < 2 ^ 64" "tot < 2 ^ 32" "0 < base"
    using ok by (simp_all add: heap_ok_def)
  have xs: "chunks h base 0 xs False" and hp: "h ?p = mkchunk ?b s (ys = []) False"
    and ys: "chunks h (?p + HDR + s) ?p ys True"
    using ok by (simp_all add: heap_ok_def chunks_append)
  have wrap: "wrap64 (n + HDR) = n + HDR" "wrap64 (wrap64 (?p + HDR) + n) = ?p + HDR + n"
    using tot \<open>n \<le> s\<close> by (simp_all add: wrap64_def)
  show ?thesis
  proof (cases "s > n + HDR")
    case False
    then have "take_chunk h n ?p = (h(?p := mkchunk ?b s (ys = []) True), None)"
      unfolding take_chunk_def Let_def by (simp add: hp wrap)
    moreover have "heap_ok (h(?p := mkchunk ?b s (ys = []) True)) base tot (xs @ split_chunk n s @ ys)"
      using tot xs ys False by (simp add: heap_ok_def split_chunk_def chunks_append)
    ultimately show ?thesis by blast
  next
    case True
    let ?o = "?p + HDR + n" and ?t = "?p + HDR + s" and ?r = "s - n - HDR"
    have rem: "nat ((int s - int n - int HDR) mod 2 ^ 32) = ?r"
    proof -
      have "int s - int n - int HDR = int ?r" using True by simp
      moreover have "?r < 2 ^ 32" using tot by simp
      ultimately show ?thesis by (simp add: nat_mod_as_int)
    qed
    have rem': "nat (int s - int n - 32) = s - (n + HDR)" by linarith
    let ?h1 = "h(?p := mkchunk ?b n False True, ?o := mkchunk ?p ?r (ys = []) False)"
    show ?thesis
    proof (cases ys)
      case Nil
      have "take_chunk h n ?p = (?h1, None)"
        unfolding take_chunk_def Let_def chunk_data_def
        using True Nil by (simp add: hp wrap rem [simplified] set_chunk_mkchunk fun_upd_twist)
      moreover have "heap_ok ?h1 base tot (xs @ split_chunk n s @ ys)"
        using tot xs Nil True by (simp add: heap_ok_def split_chunk_def chunks_append)
      ultimately show ?thesis by blast
    next
      case (Cons c ys')
      obtain q u where c: "c = (q, u)" by (cases c)
      have ht: "h ?t = mkchunk ?p q (ys' = []) u" and ys': "chunks h (?t + HDR + q) ?t ys' True"
        using ys Cons c by simp_all
      have nx: "next_chunk (h(?p := mkchunk ?b s False True)) ?p = ?t"
        using next_chunk_mkchunk [of "h(?p := mkchunk ?b s False True)" ?p ?b s False True] tot by simp
      let ?h2 = "h(?p := mkchunk ?b n False True, ?t := mkchunk ?o q (ys' = []) u,
        ?o := mkchunk ?p ?r (ys = []) False)"
      have "take_chunk h n ?p = (?h2, None)"
        unfolding take_chunk_def Let_def chunk_data_def
        using True Cons tot
        by (simp add: hp wrap rem [simplified] rem' nx ht set_chunk_mkchunk fun_upd_twist)
      moreover have "heap_ok ?h2 base tot (xs @ split_chunk n s @ ys)"
        using tot xs ys' Cons c True by (simp add: heap_ok_def split_chunk_def chunks_append add_ac)
      ultimately show ?thesis by blast
    qed
  qed
qed

lemma salloc_alloc_refines:
  assumes ok: "heap_ok h base tot cs"
  shows "(\<exists>xs s ys h'. cs = xs @ (s, False) # ys \<and> ALIGN4 n \<le> s \<and> (\<forall>(t, u) \<in> set xs. u \<or> t < ALIGN4 n) \<and>
            salloc_alloc h base n = Some (Allocated h' (base + span xs + HDR)) \<and>
            heap_ok h' base tot (xs @ split_chunk (ALIGN4 n) s @ ys))
    \<or> ((\<forall>(s, u) \<in> set cs. u \<or> s < ALIGN4 n) \<and>
       salloc_alloc h base n = Some (NoMemory
         (if snd (last cs) then wrap64 (HDR + ALIGN4 n) else ALIGN4 n - fst (last cs))))"
proof -
  have walk: "alloc_walk h (ALIGN4 n) base = Some (walk_abs (ALIGN4 n) base cs)"
    using ok by (intro alloc_walk_eq) (auto simp: heap_ok_def)
  have "walk_abs (ALIGN4 n) base cs \<noteq> Damaged"
  proof -
    have "cs \<noteq> [] \<Longrightarrow> walk_abs k a cs \<noteq> Damaged" for k a
      by (induction k a cs rule: walk_abs.induct) auto
    then show ?thesis using ok by (simp add: heap_ok_def)
  qed
  then show ?thesis
  proof (cases "walk_abs (ALIGN4 n) base cs")
    case (Fits p)
    from walk_abs_Fits [OF this] obtain xs s ys where
      cs: "cs = xs @ (s, False) # ys" "ALIGN4 n \<le> s" "p = base + span xs"
      "\<forall>(t, u) \<in> set xs. u \<or> t < ALIGN4 n" by blast
    from take_chunk_refines [OF ok [unfolded cs(1)] cs(2)] obtain h' where
      h': "take_chunk h (ALIGN4 n) (base + span xs) = (h', None)"
      "heap_ok h' base tot (xs @ split_chunk (ALIGN4 n) s @ ys)" by blast
    have "chunk_data (base + span xs) = base + span xs + HDR"
      using ok cs(1) by (simp add: chunk_data_def wrap64_def heap_ok_def)
    then have "salloc_alloc h base n = Some (Allocated h' (base + span xs + HDR))"
      using walk Fits h'(1) cs(3) by (simp add: salloc_alloc_def)
    then show ?thesis using cs h'(2) by blast
  next
    case (Missing inc)
    then show ?thesis using walk walk_abs_Missing [OF Missing] by (simp add: salloc_alloc_def)
  qed simp
qed

section \<open>Release\<close>

text \<open>
  Freeing merges the chunk with free neighbours. \<open>left\<close> and \<open>right\<close> are the sizes the
  neighbours contribute.
\<close>

definition merge_left :: "chunk_list \<Rightarrow> nat \<Rightarrow> chunk_list \<times> nat" where
  "merge_left xs s = (if xs \<noteq> [] \<and> \<not> snd (last xs) then (butlast xs, fst (last xs) + HDR + s) else (xs, s))"

definition merge_right :: "nat \<Rightarrow> chunk_list \<Rightarrow> nat \<times> chunk_list" where
  "merge_right s ys = (case ys of (q, False) # ys' \<Rightarrow> (s + HDR + q, ys') | _ \<Rightarrow> (s, ys))"

definition free_chunk :: "chunk_list \<Rightarrow> nat \<Rightarrow> chunk_list \<Rightarrow> chunk_list" where
  "free_chunk xs s ys =
     (let (xs', s1) = merge_left xs s; (s2, ys') = merge_right s1 ys in xs' @ (s2, False) # ys')"

lemma heap_ok_split:
  assumes "heap_ok h base tot (xs @ (s, u) # ys)"
  shows "chunks h base 0 xs False" "h (base + span xs) = mkchunk (prev base 0 xs) s (ys = []) u"
    "chunks h (base + span xs + HDR + s) (base + span xs) ys True"
    "span xs + (HDR + s + span ys) = tot" "base + tot < 2 ^ 64" "tot < 2 ^ 32" "0 < base"
  using assms by (simp_all add: heap_ok_def chunks_append)

lemma heap_ok_join:
  assumes "chunks h base 0 xs False" "h (base + span xs) = mkchunk (prev base 0 xs) s (ys = []) u"
    "chunks h (base + span xs + HDR + s) (base + span xs) ys True"
    "span xs + (HDR + s + span ys) = tot" "base + tot < 2 ^ 64" "tot < 2 ^ 32" "0 < base"
  shows "heap_ok h base tot (xs @ (s, u) # ys)"
  using assms by (simp add: heap_ok_def chunks_append)

lemma chunks_new_before:
  "chunks h a b ((q, u) # ys) l \<Longrightarrow>
   chunks (h(a := (h a)\<lparr>before := b'\<rparr>)) a b' ((q, u) # ys) l"
  by simp

lemma free_merge_before_refines:
  assumes ok: "heap_ok h base tot (xs @ (p, False) # (s, False) # ys)" and "ys \<noteq> []"
  defines "b \<equiv> base + span xs"
  defines "m \<equiv> b + HDR + p" 
  defines "after \<equiv> m + HDR + s"
  shows "\<exists>h'. free_merge_before h m b after = (h', b) \<and>
    heap_ok h' base tot (xs @ (p + HDR + s, False) # ys)"
proof -
  note sp = heap_ok_split [OF ok, folded b_def]
  have hb: "h b = mkchunk (prev base 0 xs) p False False" using sp(2) by simp
  have hm: "h m = mkchunk b s False False" and ys: "chunks h after m ys True"
    using sp(3) assms(2) by (simp_all add: m_def after_def)
  obtain q u ys' where q: "ys = (q, u) # ys'" using assms(2) by (cases ys) auto
  have wrap: "wrap64 (p + HDR + s) = p + HDR + s" using sp by (simp add: wrap64_def)
  have ne: "b \<noteq> m" "m \<noteq> b" "b \<noteq> after" "after \<noteq> b" "m \<noteq> after" "after \<noteq> m" "b \<noteq> 0" "after \<noteq> 0"
    using sp(7) by (simp_all add: b_def m_def after_def)
  let ?h' = "(h(after := (h after)\<lparr>before := b\<rparr>))
    (b := mkchunk (prev base 0 xs) (p + HDR + s) False False, m := zero_chunk)"
  have "free_merge_before h m b after = (?h', b)"
    unfolding fun_upd_twist [OF ne(4)] by (simp add: free_merge_before_def Let_def hb hm wrap ne)
  moreover have "chunks (h(after := (h after)\<lparr>before := b\<rparr>)) after b ys True"
    using chunks_new_before ys unfolding q by blast
  then have "heap_ok ?h' base tot (xs @ (p + HDR + s, False) # ys)"
    using sp assms(2) unfolding b_def after_def m_def
    by (intro heap_ok_join) (simp_all add: add_ac)
  ultimately show ?thesis by blast
qed

lemma free_merge_after_refines:
  assumes ok: "heap_ok h base tot (xs @ (s, False) # (q, False) # ys)"
  defines "m \<equiv> base + span xs"
  defines "after \<equiv> m + HDR + s"
  shows "\<exists>h'. free_merge_after h m after = (h', None) \<and>
    heap_ok h' base tot (xs @ (s + HDR + q, False) # ys)"
proof -
  note sp = heap_ok_split [OF ok, folded m_def]
  have hm: "h m = mkchunk (prev base 0 xs) s False False" using sp(2) by simp
  have ha: "h after = mkchunk m q (ys = []) False" and ys: "chunks h (after + HDR + q) after ys True"
    using sp(3) by (simp_all add: after_def)
  have wrap: "wrap64 (s + HDR + q) = s + HDR + q" using sp by (simp add: wrap64_def)
  have nx: "next_chunk h after = (if ys = [] then 0 else after + HDR + q)"
    using next_chunk_mkchunk [of h after, OF ha] sp by (simp add: m_def after_def)
  let ?new = "mkchunk (prev base 0 xs) (s + HDR + q) (ys = []) False" and ?t = "after + HDR + q"
  have ne: "m \<noteq> after" "after \<noteq> m" "m \<noteq> ?t" "?t \<noteq> m" "after \<noteq> ?t" "?t \<noteq> after" "m \<noteq> 0" "after \<noteq> 0"
    using sp(7) by (simp_all add: m_def after_def)
  show ?thesis
  proof (cases ys)
    case Nil
    let ?h' = "h(m := ?new, after := zero_chunk)"
    have "free_merge_after h m after = (?h', None)"
      using Nil by (simp add: free_merge_after_def Let_def hm ha nx wrap ne)
    moreover have "heap_ok ?h' base tot (xs @ (s + HDR + q, False) # ys)"
      using sp Nil unfolding m_def after_def by (intro heap_ok_join) simp_all
    ultimately show ?thesis by blast
  next
    case (Cons c ys')
    obtain r v where c: "c = (r, v)" by (cases c)
    have ht: "h ?t = mkchunk after r (ys' = []) v" using ys Cons c by simp
    let ?h' = "(h(?t := (h ?t)\<lparr>before := m\<rparr>))(m := ?new, after := zero_chunk)"
    have "free_merge_after h m after = (?h', None)"
      using Cons ht ne by (simp add: free_merge_after_def Let_def hm ha nx wrap)
    moreover have "chunks (h(?t := (h ?t)\<lparr>before := m\<rparr>)) ?t m ys True"
      using chunks_new_before ys unfolding Cons c by blast
    then have "heap_ok ?h' base tot (xs @ (s + HDR + q, False) # ys)"
      using sp unfolding m_def after_def by (intro heap_ok_join) (simp_all add: add_ac)
    ultimately show ?thesis by blast
  qed
qed

lemma heap_ok_prev:
  assumes "heap_ok h base tot (xs @ (p, v) # (s, u) # ys)"
  shows "h (base + span xs) = mkchunk (prev base 0 xs) p False v"
    "prev base 0 (xs @ [(p, v)]) = base + span xs"
  using heap_ok_split(2) [OF assms] by (simp_all add: prev_snoc)

lemma free_merge_before_cases:
  assumes ok: "heap_ok h base tot (xs @ (s, False) # ys)" and "ys \<noteq> [] \<or> xs = [] \<or> snd (last xs)"
  defines "m \<equiv> base + span xs"
  obtains h1 xs1 s1 where
    "free_merge_before h m (prev base 0 xs) (if ys = [] then 0 else m + HDR + s) = (h1, base + span xs1)"
    "heap_ok h1 base tot (xs1 @ (s1, False) # ys)" "merge_left xs s = (xs1, s1)"
    "base + span xs1 + HDR + s1 = m + HDR + s"
proof (cases "xs \<noteq> [] \<and> \<not> snd (last xs)")
  case True
  then obtain xs1 p where xs: "xs = xs1 @ [(p, False)]"
    by (metis (full_types) append_butlast_last_id prod.collapse)
  have "ys \<noteq> []" using True assms(2) by blast
  have ok': "heap_ok h base tot (xs1 @ (p, False) # (s, False) # ys)" using ok xs by simp
  from free_merge_before_refines [OF ok' \<open>ys \<noteq> []\<close>] obtain h1 where
    "free_merge_before h m (prev base 0 xs) (m + HDR + s) = (h1, base + span xs1)"
    "heap_ok h1 base tot (xs1 @ (p + HDR + s, False) # ys)"
    using xs by (auto simp: m_def prev_snoc add_ac)
  then show thesis
    using that [of h1 xs1 "p + HDR + s"] True xs \<open>ys \<noteq> []\<close> by (simp add: merge_left_def m_def)
next
  case False
  have "free_merge_before h m (prev base 0 xs) (if ys = [] then 0 else m + HDR + s) = (h, m)"
  proof (cases "xs = []")
    case True
    then show ?thesis by (simp add: free_merge_before_def)
  next
    case nonempty: False
    then obtain xs1 p where xs: "xs = xs1 @ [(p, True)]"
      using False by (metis (full_types) append_butlast_last_id prod.collapse)
    have "h (prev base 0 xs) = mkchunk (prev base 0 xs1) p False True"
      using heap_ok_prev [of h base tot xs1 p True s False ys] ok xs by simp
    then show ?thesis by (simp add: free_merge_before_def)
  qed
  then show thesis using that [of h xs s] ok False by (simp add: merge_left_def m_def)
qed

lemma free_merge_after_cases:
  assumes ok: "heap_ok h base tot (xs @ (s, False) # ys)"
  defines "m \<equiv> base + span xs"
  shows "\<exists>h'. free_merge_after h m (if ys = [] then 0 else m + HDR + s) = (h', None) \<and>
    heap_ok h' base tot (xs @ (case merge_right s ys of (s', ys') \<Rightarrow> (s', False) # ys'))"
proof (cases ys)
  case Nil
  then show ?thesis using ok by (simp add: free_merge_after_def merge_right_def)
next
  case (Cons c ys')
  obtain q u where c: "c = (q, u)" by (cases c)
  show ?thesis
  proof (cases u)
    case True
    have "h (m + HDR + s) = mkchunk m q (ys' = []) True"
      using heap_ok_split(3) [OF ok] Cons c True by (simp add: m_def)
    then have "free_merge_after h m (m + HDR + s) = (h, None)" by (simp add: free_merge_after_def)
    then show ?thesis using ok Cons c True by (simp add: merge_right_def)
  next
    case False
    then have "heap_ok h base tot (xs @ (s, False) # (q, False) # ys')" using ok Cons c by simp
    from free_merge_after_refines [OF this] show ?thesis
      using Cons c False by (simp add: merge_right_def m_def)
  qed
qed

lemma salloc_free_start:
  assumes ok: "heap_ok h base tot (xs @ (s, True) # ys)"
  defines "m \<equiv> base + span xs"
  defines "h0 \<equiv> h(m := mkchunk (prev base 0 xs) s (ys = []) False)"
    and "after \<equiv> if ys = [] then 0 else m + HDR + s"
  shows "salloc_free h (m + HDR) =
      (let (h1, m1) = free_merge_before h0 m (prev base 0 xs) after in free_merge_after h1 m1 after)"
    and "heap_ok h0 base tot (xs @ (s, False) # ys)"
proof -
  note sp = heap_ok_split [OF ok, folded m_def]
  have ptr: "chunk_of (m + HDR) = m" using sp(4,5) by (simp add: chunk_of_def m_def nat_mod_as_int)
  show ok0: "heap_ok h0 base tot (xs @ (s, False) # ys)"
    using sp unfolding h0_def m_def by (intro heap_ok_join) simp_all
  note sp0 = heap_ok_split [OF ok0, folded m_def]
  have after: "next_chunk h0 m = after"
    using next_chunk_mkchunk [of h0 m, OF sp0(2)] sp(4,5) by (simp add: m_def after_def)
  have chk_after: "after \<noteq> 0 \<Longrightarrow> check_chunk (h0 after)"
    using sp0(3) by (cases ys) (auto simp: after_def)
  have chk_before: "prev base 0 xs \<noteq> 0 \<Longrightarrow> check_chunk (h0 (prev base 0 xs))"
  proof (cases xs rule: rev_cases)
    case (snoc xs1 c)
    obtain p v where "c = (p, v)" by (cases c)
    then show ?thesis using heap_ok_prev [of h0 base tot xs1 p v s False ys] ok0 snoc by simp
  qed simp
  show "salloc_free h (m + HDR) =
      (let (h1, m1) = free_merge_before h0 m (prev base 0 xs) after in free_merge_after h1 m1 after)"
  proof -
    have step: "h(m := (h m)\<lparr>flags := flags (h m) AND NOT MEMCHUNK_FLAG_USED\<rparr>) = h0"
      by (simp add: h0_def sp(2))
    have "before (h0 m) = prev base 0 xs" "check_chunk (h m)" "is_used (h m)"
      by (simp_all add: sp0(2) sp(2))
    then show ?thesis
      unfolding salloc_free_def ptr Let_def step after using chk_after chk_before by auto
  qed
qed

lemma salloc_free_refines:
  assumes ok: "heap_ok h base tot (xs @ (s, True) # ys)" and "ys \<noteq> [] \<or> xs = [] \<or> snd (last xs)"
  shows "\<exists>h'. salloc_free h (base + span xs + HDR) = (h', None) \<and> heap_ok h' base tot (free_chunk xs s ys)"
proof -
  note start = salloc_free_start [OF ok]
  from free_merge_before_cases [OF start(2) assms(2)] obtain h1 xs1 s1 where
    *: "free_merge_before (h(base + span xs := mkchunk (prev base 0 xs) s (ys = []) False)) (base + span xs)
        (prev base 0 xs) (if ys = [] then 0 else base + span xs + HDR + s) = (h1, base + span xs1)"
    "heap_ok h1 base tot (xs1 @ (s1, False) # ys)" "merge_left xs s = (xs1, s1)"
    "base + span xs1 + HDR + s1 = base + span xs + HDR + s" by blast
  obtain s2 ys2 where mr: "merge_right s1 ys = (s2, ys2)" by force
  from free_merge_after_cases [OF *(2)] obtain h' where
    h': "free_merge_after h1 (base + span xs1) (if ys = [] then 0 else base + span xs + HDR + s) = (h', None)"
    "heap_ok h' base tot (xs1 @ (s2, False) # ys2)"
    unfolding *(4) mr by auto
  have "salloc_free h (base + span xs + HDR) = (h', None)"
    unfolding start(1) *(1) by (simp add: h'(1))
  moreover have "free_chunk xs s ys = xs1 @ (s2, False) # ys2" by (simp add: free_chunk_def *(3) mr)
  ultimately show ?thesis using h'(2) by auto
qed

section \<open>Growth and checks\<close>

lemma last_chunk_eq:
  assumes "chunks h a b (xs @ [(s, u)]) True" and "0 < a" and "a + span (xs @ [(s, u)]) < 2 ^ 64"
  shows "last_chunk h a = Some (Inr (a + span xs))"
  using assms
proof (induction xs arbitrary: a b)
  case Nil
  then have ha: "h a = mkchunk b s True u" by simp
  then show ?case
    using next_chunk_mkchunk [of h a, OF ha] Nil by (subst last_chunk.simps) simp
next
  case (Cons c xs)
  obtain t v where c: "c = (t, v)" by (cases c)
  have ha: "h a = mkchunk b t False v" using Cons.prems c by simp
  have "last_chunk h (a + HDR + t) = Some (Inr (a + HDR + t + span xs))"
    using Cons.prems c by (intro Cons.IH [of _ a]) simp_all
  then show ?case
    using next_chunk_mkchunk [of h a, OF ha] Cons.prems ha c
    by (subst last_chunk.simps) (simp add: add_ac)
qed

definition grow_chunks :: "chunk_list \<Rightarrow> nat \<Rightarrow> chunk_list" where
  "grow_chunks cs k = (if snd (last cs) then cs @ [(k - HDR, False)]
     else butlast cs @ [(fst (last cs) + k, False)])"

lemma salloc_increase_refines:
  assumes ok: "heap_ok h base tot cs" and "HDR \<le> k" and "base + tot + k < 2 ^ 64" and "tot + k < 2 ^ 32"
  shows "\<exists>h'. salloc_increase h base k = Some (h', None) \<and> heap_ok h' base (tot + k) (grow_chunks cs k)"
proof -
  obtain xs s u where cs: "cs = xs @ [(s, u)]"
    using ok by (metis append_butlast_last_id heap_ok_def surj_pair)
  note sp = heap_ok_split [OF ok [unfolded cs]]
  let ?p = "base + span xs"
  have last: "last_chunk h base = Some (Inr ?p)"
    using last_chunk_eq [of h base 0 xs s u] ok cs by (simp add: heap_ok_def)
  show ?thesis
  proof (cases u)
    case True
    let ?h0 = "h(?p := mkchunk (prev base 0 xs) s False True)"
    have nx: "next_chunk ?h0 ?p = ?p + HDR + s"
      using next_chunk_mkchunk [of ?h0 ?p "prev base 0 xs" s False True] sp(4,5) by simp
    have k: "nat ((int k - int HDR) mod 2 ^ 64) = k - HDR"
      using assms(2,4) by (simp flip: of_nat_diff)
    let ?h' = "?h0(?p + HDR + s := mkchunk ?p (k - HDR) True False)"
    have "salloc_increase h base k = Some (?h', None)"
      unfolding salloc_increase_def last
      using sp(2) True k [simplified] nx by (simp add: Let_def set_chunk_mkchunk)
    moreover have "chunks ?h' base 0 ((xs @ [(s, True)]) @ [(k - HDR, False)]) True"
      using sp(1,4) by (simp add: chunks_append prev_snoc add_ac)
    then have "heap_ok ?h' base (tot + k) (grow_chunks cs k)"
      using True cs sp assms by (simp add: heap_ok_def grow_chunks_def)
    ultimately show ?thesis by blast
  next
    case False
    let ?h' = "h(?p := mkchunk (prev base 0 xs) (s + k) True False)"
    have "salloc_increase h base k = Some (?h', None)"
      unfolding salloc_increase_def last
      using sp False assms(4) by (simp add: wrap64_def)
    moreover have "heap_ok ?h' base (tot + k) (grow_chunks cs k)"
      using False cs sp assms by (simp add: heap_ok_def grow_chunks_def chunks_append)
    ultimately show ?thesis by blast
  qed
qed

lemma fsck_forward_eq:
  assumes "chunks h a b (xs @ [(s, u)]) True" and "0 < a" and "a + span (xs @ [(s, u)]) < 2 ^ 64"
    and "z + span (xs @ [(s, u)]) < 2 ^ 64"
  shows "fsck_forward h a z = Some (Inr (a + span xs, z + span (xs @ [(s, u)])))"
  using assms
proof (induction xs arbitrary: a b z)
  case Nil
  then have ha: "h a = mkchunk b s True u" by simp
  then show ?case using Nil by (subst fsck_forward.simps) (simp add: wrap64_def)
next
  case (Cons c xs)
  obtain t v where c: "c = (t, v)" by (cases c)
  have ha: "h a = mkchunk b t False v" using Cons.prems c by simp
  have "fsck_forward h (a + HDR + t) (z + HDR + t)
      = Some (Inr (a + HDR + t + span xs, z + HDR + t + span (xs @ [(s, u)])))"
    using Cons.prems c by (intro Cons.IH [of _ a]) simp_all
  then show ?case
    using next_chunk_mkchunk [of h a, OF ha] Cons.prems ha c
    by (subst fsck_forward.simps) (simp add: Let_def wrap64_def add_ac)
qed

lemma fsck_backward_eq:
  assumes "chunks h a 0 (xs @ (s, u) # ys) True" and "0 < a" and "z + span (xs @ [(s, u)]) < 2 ^ 64"
  shows "fsck_backward h (a + span xs) z = Some (Inr (z + span (xs @ [(s, u)])))"
  using assms
proof (induction xs arbitrary: s u ys z rule: rev_induct)
  case Nil
  then show ?case by (subst fsck_backward.simps) (simp add: wrap64_def)
next
  case (snoc c xs)
  obtain t v where c: "c = (t, v)" by (cases c)
  have at: "h (a + span (xs @ [c])) = mkchunk (a + span xs) s (ys = []) u"
    using snoc.prems(1) c by (simp add: chunks_append prev_snoc add_ac)
  have "fsck_backward h (a + span xs) (z + HDR + s) = Some (Inr (z + HDR + s + span (xs @ [(t, v)])))"
    using snoc.prems c by (intro snoc.IH [of _ _ "(s, u) # ys"]) simp_all
  then show ?case
    using at snoc.prems c by (subst fsck_backward.simps) (simp add: Let_def wrap64_def add_ac)
qed

lemma salloc_fsck_ok:
  assumes ok: "heap_ok h base tot cs"
  shows "salloc_fsck h base tot = Some None"
proof -
  obtain xs s u where cs: "cs = xs @ [(s, u)]"
    using ok by (metis append_butlast_last_id heap_ok_def surj_pair)
  have h: "chunks h base 0 (xs @ [(s, u)]) True" "0 < base" "base + tot < 2 ^ 64"
    "span (xs @ [(s, u)]) = tot" "tot < 2 ^ 64"
    using ok cs by (simp_all add: heap_ok_def)
  have "fsck_forward h base 0 = Some (Inr (base + span xs, tot))"
    using fsck_forward_eq [OF h(1,2), of 0] h(3-5) by simp
  moreover have "fsck_backward h (base + span xs) 0 = Some (Inr tot)"
    using fsck_backward_eq [OF h(1,2), of 0] h(4,5) by simp
  ultimately show ?thesis by (simp add: salloc_fsck_def)
qed


section \<open>Losing the end of the heap\<close>

lemma chunks_span_less:
  "chunks h a b xs False \<Longrightarrow> chunks h a b cs True \<Longrightarrow> cs \<noteq> [] \<Longrightarrow> span xs < span cs"
proof (induction xs arbitrary: a b cs)
  case Nil
  then show ?case by (cases cs) auto
next
  case (Cons x xs)
  obtain s u t v cs' where c: "x = (s, u)" "cs = (t, v) # cs'"
    using Cons.prems(3) by (metis list.exhaust surj_pair)
  have eq: "mkchunk b s False u = mkchunk b t (cs' = []) v" using Cons.prems c by simp
  have st: "s = t" using arg_cong [OF eq, of csize] by simp
  have "mkflags False u = mkflags (cs' = []) v" using arg_cong [OF eq, of flags] by simp
  from arg_cong [OF this, of "\<lambda>f. f AND MEMCHUNK_FLAG_LAST = 0"] have "cs' \<noteq> []" by simp
  then have "span xs < span cs'" using Cons.prems c st by (intro Cons.IH [of "a + HDR + s" a]) auto
  then show ?case using c st by simp
qed

text \<open>
  C22. Releasing the final block of a heap while the block before it is free merges the two,
  but the merged chunk does not inherit the mark of the last chunk: the heap is no longer
  well-formed, and its successor is the address just behind the heap.
\<close>

theorem salloc_free_drops_last:
  assumes ok: "heap_ok h base tot (xs @ [(p, False), (s, True)])"
  defines "b \<equiv> base + span xs"
  shows "\<exists>h'. salloc_free h (b + HDR + p + HDR) = (h', None) \<and> \<not> is_last (h' b) \<and>
    csize (h' b) = p + HDR + s \<and> next_chunk h' b = base + tot \<and> (\<nexists>cs. heap_ok h' base tot cs)"
proof -
  let ?m = "b + HDR + p"
  have ok': "heap_ok h base tot ((xs @ [(p, False)]) @ (s, True) # [])" using ok by simp
  note start = salloc_free_start [OF ok', folded b_def]
  have m: "base + span (xs @ [(p, False)]) = ?m" by (simp add: b_def)
  define h0 where "h0 = h(?m := mkchunk b s True False)"
  note sp = heap_ok_split [OF start(2)]
  have ok0: "heap_ok h0 base tot (xs @ (p, False) # (s, False) # [])"
    using start(2) by (simp add: h0_def b_def prev_snoc add.assoc)
  have hb: "h0 b = mkchunk (prev base 0 xs) p False False" "prev base 0 (xs @ [(p, False)]) = b"
    using heap_ok_prev [OF ok0] by (simp_all add: b_def)
  have tot: "span xs + (HDR + p + (HDR + s)) = tot" "base + tot < 2 ^ 64" "0 < base" using sp by simp_all
  define h1 where "h1 = h0(b := mkchunk (prev base 0 xs) (p + HDR + s) False False, ?m := zero_chunk)"
  have "free_merge_before h0 ?m b 0 = (h1, b)"
    using hb tot unfolding h1_def
    by (simp add: free_merge_before_def h0_def b_def wrap64_def Let_def)
  then have free: "salloc_free h (?m + HDR) = (h1, None)"
    using start(1) hb(2) unfolding m by (simp add: h0_def free_merge_after_def)
  have h1b: "h1 b = mkchunk (prev base 0 xs) (p + HDR + s) False False" by (simp add: h1_def)
  have nx: "next_chunk h1 b = base + tot"
    using next_chunk_mkchunk [of h1 b, OF h1b] tot by (simp add: b_def)
  have "chunks h1 base 0 (xs @ [(p + HDR + s, False)]) False"
    using sp(1) h1b by (simp add: chunks_append h1_def h0_def b_def m)
  then have "\<not> heap_ok h1 base tot cs" for cs
    using chunks_span_less [of h1 base 0 "xs @ [(p + HDR + s, False)]" cs] tot(1) by (auto simp: heap_ok_def)
  then show ?thesis using free nx h1b by auto
qed


theorem salloc_free_drops_last_witness:
  "\<exists>h'. salloc_free ((\<lambda>_. zero_chunk)(0x1000 := mkchunk 0 16 False False,
       0x1030 := mkchunk 0x1000 944 True True)) 0x1050 = (h', None) \<and>
     next_chunk h' 0x1000 = 0x1400 \<and> (\<nexists>cs. heap_ok h' 0x1000 1024 cs)"
proof -
  have "heap_ok ((\<lambda>_. zero_chunk)(0x1000 := mkchunk 0 16 False False, 0x1030 := mkchunk 0x1000 944 True True))
      0x1000 1024 ([] @ [(16, False), (944, True)])"
    by (simp add: heap_ok_def)
  from salloc_free_drops_last [OF this] show ?thesis by auto
qed

end
