(* ===== verification/Kheap.thy ===== *)
theory Kheap
  imports Salloc Layout
begin

text \<open>
  The kernel heap, \<^verbatim>\<open>mm/alloc.c\<close>, on top of \<open>Salloc\<close>; what a client of a heap may rely
  on (a locale, interpreted on \<open>kmalloc\<close> and \<open>kfree\<close>); and the properties of both. An
  outcome is \<open>None\<close> if a walk through a damaged heap does not end, \<open>Some Panic\<close> for a
  kernel panic. The spin lock makes each call atomic.
\<close>

section \<open>Model\<close>

record kheap =
  kh_mem :: hmem
  kh_base :: nat
  kh_size :: nat
  do_malloc_fsck :: bool

definition vma_kheap :: "hmem \<Rightarrow> kheap" where
  "vma_kheap mem = \<lparr> kh_mem = mem, kh_base = unat KHEAP_BASE, kh_size = unat (1 * MIB), do_malloc_fsck = False \<rparr>"

definition malloc_fsck_parse :: "kheap \<Rightarrow> kheap" where
  "malloc_fsck_parse k = k\<lparr>do_malloc_fsck := True\<rparr>"

text \<open>\<open>parsed\<close> is the result of \<^verbatim>\<open>bootparam_parse_size\<close>, \<open>None\<close> an error.\<close>

definition kheap_size_parse :: "nat option \<Rightarrow> kheap \<Rightarrow> kheap" where
  "kheap_size_parse parsed k =
     (case parsed of
        None \<Rightarrow> k
      | Some sz \<Rightarrow> if sz < unat (4 * KIB) then k
                   else if sz > unat (1 * GIB) then k
                   else k\<lparr>kh_size := sz\<rparr>)"

definition is_kheap :: "kheap \<Rightarrow> nat \<Rightarrow> bool" where
  "is_kheap k ptr \<longleftrightarrow> ptr \<ge> kh_base k \<and> ptr < kh_base k + kh_size k"

definition kheap_fsck :: "kheap \<Rightarrow> unit result option" where
  "kheap_fsck k =
     (if do_malloc_fsck k then
        map_option (\<lambda>e. if e = None then Ok () else Panic) (salloc_fsck (kh_mem k) (kh_base k) (kh_size k))
      else Some (Ok ()))"

definition kheap_stats :: "kheap \<Rightarrow> salloc_stat result option" where
  "kheap_stats k =
     map_option (\<lambda>r. case r of Inl _ \<Rightarrow> Panic | Inr st \<Rightarrow> Ok st)
       (salloc_stats (kh_mem k) (kh_base k) stat_zero)"

definition kmalloc :: "kheap \<Rightarrow> nat \<Rightarrow> (kheap \<times> nat) result option" where
  "kmalloc k sz =
     (case kheap_fsck k of
        Some (Ok _) \<Rightarrow>
          map_option (\<lambda>r. case r of
               NoMemory _ \<Rightarrow> Ok (k, 0)
             | Failed _ e \<Rightarrow> Panic
             | Allocated h ret \<Rightarrow> Ok (k\<lparr>kh_mem := h\<rparr>, ret))
            (salloc_alloc (kh_mem k) (kh_base k) sz)
      | Some _ \<Rightarrow> Some Panic
      | None \<Rightarrow> None)"

definition kfree :: "kheap \<Rightarrow> nat \<Rightarrow> kheap result option" where
  "kfree k ptr =
     (case kheap_fsck k of
        Some (Ok _) \<Rightarrow>
          if ptr = 0 then Some (Ok k)
          else if \<not> is_kheap k ptr then Some Panic
          else Some (case salloc_free (kh_mem k) ptr of
                       (h, None) \<Rightarrow> Ok (k\<lparr>kh_mem := h\<rparr>)
                     | (h, Some e) \<Rightarrow> Panic)
      | Some _ \<Rightarrow> Some Panic
      | None \<Rightarrow> None)"

text \<open>\<open>vma_err\<close> is the code of \<^verbatim>\<open>kvma_create\<close>.\<close>

definition kheap_init :: "kheap \<Rightarrow> int \<Rightarrow> kheap \<times> int" where
  "kheap_init k vma_err =
     (if vma_err \<noteq> 0 then (k, vma_err)
      else case salloc_init (kh_mem k) (kh_base k) (kh_size k) of
             (h, None) \<Rightarrow> (k\<lparr>kh_mem := h\<rparr>, 0)
           | (h, Some e) \<Rightarrow> (k\<lparr>kh_mem := h\<rparr>, - errno_num e))"

definition kzalloc :: "kheap \<Rightarrow> (nat \<Rightarrow> u8) \<Rightarrow> nat \<Rightarrow> (kheap \<times> (nat \<Rightarrow> u8) \<times> nat) result option" where
  "kzalloc k d sz =
     (case kmalloc k sz of
        Some (Ok (k, ret)) \<Rightarrow>
          if ret = 0 then Some (Ok (k, d, 0))
          else Some (Ok (k, (\<lambda>a. if ret \<le> a \<and> a < ret + sz then 0 else d a), ret))
      | Some _ \<Rightarrow> Some Panic
      | None \<Rightarrow> None)"

section \<open>Blocks\<close>

text \<open>The used blocks of a chunk list: address and size, in address order.\<close>

fun blocks :: "nat \<Rightarrow> chunk_list \<Rightarrow> (nat \<times> nat) list" where
  "blocks a [] = []"
| "blocks a ((s, u) # cs) = (if u then [(a + HDR, s)] else []) @ blocks (a + HDR + s) cs"

definition ival :: "nat \<times> nat \<Rightarrow> nat set" where
  "ival b = {fst b ..< fst b + snd b}"

lemma blocks_append: "blocks a (xs @ ys) = blocks a xs @ blocks (a + span xs) ys"
  by (induction a xs rule: blocks.induct) (auto simp: add.assoc)

lemma blocks_bounds: "(p, s) \<in> set (blocks a cs) \<Longrightarrow> a + HDR \<le> p \<and> p + s \<le> a + span cs"
  by (induction a cs rule: blocks.induct) (fastforce split: if_splits)+

lemma blocks_mem: "(p, s) \<in> set (blocks a cs) \<longleftrightarrow> (\<exists>xs ys. cs = xs @ (s, True) # ys \<and> p = a + span xs + HDR)"
proof (induction a cs rule: blocks.induct)
  case (2 a t u cs)
  show ?case
  proof
    assume "(p, s) \<in> set (blocks a ((t, u) # cs))"
    then consider "u" "p = a + HDR" "s = t" | "(p, s) \<in> set (blocks (a + HDR + t) cs)"
      by (auto split: if_splits)
    then show "\<exists>xs ys. (t, u) # cs = xs @ (s, True) # ys \<and> p = a + span xs + HDR"
    proof cases
      case 1
      then show ?thesis by (intro exI [of _ "[]"] exI [of _ cs]) simp
    next
      case 2
      then obtain xs ys where "cs = xs @ (s, True) # ys" "p = a + HDR + t + span xs + HDR"
        using "2.IH" by blast
      then show ?thesis by (intro exI [of _ "(t, u) # xs"] exI [of _ ys]) simp
    qed
  next
    assume "\<exists>xs ys. (t, u) # cs = xs @ (s, True) # ys \<and> p = a + span xs + HDR"
    then obtain xs ys where xs: "(t, u) # cs = xs @ (s, True) # ys" "p = a + span xs + HDR" by blast
    show "(p, s) \<in> set (blocks a ((t, u) # cs))"
      using xs "2.IH" by (cases xs) (auto simp: add_ac)
  qed
qed simp

lemma blocks_disjoint:
  "b \<in> set (blocks a cs) \<Longrightarrow> c \<in> set (blocks a cs) \<Longrightarrow> b \<noteq> c \<Longrightarrow> ival b \<inter> ival c = {}"
proof (induction a cs rule: blocks.induct)
  case (2 a s u cs)
  have out: "ival (a + HDR, s) \<inter> ival d = {}" if "d \<in> set (blocks (a + HDR + s) cs)" for d
    using blocks_bounds [of "fst d" "snd d" "a + HDR + s" cs] that by (auto simp: ival_def)
  from "2.prems" show ?case
    using "2.IH" out [of b] out [of c] by (auto split: if_splits)
qed simp

lemma blocks_split_chunk:
  "n \<le> s \<Longrightarrow> \<exists>t \<ge> n. blocks a (split_chunk n s @ ys) = (a + HDR, t) # blocks (a + HDR + s) ys"
  by (auto simp: split_chunk_def add_ac)

lemma blocks_free_chunk:
  "blocks a (free_chunk xs s ys) = blocks a xs @ blocks (a + span xs + HDR + s) ys"
proof -
  obtain xs1 s1 where l: "merge_left xs s = (xs1, s1)" by force
  have left: "blocks a xs1 = blocks a xs" "a + span xs1 + HDR + s1 = a + span xs + HDR + s"
  proof -
    show "blocks a xs1 = blocks a xs" "a + span xs1 + HDR + s1 = a + span xs + HDR + s"
      using l by (cases xs rule: rev_cases; auto simp: merge_left_def blocks_append split: if_splits)+
  qed
  obtain s2 ys2 where r: "merge_right s1 ys = (s2, ys2)" by force
  have "blocks (a + span xs1) ((s2, False) # ys2) = blocks (a + span xs1 + HDR + s1) ys"
    using r by (auto simp: merge_right_def add_ac split: list.splits prod.splits bool.splits)
  then show ?thesis by (simp add: free_chunk_def l r blocks_append left)
qed

lemma blocks_address:
  "(p, s) \<in> set (blocks a cs) \<Longrightarrow> (p, t) \<in> set (blocks a cs) \<Longrightarrow> s = t"
proof (induction a cs rule: blocks.induct)
  case (2 a r u cs)
  have "HDR \<le> r + HDR \<Longrightarrow> (a + HDR, x) \<notin> set (blocks (a + HDR + r) cs)" for x
    using blocks_bounds [of "a + HDR" x "a + HDR + r" cs] by auto
  with 2 show ?case by (auto split: if_splits)
qed simp

section \<open>The contract of a heap\<close>

text \<open>
  \<open>used h\<close> are the blocks handed out. \<open>freeable\<close> is the side condition under which the
  implementation keeps its promise when a block is returned.
\<close>

locale block_heap =
  fixes good :: "'h \<Rightarrow> bool"
    and used :: "'h \<Rightarrow> (nat \<times> nat) set"
    and freeable :: "'h \<Rightarrow> nat \<Rightarrow> bool"
    and alloc :: "'h \<Rightarrow> nat \<Rightarrow> ('h \<times> nat) result option"
    and free :: "'h \<Rightarrow> nat \<Rightarrow> 'h result option"
  assumes used_disjoint: "good h \<Longrightarrow> b \<in> used h \<Longrightarrow> c \<in> used h \<Longrightarrow> b \<noteq> c \<Longrightarrow> ival b \<inter> ival c = {}"
    and used_inj: "good h \<Longrightarrow> (p, s) \<in> used h \<Longrightarrow> (p, t) \<in> used h \<Longrightarrow> s = t"
    and alloc_law: "good h \<Longrightarrow> n + 3 < 2 ^ 64 \<Longrightarrow> \<exists>h' p. alloc h n = Some (Ok (h', p)) \<and> good h' \<and>
      (if p = 0 then h' = h else \<exists>s \<ge> n. p \<notin> fst ` used h \<and> used h' = insert (p, s) (used h))"
    and free_law: "good h \<Longrightarrow> (p, s) \<in> used h \<Longrightarrow> freeable h p \<Longrightarrow>
      \<exists>h'. free h p = Some (Ok h') \<and> good h' \<and> used h' = used h - {(p, s)}"
begin

lemma alloc_free_used:
  assumes "good h" and "n + 3 < 2 ^ 64" and "alloc h n = Some (Ok (h', p))" and "p \<noteq> 0"
    and "freeable h' p"
  shows "\<exists>h''. free h' p = Some (Ok h'') \<and> good h'' \<and> used h'' = used h"
proof -
  from alloc_law [OF assms(1,2)] assms(3,4) obtain s where
    *: "good h'" "p \<notin> fst ` used h" "used h' = insert (p, s) (used h)" by auto
  from free_law [OF *(1), of p s] assms(5) *(3) obtain h'' where
    h'': "free h' p = Some (Ok h'')" "good h''" "used h'' = used h' - {(p, s)}" by auto
  moreover have "(p, s) \<notin> used h" using *(2) by force
  ultimately show ?thesis using *(3) by auto
qed

text \<open>
  The ledger of a client: the pointers it holds with the sizes it asked for. It agrees with
  the heap if these are the used blocks, each at least as large as requested.
\<close>

definition ledger_ok :: "'h \<Rightarrow> (nat \<rightharpoonup> nat) \<Rightarrow> bool" where
  "ledger_ok h L \<longleftrightarrow> good h \<and> dom L = fst ` used h \<and> (\<forall>p n. L p = Some n \<longrightarrow> (\<exists>s \<ge> n. (p, s) \<in> used h))"

lemma ledger_disjoint:
  assumes "ledger_ok h L" and "L p = Some n" and "L q = Some m" and "p \<noteq> q"
  shows "{p ..< p + n} \<inter> {q ..< q + m} = {}"
proof -
  from assms obtain s t where st: "n \<le> s" "(p, s) \<in> used h" "m \<le> t" "(q, t) \<in> used h"
    by (auto simp: ledger_ok_def) metis
  have "good h" using assms(1) by (simp add: ledger_ok_def)
  from used_disjoint [OF this st(2,4)] assms(4) have "{p ..< p + s} \<inter> {q ..< q + t} = {}"
    by (simp add: ival_def)
  moreover have "{p ..< p + n} \<subseteq> {p ..< p + s}" "{q ..< q + m} \<subseteq> {q ..< q + t}" using st(1,3) by auto
  ultimately show ?thesis by blast
qed

lemma ledger_alloc:
  assumes L: "ledger_ok h L" and "n + 3 < 2 ^ 64"
  obtains h' p where "alloc h n = Some (Ok (h', p))"
    and "ledger_ok h' (if p = 0 then L else L(p \<mapsto> n))" and "p \<noteq> 0 \<Longrightarrow> L p = None"
proof -
  have "good h" using L by (simp add: ledger_ok_def)
  from alloc_law [OF this assms(2)] obtain h' p where a: "alloc h n = Some (Ok (h', p))" "good h'"
    "if p = 0 then h' = h else \<exists>s \<ge> n. p \<notin> fst ` used h \<and> used h' = insert (p, s) (used h)" by blast
  show thesis
  proof (cases "p = 0")
    case True
    then show thesis using that [OF a(1)] a(3) L by simp
  next
    case False
    then obtain s where s: "n \<le> s" "p \<notin> fst ` used h" "used h' = insert (p, s) (used h)" using a(3) by auto
    have dom: "dom L = fst ` used h" and sz: "\<And>q m. L q = Some m \<Longrightarrow> \<exists>t \<ge> m. (q, t) \<in> used h"
      using L unfolding ledger_ok_def by blast+
    have "L p = None" using s(2) dom by blast
    moreover have "dom (L(p \<mapsto> n)) = fst ` used h'" using dom s(3) by simp
    moreover have "\<exists>t \<ge> m. (q, t) \<in> used h'" if "(L(p \<mapsto> n)) q = Some m" for q m
      using that s(1,3) sz [of q m] by (cases "q = p") auto
    ultimately have "L p = None" "ledger_ok h' (L(p \<mapsto> n))"
      using a(2) unfolding ledger_ok_def by blast+
    then show thesis using that [OF a(1)] False by simp
  qed
qed

lemma ledger_free:
  assumes L: "ledger_ok h L" and "L p = Some n" and "freeable h p"
  obtains h' where "free h p = Some (Ok h')" and "ledger_ok h' (L(p := None))"
proof -
  have "good h" "\<exists>s. (p, s) \<in> used h" using L assms(2) unfolding ledger_ok_def by blast+
  then obtain s where g: "good h" "(p, s) \<in> used h" by blast
  from free_law [OF this assms(3)] obtain h' where
    h': "free h p = Some (Ok h')" "good h'" "used h' = used h - {(p, s)}" by blast
  have dom: "dom (L(p := None)) = fst ` used h'"
  proof -
    have "p \<notin> fst ` used h'" using used_inj [OF g(1) g(2)] h'(3) by force
    moreover have "fst ` used h = insert p (fst ` used h')" using h'(3) g(2) by force
    moreover have "dom L = fst ` used h" using L unfolding ledger_ok_def by blast
    ultimately show ?thesis by auto
  qed
  have "\<exists>t \<ge> m. (q, t) \<in> used h'" if "(L(p := None)) q = Some m" for q m
  proof -
    have "q \<noteq> p" "L q = Some m" using that by (auto split: if_splits)
    with L obtain t where "m \<le> t" "(q, t) \<in> used h" unfolding ledger_ok_def by blast
    then show ?thesis using h'(3) \<open>q \<noteq> p\<close> by auto
  qed
  then have "ledger_ok h' (L(p := None))"
    using dom h'(2) unfolding ledger_ok_def by blast
  with h'(1) show thesis by (rule that)
qed

end

section \<open>The kernel heap implements the contract\<close>

definition kheap_good :: "kheap \<Rightarrow> bool" where
  "kheap_good k \<longleftrightarrow> (\<exists>cs. heap_ok (kh_mem k) (kh_base k) (kh_size k) cs)"

definition kheap_used :: "kheap \<Rightarrow> (nat \<times> nat) set" where
  "kheap_used k = {b. \<exists>cs. heap_ok (kh_mem k) (kh_base k) (kh_size k) cs \<and> b \<in> set (blocks (kh_base k) cs)}"

text \<open>The block is inside the heap and not the final chunk behind a free one.\<close>

definition kheap_freeable :: "kheap \<Rightarrow> nat \<Rightarrow> bool" where
  "kheap_freeable k ptr \<longleftrightarrow> (let h = kh_mem k; m = chunk_of ptr; b = before (h m)
     in is_kheap k ptr \<and> \<not> (is_last (h m) \<and> b \<noteq> 0 \<and> \<not> is_used (h b)))"

lemma chunks_det:
  "chunks h a b cs True \<Longrightarrow> chunks h a b ds True \<Longrightarrow> cs \<noteq> [] \<Longrightarrow> ds \<noteq> [] \<Longrightarrow> cs = ds"
proof (induction cs arbitrary: a b ds)
  case (Cons c cs)
  obtain s u t v ds' where c: "c = (s, u)" "ds = (t, v) # ds'"
    using Cons.prems(4) by (metis list.exhaust surj_pair)
  have eq: "mkchunk b s (cs = []) u = mkchunk b t (ds' = []) v" using Cons.prems c by simp
  have st: "s = t" using arg_cong [OF eq, of csize] by simp
  have fl: "mkflags (cs = []) u = mkflags (ds' = []) v" using arg_cong [OF eq, of flags] by simp
  have uv: "u = v" using arg_cong [OF fl, of "\<lambda>f. f AND MEMCHUNK_FLAG_USED = 0"] by simp
  have ends: "cs = [] \<longleftrightarrow> ds' = []" using arg_cong [OF fl, of "\<lambda>f. f AND MEMCHUNK_FLAG_LAST = 0"] by simp
  show ?case
  proof (cases "cs = []")
    case False
    then have "cs = ds'" using Cons.prems c st ends by (intro Cons.IH [of "a + HDR + s" a]) auto
    then show ?thesis using st uv c by simp
  qed (use st uv ends c in simp)
qed simp

lemma heap_ok_det: "heap_ok h base tot cs \<Longrightarrow> heap_ok h base tot ds \<Longrightarrow> cs = ds"
  by (rule chunks_det [of h base 0]) (simp_all add: heap_ok_def)

lemma kheap_used_eq:
  assumes "heap_ok (kh_mem k) (kh_base k) (kh_size k) cs"
  shows "kheap_used k = set (blocks (kh_base k) cs)"
  unfolding kheap_used_def using assms heap_ok_det [OF assms] by blast

lemma kheap_fsck_ok: "heap_ok (kh_mem k) (kh_base k) (kh_size k) cs \<Longrightarrow> kheap_fsck k = Some (Ok ())"
  by (simp add: kheap_fsck_def salloc_fsck_ok)

lemma ALIGN4_ge:
  assumes "n + 3 < 2 ^ 64"
  shows "n \<le> ALIGN4 n"
proof -
  have "ALIGN4 n = (n + 3) - (n + 3) mod 4" unfolding ALIGN4_def wrap64_def mod_less [OF assms] ..
  moreover have "(n + 3) mod 4 < 4" by (rule mod_less_divisor) simp
  ultimately show ?thesis by linarith
qed

lemma kheap_block:
  assumes ok: "heap_ok h base tot cs" and "(p, s) \<in> set (blocks base cs)"
  obtains xs ys where "cs = xs @ (s, True) # ys" "p = base + span xs + HDR"
    "chunk_of p = base + span xs" "base \<le> p" "p < base + tot + 1"
    "h (chunk_of p) = mkchunk (prev base 0 xs) s (ys = []) True"
proof -
  from assms(2) obtain xs ys where cs: "cs = xs @ (s, True) # ys" "p = base + span xs + HDR"
    by (auto simp: blocks_mem)
  note sp = heap_ok_split [OF ok [unfolded cs(1)]]
  have "chunk_of p = base + span xs" using sp(4,5) cs(2) by (simp add: chunk_of_def)
  moreover have "base \<le> p" "p < base + tot + 1" using sp(4) cs(2) by simp_all
  ultimately show thesis using that [OF cs] sp(2) by simp
qed

lemma kheap_freeable_chunk:
  assumes ok: "heap_ok (kh_mem k) (kh_base k) (kh_size k) (xs @ (s, True) # ys)"
    and at: "chunk_of p = kh_base k + span xs" and "kheap_freeable k p"
  shows "ys \<noteq> [] \<or> xs = [] \<or> snd (last xs)"
proof (rule ccontr)
  assume "\<not> ?thesis"
  then obtain xs1 t where xs: "xs = xs1 @ [(t, False)]" "ys = []"
    by (metis (full_types) append_butlast_last_id prod.collapse)
  note sp = heap_ok_split [OF ok]
  have "kh_mem k (kh_base k + span xs1) = mkchunk (prev (kh_base k) 0 xs1) t False False"
    using heap_ok_prev(1) [of "kh_mem k" "kh_base k" "kh_size k" xs1 t False s True "[]"] ok xs by simp
  then show False
    using assms(3) sp(2,7) xs by (simp add: kheap_freeable_def at Let_def prev_snoc)
qed

interpretation kh: block_heap kheap_good kheap_used kheap_freeable kmalloc kfree
proof unfold_locales
  fix k :: kheap and b c
  assume "kheap_good k" "b \<in> kheap_used k" "c \<in> kheap_used k" "b \<noteq> c"
  then show "ival b \<inter> ival c = {}"
    using blocks_disjoint kheap_used_eq unfolding kheap_good_def by metis
next
  fix k :: kheap and p s t
  assume "kheap_good k" "(p, s) \<in> kheap_used k" "(p, t) \<in> kheap_used k"
  then show "s = t" using blocks_address kheap_used_eq unfolding kheap_good_def by metis
next
  fix k :: kheap and n :: nat
  assume good: "kheap_good k" and n: "n + 3 < 2 ^ 64"
  let ?h = "kh_mem k" and ?base = "kh_base k" and ?tot = "kh_size k"
  obtain cs where ok: "heap_ok ?h ?base ?tot cs" using good by (auto simp: kheap_good_def)
  note used = kheap_used_eq [OF ok]
  from salloc_alloc_refines [OF ok, of n]
  show "\<exists>k' p. kmalloc k n = Some (Ok (k', p)) \<and> kheap_good k' \<and>
      (if p = 0 then k' = k else \<exists>s \<ge> n. p \<notin> fst ` kheap_used k \<and> kheap_used k' = insert (p, s) (kheap_used k))"
  proof (elim disjE exE conjE)
    fix xs s ys h'
    assume cs: "cs = xs @ (s, False) # ys" and fit: "ALIGN4 n \<le> s"
      and al: "salloc_alloc ?h ?base n = Some (Allocated h' (?base + span xs + HDR))"
      and ok': "heap_ok h' ?base ?tot (xs @ split_chunk (ALIGN4 n) s @ ys)"
    let ?p = "?base + span xs + HDR" and ?k' = "k\<lparr>kh_mem := h'\<rparr>"
    obtain t where t: "ALIGN4 n \<le> t" "blocks (?base + span xs) (split_chunk (ALIGN4 n) s @ ys)
        = (?p, t) # blocks (?p + s) ys"
      using blocks_split_chunk [OF fit, of "?base + span xs" ys] by auto
    have "kheap_used ?k' = set (blocks ?base (xs @ split_chunk (ALIGN4 n) s @ ys))"
      using kheap_used_eq [of ?k'] ok' by simp
    also have "\<dots> = insert (?p, t) (kheap_used k)" unfolding used cs blocks_append [of ?base xs] t(2) by simp
    finally have new: "kheap_used ?k' = insert (?p, t) (kheap_used k)" .
    moreover have "?p \<notin> fst ` kheap_used k"
    proof
      assume "?p \<in> fst ` kheap_used k"
      then obtain r where "(?p, r) \<in> set (blocks ?base cs)" unfolding used by force
      then consider "(?p, r) \<in> set (blocks ?base xs)" | "(?p, r) \<in> set (blocks (?p + s) ys)"
        unfolding cs blocks_append by auto
      then show False using blocks_bounds [of ?p r] by cases fastforce+
    qed
    moreover have "n \<le> t" using ALIGN4_ge [OF n] t(1) by simp
    moreover have "kmalloc k n = Some (Ok (?k', ?p))" using al ok by (simp add: kmalloc_def kheap_fsck_ok)
    moreover have "kheap_good ?k'" using ok' by (auto simp: kheap_good_def)
    ultimately show ?thesis by (intro exI [of _ ?k'] exI [of _ ?p]) auto
  next
    assume "salloc_alloc ?h ?base n = Some (NoMemory
         (if snd (last cs) then wrap64 (HDR + ALIGN4 n) else ALIGN4 n - fst (last cs)))"
    then have "kmalloc k n = Some (Ok (k, 0))" using ok by (simp add: kmalloc_def kheap_fsck_ok)
    then show ?thesis using good by auto
  qed
next
  fix k :: kheap and p s
  assume good: "kheap_good k" and mem: "(p, s) \<in> kheap_used k" and fr: "kheap_freeable k p"
  let ?h = "kh_mem k" and ?base = "kh_base k" and ?tot = "kh_size k"
  obtain cs where ok: "heap_ok ?h ?base ?tot cs" using good by (auto simp: kheap_good_def)
  note used = kheap_used_eq [OF ok]
  from mem obtain xs ys where b: "cs = xs @ (s, True) # ys" "p = ?base + span xs + HDR" "chunk_of p = ?base + span xs"
    unfolding used by (rule kheap_block [OF ok]) blast
  have ok2: "heap_ok ?h ?base ?tot (xs @ (s, True) # ys)" using ok b(1) by simp
  have "ys \<noteq> [] \<or> xs = [] \<or> snd (last xs)" by (rule kheap_freeable_chunk [OF ok2 b(3) fr])
  from salloc_free_refines [OF ok2 this] obtain h' where
    h': "salloc_free ?h p = (h', None)" "heap_ok h' ?base ?tot (free_chunk xs s ys)" unfolding b(2) by blast
  let ?k' = "k\<lparr>kh_mem := h'\<rparr>"
  have "is_kheap k p" "p \<noteq> 0" using fr b(2) by (auto simp: kheap_freeable_def Let_def)
  then have "kfree k p = Some (Ok ?k')" using h'(1) by (simp add: kfree_def kheap_fsck_ok [OF ok])
  moreover have "kheap_good ?k'" using h'(2) by (auto simp: kheap_good_def)
  moreover have "kheap_used ?k' = kheap_used k - {(p, s)}"
  proof -
    have "kheap_used ?k' = set (blocks ?base xs) \<union> set (blocks (p + s) ys)"
      using kheap_used_eq [of ?k' "free_chunk xs s ys"] h'(2) by (simp add: blocks_free_chunk b(2))
    moreover have "kheap_used k = insert (p, s) (set (blocks ?base xs) \<union> set (blocks (p + s) ys))"
      unfolding used b(1) by (auto simp: blocks_append b(2))
    moreover have "(p, s) \<notin> set (blocks ?base xs)" using blocks_bounds [of p s ?base xs] b(2) by auto
    moreover have "(p, s) \<notin> set (blocks (p + s) ys)" using blocks_bounds [of p s "p + s" ys] by auto
    ultimately show ?thesis by blast
  qed
  ultimately show "\<exists>k'. kfree k p = Some (Ok k') \<and> kheap_good k' \<and> kheap_used k' = kheap_used k - {(p, s)}"
    by blast
qed


section \<open>Runs of the kernel heap\<close>

text \<open>
  A client that frees only pointers it holds, with the ledger of what it asked for.
\<close>

inductive kheap_step :: "kheap \<times> (nat \<rightharpoonup> nat) \<Rightarrow> kheap \<times> (nat \<rightharpoonup> nat) \<Rightarrow> bool" where
  step_malloc: "kmalloc k n = Some (Ok (k', p)) \<Longrightarrow> n + 3 < 2 ^ 64 \<Longrightarrow>
     kheap_step (k, L) (k', if p = 0 then L else L(p \<mapsto> n))"
| step_free: "L p = Some n \<Longrightarrow> kheap_freeable k p \<Longrightarrow> kfree k p = Some (Ok k') \<Longrightarrow>
     kheap_step (k, L) (k', L(p := None))"

inductive_cases kheap_stepE: "kheap_step (k, L) s"

lemma kheap_step_ledger:
  assumes "kheap_step (k, L) (k', L')" and "kh.ledger_ok k L"
  shows "kh.ledger_ok k' L'"
  using assms(1)
proof (rule kheap_stepE)
  fix n k1 p
  assume *: "(k', L') = (k1, if p = 0 then L else L(p \<mapsto> n))" "kmalloc k n = Some (Ok (k1, p))"
    "n < 18446744073709551613"
  then have n: "n + 3 < 2 ^ 64" by simp
  obtain k2 q where "kmalloc k n = Some (Ok (k2, q))" "kh.ledger_ok k2 (if q = 0 then L else L(q \<mapsto> n))"
    by (rule kh.ledger_alloc [OF assms(2) n])
  then show ?thesis using *(1,2) by (cases "q = 0") simp_all
next
  fix p n k1
  assume *: "(k', L') = (k1, L(p := None))" "L p = Some n" "kheap_freeable k p" "kfree k p = Some (Ok k1)"
  obtain k2 where "kfree k p = Some (Ok k2)" "kh.ledger_ok k2 (L(p := None))"
    by (rule kh.ledger_free [OF assms(2) *(2,3)])
  then show ?thesis using *(1,4) by simp
qed

lemma kheap_run_ledger:
  assumes "kheap_step\<^sup>*\<^sup>* s s'" and "kh.ledger_ok (fst s) (snd s)"
  shows "kh.ledger_ok (fst s') (snd s')"
  using assms
  by (induction rule: rtranclp_induct) (auto intro: kheap_step_ledger)

lemma kheap_init_ok:
  assumes "1024 \<le> kh_size k" and "kh_size k < 2 ^ 32" and "0 < kh_base k" and "kh_base k + kh_size k < 2 ^ 64"
  obtains h where "kheap_init k 0 = (k\<lparr>kh_mem := h\<rparr>, 0)" and "heap_ok h (kh_base k) (kh_size k) [(kh_size k - HDR, False)]"
  using assms by (simp add: kheap_init_def salloc_init_def set_chunk_mkchunk heap_ok_def)

lemma kheap_init_ledger:
  assumes "1024 \<le> kh_size k" and "kh_size k < 2 ^ 32" and "0 < kh_base k" and "kh_base k + kh_size k < 2 ^ 64"
  shows "snd (kheap_init k 0) = 0" and "kh.ledger_ok (fst (kheap_init k 0)) Map.empty"
proof -
  obtain h where h: "kheap_init k 0 = (k\<lparr>kh_mem := h\<rparr>, 0)"
    "heap_ok h (kh_base k) (kh_size k) [(kh_size k - HDR, False)]" by (rule kheap_init_ok [OF assms])
  have "kheap_used (k\<lparr>kh_mem := h\<rparr>) = {}"
    using kheap_used_eq [of "k\<lparr>kh_mem := h\<rparr>"] h(2) by simp
  moreover have "kheap_good (k\<lparr>kh_mem := h\<rparr>)" using h(2) by (auto simp: kheap_good_def)
  ultimately show "snd (kheap_init k 0) = 0" "kh.ledger_ok (fst (kheap_init k 0)) Map.empty"
    using h(1) by (simp_all add: kh.ledger_ok_def)
qed

lemma kheap_used_inside:
  assumes "kheap_good k" and "(p, s) \<in> kheap_used k"
  shows "kh_base k + HDR \<le> p" and "p + s \<le> kh_base k + kh_size k"
proof -
  obtain cs where ok: "heap_ok (kh_mem k) (kh_base k) (kh_size k) cs"
    using assms(1) by (auto simp: kheap_good_def)
  then show "kh_base k + HDR \<le> p" "p + s \<le> kh_base k + kh_size k"
    using blocks_bounds [of p s "kh_base k" cs] assms(2) kheap_used_eq [OF ok] by (simp_all add: heap_ok_def)
qed

lemma kheap_ledger_inside:
  assumes "kh.ledger_ok k L" and "L p = Some n"
  shows "kh_base k < p" and "p + n \<le> kh_base k + kh_size k"
proof -
  obtain s where "n \<le> s" "(p, s) \<in> kheap_used k" "kheap_good k"
    using assms unfolding kh.ledger_ok_def by blast
  then show "kh_base k < p" "p + n \<le> kh_base k + kh_size k"
    using kheap_used_inside [of k p s] by auto
qed


definition sample_kheap :: kheap where
  "sample_kheap = \<lparr> kh_mem = (\<lambda>_. zero_chunk), kh_base = 0x1000, kh_size = 1024, do_malloc_fsck = True \<rparr>"

definition sample_used :: kheap where
  "sample_used = sample_kheap\<lparr>kh_mem := (\<lambda>_. zero_chunk)(0x1000 := mkchunk 0 16 False True,
     0x1030 := mkchunk 0x1000 32 False True, 0x1070 := mkchunk 0x1030 880 True False)\<rparr>"

lemma sample_run: "kheap_step\<^sup>*\<^sup>* (fst (kheap_init sample_kheap 0), Map.empty)
    (sample_used, [0x1020 \<mapsto> 15, 0x1050 \<mapsto> 32])"
proof -
  let ?k0 = "sample_kheap\<lparr>kh_mem := (\<lambda>_. zero_chunk)(0x1000 := mkchunk 0 992 True False)\<rparr>"
  let ?k1 = "sample_kheap\<lparr>kh_mem := (\<lambda>_. zero_chunk)(0x1000 := mkchunk 0 16 False True,
    0x1030 := mkchunk 0x1000 944 True False)\<rparr>"
  have 0: "fst (kheap_init sample_kheap 0) = ?k0"
    by (simp add: kheap_init_def sample_kheap_def salloc_init_def set_chunk_mkchunk)
  have ok0: "heap_ok (kh_mem ?k0) (kh_base ?k0) (kh_size ?k0) [(992, False)]"
    by (simp add: heap_ok_def sample_kheap_def)
  have ok1: "heap_ok (kh_mem ?k1) (kh_base ?k1) (kh_size ?k1) [(16, True), (944, False)]"
    by (simp add: heap_ok_def sample_kheap_def)
  have w0: "alloc_walk (kh_mem ?k0) 16 0x1000 = Some (Fits 0x1000)"
    using alloc_walk_eq [of "kh_mem ?k0" "kh_base ?k0" 0 "[(992, False)]" 16] ok0
    by (simp add: heap_ok_def sample_kheap_def)
  have w1: "alloc_walk (kh_mem ?k1) 32 0x1000 = Some (Fits 0x1030)"
    using alloc_walk_eq [of "kh_mem ?k1" "kh_base ?k1" 0 "[(16, True), (944, False)]" 32] ok1
    by (simp add: heap_ok_def sample_kheap_def)
  note ev = kmalloc_def salloc_alloc_def ALIGN4_def wrap64_def take_chunk_def
    Let_def set_chunk_mkchunk chunk_data_def next_chunk_def
  have 1: "kmalloc ?k0 15 = Some (Ok (?k1, 0x1020))"
    unfolding ev kheap_fsck_ok [OF ok0] using w0 by (simp add: sample_kheap_def set_chunk_mkchunk fun_upd_twist)
  have 2: "kmalloc ?k1 32 = Some (Ok (sample_used, 0x1050))"
    unfolding ev kheap_fsck_ok [OF ok1] using w1
    by (simp add: sample_kheap_def sample_used_def set_chunk_mkchunk fun_upd_twist)
  have "kheap_step (?k0, Map.empty) (?k1, [0x1020 \<mapsto> 15])" using step_malloc [OF 1, of Map.empty] by simp
  moreover have "kheap_step (?k1, [0x1020 \<mapsto> 15]) (sample_used, [0x1020 \<mapsto> 15, 0x1050 \<mapsto> 32])"
    using step_malloc [OF 2, of "[0x1020 \<mapsto> 15]"] by simp
  ultimately show ?thesis unfolding 0 by (meson r_into_rtranclp rtranclp_trans)
qed


end
