(* ===== verification/Ktime.thy ===== *)
theory Ktime
  imports Bootparam
begin

text \<open>
  Time: \<^verbatim>\<open>lib/time.c\<close>, \<^verbatim>\<open>include/grinch/time.h\<close> (seconds and nanoseconds) and
  \<^verbatim>\<open>kernel/timer.c\<close> (the next timer interrupt of each CPU). \<^verbatim>\<open>time_t\<close> is a signed 64-bit
  number, here an \<open>int\<close> in that range; sums that can leave it wrap by \<open>s64_of\<close>, as the machine
  instructions do, and where the source converts to unsigned the \<open>mod\<close> is written out.
  \<^verbatim>\<open>timeu_t\<close> is a 64-bit word. The architecture's clock is an argument.
\<close>

section \<open>Seconds and nanoseconds\<close>

definition NSEC_PER_SEC :: int where "NSEC_PER_SEC = 1000000000"
definition TIME_MAX :: int where "TIME_MAX = 2 ^ 63 - 1"
definition TIME_MIN :: int where "TIME_MIN = - TIME_MAX - 1"

text \<open>C division rounds towards zero.\<close>

definition TIME_SEC_MAX :: int where "TIME_SEC_MAX = TIME_MAX div NSEC_PER_SEC"
definition TIME_SEC_MIN :: int where "TIME_SEC_MIN = - ((- TIME_MIN) div NSEC_PER_SEC)"

record timespec =
  tv_sec :: int
  tv_nsec :: int

function norm_down :: "int \<Rightarrow> int \<Rightarrow> int \<times> int" where
  "norm_down sec nsec =
     (if nsec \<ge> NSEC_PER_SEC then norm_down (s64_of (sec + 1)) (nsec - NSEC_PER_SEC) else (sec, nsec))"
  by auto
termination
  by (relation "measure (\<lambda>(s, n). nat n)") (auto simp: NSEC_PER_SEC_def)

function norm_up :: "int \<Rightarrow> int \<Rightarrow> int \<times> int" where
  "norm_up sec nsec =
     (if nsec < 0 then norm_up (s64_of (sec - 1)) (nsec + NSEC_PER_SEC) else (sec, nsec))"
  by auto
termination
  by (relation "measure (\<lambda>(s, n). nat (- n))") (auto simp: NSEC_PER_SEC_def)

declare norm_down.simps [simp del] norm_up.simps [simp del]

definition set_normalized_ts :: "int \<Rightarrow> int \<Rightarrow> timespec" where
  "set_normalized_ts sec nsec =
     (let (sec, nsec) = norm_down sec nsec; (sec, nsec) = norm_up sec nsec
      in \<lparr> tv_sec = sec, tv_nsec = nsec \<rparr>)"

definition timespec_add :: "timespec \<Rightarrow> timespec \<Rightarrow> timespec" where
  "timespec_add lhs rhs = set_normalized_ts (s64_of (tv_sec lhs + tv_sec rhs)) (s64_of (tv_nsec lhs + tv_nsec rhs))"

text \<open>\<^verbatim>\<open>div_u64_rem\<close> takes its dividend as an unsigned 64-bit number.\<close>

definition div_u64_rem :: "int \<Rightarrow> int \<times> int" where
  "div_u64_rem n = (n mod 2 ^ 64 div NSEC_PER_SEC, n mod 2 ^ 64 mod NSEC_PER_SEC)"

definition ns_to_ts :: "int \<Rightarrow> timespec" where
  "ns_to_ts ns =
     (if ns > 0 then let (q, rem) = div_u64_rem ns in \<lparr> tv_sec = q, tv_nsec = rem \<rparr>
      else let (q, rem) = div_u64_rem (- ns - 1)
           in \<lparr> tv_sec = - q - 1, tv_nsec = NSEC_PER_SEC - rem - 1 \<rparr>)"

definition us_to_ts :: "int \<Rightarrow> timespec" where
  "us_to_ts us = ns_to_ts (s64_of (us * 1000))"

definition ts_to_ns :: "timespec \<Rightarrow> int" where
  "ts_to_ns ts =
     (if tv_sec ts \<ge> TIME_SEC_MAX then TIME_MAX
      else if tv_sec ts \<le> TIME_SEC_MIN then TIME_MIN
      else s64_of (tv_sec ts * NSEC_PER_SEC + tv_nsec ts))"

section \<open>Timer interrupts\<close>

text \<open>
  The per-CPU fields the timer and the scheduler use: the current task (by its address),
  the requests set by interrupts, when the next timer interrupt is due, and the value last
  programmed into the hardware.
\<close>

record percpu =
  current_task :: "nat option"
  sched_req :: bool
  handle_events :: bool
  idling :: bool
  timer_next :: u64
  timer_hw :: u64

record timer_conf =
  timer_hz :: nat
  wall_base :: u64

definition HZ_TO_NS :: "nat \<Rightarrow> u64" where
  "HZ_TO_NS hz = word_of_int (NSEC_PER_SEC div int hz)"

definition timer_hz_parse :: "bytes \<Rightarrow> nat \<Rightarrow> timer_conf \<Rightarrow> timer_conf" where
  "timer_hz_parse m arg tc =
     (let (ret, _) = strtoul m arg 10
      in if ret > 100000 then tc else tc\<lparr>timer_hz := unat ret\<rparr>)"

definition timer_get_wall_ns :: "timer_conf \<Rightarrow> u64 \<Rightarrow> u64" where
  "timer_get_wall_ns tc clk = clk - wall_base tc"

definition timer_ticks_to_time :: "timer_conf \<Rightarrow> u64 \<Rightarrow> timespec" where
  "timer_ticks_to_time tc clk = ns_to_ts (sint (clk - wall_base tc))"

definition timer_get_wall :: "timer_conf \<Rightarrow> u64 \<Rightarrow> timespec" where
  "timer_get_wall tc clk =
     (if wall_base tc = 0 then \<lparr> tv_sec = 0, tv_nsec = 0 \<rparr>
      else ns_to_ts (sint (timer_get_wall_ns tc clk)))"

text \<open>\<open>exp\<close> is the expiration of the first pending task, if there is one.\<close>

definition timer_update :: "timer_conf \<Rightarrow> u64 option \<Rightarrow> percpu \<Rightarrow> percpu" where
  "timer_update tc expi p =
     (let p = (case expi of
                 Some x \<Rightarrow> if x < timer_next p then p\<lparr>timer_next := x\<rparr> else p
               | None \<Rightarrow> p)
      in if timer_next p \<noteq> -1 then p\<lparr>timer_hw := timer_next p + wall_base tc\<rparr>
         else p\<lparr>timer_hw := -1\<rparr>)"

definition handle_timer :: "timer_conf \<Rightarrow> u64 \<Rightarrow> percpu \<Rightarrow> percpu" where
  "handle_timer tc clk p =
     (let p = p\<lparr>sched_req := True, handle_events := True\<rparr>;
          nxt = (if timer_hz tc \<noteq> 0 then timer_get_wall_ns tc clk + HZ_TO_NS (timer_hz tc) else -1)
      in timer_update tc None (p\<lparr>timer_next := nxt\<rparr>))"

definition timer_cpu_init :: "timer_conf \<Rightarrow> percpu \<Rightarrow> percpu" where
  "timer_cpu_init tc p =
     (let nxt = (if timer_hz tc \<noteq> 0 then HZ_TO_NS (timer_hz tc) else -1)
      in p\<lparr>timer_next := nxt, timer_hw := nxt + wall_base tc\<rparr>)"

section \<open>Properties\<close>

definition ts_total :: "timespec \<Rightarrow> int" where
  "ts_total ts = tv_sec ts * NSEC_PER_SEC + tv_nsec ts"

definition normalized :: "timespec \<Rightarrow> bool" where
  "normalized ts \<longleftrightarrow> 0 \<le> tv_nsec ts \<and> tv_nsec ts < NSEC_PER_SEC"

lemma norm_down_val:
  "s64_of sec = sec \<Longrightarrow> norm_down sec nsec =
     (if 0 \<le> nsec then (s64_of (sec + nsec div NSEC_PER_SEC), nsec mod NSEC_PER_SEC) else (sec, nsec))"
proof (induction sec nsec rule: norm_down.induct)
  case (1 sec nsec)
  show ?case
  proof (cases "nsec \<ge> NSEC_PER_SEC")
    case True
    have N: "0 < NSEC_PER_SEC" by (simp add: NSEC_PER_SEC_def)
    have d: "nsec div NSEC_PER_SEC = (nsec - NSEC_PER_SEC) div NSEC_PER_SEC + 1" "nsec mod NSEC_PER_SEC = (nsec - NSEC_PER_SEC) mod NSEC_PER_SEC"
      by (rule div_pos_geq [OF N True], rule mod_pos_geq [OF N True])
    have "norm_down sec nsec = norm_down (s64_of (sec + 1)) (nsec - NSEC_PER_SEC)" using True by (subst norm_down.simps) simp
    also have "\<dots> = (s64_of (s64_of (sec + 1) + (nsec - NSEC_PER_SEC) div NSEC_PER_SEC), (nsec - NSEC_PER_SEC) mod NSEC_PER_SEC)"
      using 1(1) [OF True] True by (simp add: s64_of_idem)
    also have "\<dots> = (s64_of (sec + nsec div NSEC_PER_SEC), nsec mod NSEC_PER_SEC)" unfolding d s64_of_add by (simp add: ac_simps)
    finally show ?thesis using True by (simp add: NSEC_PER_SEC_def)
  qed (use 1 in \<open>auto simp: norm_down.simps [of sec nsec] NSEC_PER_SEC_def\<close>)
qed

lemma norm_up_val:
  "s64_of sec = sec \<Longrightarrow> nsec < NSEC_PER_SEC \<Longrightarrow>
     norm_up sec nsec = (s64_of (sec + nsec div NSEC_PER_SEC), nsec mod NSEC_PER_SEC)"
proof (induction sec nsec rule: norm_up.induct)
  case (1 sec nsec)
  show ?case
  proof (cases "nsec < 0")
    case True
    have d: "(nsec + NSEC_PER_SEC) div NSEC_PER_SEC = nsec div NSEC_PER_SEC + 1" "(nsec + NSEC_PER_SEC) mod NSEC_PER_SEC = nsec mod NSEC_PER_SEC"
      by (simp_all add: NSEC_PER_SEC_def)
    have "norm_up sec nsec = norm_up (s64_of (sec - 1)) (nsec + NSEC_PER_SEC)" using True by (subst norm_up.simps) simp
    also have "\<dots> = (s64_of (s64_of (sec - 1) + (nsec div NSEC_PER_SEC + 1)), nsec mod NSEC_PER_SEC)"
      using 1(1) [OF True] True d by (simp add: s64_of_idem)
    also have "\<dots> = (s64_of (sec + nsec div NSEC_PER_SEC), nsec mod NSEC_PER_SEC)" by (simp add: s64_of_add)
    finally show ?thesis .
  qed (use 1 in \<open>auto simp: norm_up.simps [of sec nsec] NSEC_PER_SEC_def\<close>)
qed

lemma set_normalized_ts_val:
  assumes "s64_of sec = sec"
  shows "set_normalized_ts sec nsec = \<lparr>tv_sec = s64_of (sec + nsec div NSEC_PER_SEC), tv_nsec = nsec mod NSEC_PER_SEC\<rparr>"
proof (cases "0 \<le> nsec")
  case True
  have "nsec mod NSEC_PER_SEC < NSEC_PER_SEC" "nsec mod NSEC_PER_SEC div NSEC_PER_SEC = 0"
    by (simp_all add: NSEC_PER_SEC_def)
  then show ?thesis using True norm_down_val [OF assms] norm_up_val
    by (simp add: set_normalized_ts_def s64_of_idem)
next
  case False
  then show ?thesis using norm_down_val [OF assms] norm_up_val [OF assms, of nsec]
    by (simp add: set_normalized_ts_def NSEC_PER_SEC_def)
qed

lemma timespec_add_val:
  assumes "s64_of (tv_nsec a + tv_nsec b) = tv_nsec a + tv_nsec b"
  shows "timespec_add a b = \<lparr>tv_sec = s64_of ((ts_total a + ts_total b) div NSEC_PER_SEC),
    tv_nsec = (ts_total a + ts_total b) mod NSEC_PER_SEC\<rparr>"
proof -
  have t: "ts_total a + ts_total b = (tv_nsec a + tv_nsec b) + (tv_sec a + tv_sec b) * NSEC_PER_SEC"
    by (simp add: ts_total_def algebra_simps)
  have "(ts_total a + ts_total b) div NSEC_PER_SEC = tv_sec a + tv_sec b + (tv_nsec a + tv_nsec b) div NSEC_PER_SEC"
    "(ts_total a + ts_total b) mod NSEC_PER_SEC = (tv_nsec a + tv_nsec b) mod NSEC_PER_SEC"
    unfolding t by (simp add: NSEC_PER_SEC_def) (rule mod_mult_self1)
  then show ?thesis using assms by (simp add: timespec_add_def set_normalized_ts_val s64_of_idem s64_of_add)
qed

lemma TIME_SEC_val: "TIME_SEC_MAX = 9223372036" "TIME_SEC_MIN = -9223372036"
  by (simp_all add: TIME_SEC_MAX_def TIME_SEC_MIN_def TIME_MIN_def TIME_MAX_def NSEC_PER_SEC_def)

lemma ns_to_ts_total:
  assumes "- (2 ^ 63) < ns" "ns < 2 ^ 63" "ns \<noteq> 0"
  shows "normalized (ns_to_ts ns)" "ts_total (ns_to_ts ns) = ns"
proof -
  have pos: "(if ns > 0 then ns else - ns - 1) mod 2 ^ 64 = (if ns > 0 then ns else - ns - 1)"
    using assms by (intro mod_pos_pos_trivial) auto
  have q: "x div NSEC_PER_SEC * NSEC_PER_SEC + x mod NSEC_PER_SEC = x" for x by simp
  show "normalized (ns_to_ts ns)" using pos
    by (auto simp: ns_to_ts_def div_u64_rem_def normalized_def NSEC_PER_SEC_def)
  show "ts_total (ns_to_ts ns) = ns" using pos q [of ns] q [of "- ns - 1"]
    by (auto simp: ns_to_ts_def div_u64_rem_def ts_total_def NSEC_PER_SEC_def algebra_simps split: if_splits)
qed

text \<open>
  C36. A time in nanoseconds converted to seconds and nanoseconds is normalised and, away
  from the saturation bounds, converts back to itself; the one exception is zero, which the
  code sends to a time more than 500 years in the past (the branch for negative numbers
  computes with minus one as an unsigned number). The sum of two times is always normalised.
  If the sum of the nanosecond fields fits 64 bits, the seconds are the exact ones modulo
  \<open>2\<^sup>6\<^sup>4\<close>, so the sum is exact whenever its seconds fit 64 bits.
\<close>

theorem timespec_arithmetic:
  assumes "- 9223372035 * NSEC_PER_SEC < ns" and "ns < 9223372035 * NSEC_PER_SEC"
  shows "(if ns = 0 then ns_to_ts ns = \<lparr> tv_sec = -18446744074, tv_nsec = 290448384 \<rparr>
      else ts_to_ns (ns_to_ts ns) = ns \<and> normalized (ns_to_ts ns)) \<and>
    normalized (timespec_add a b) \<and>
    (- (2 ^ 63) \<le> tv_nsec a + tv_nsec b \<and> tv_nsec a + tv_nsec b < 2 ^ 63 \<longrightarrow>
       tv_sec (timespec_add a b) mod 2 ^ 64 = (ts_total a + ts_total b) div NSEC_PER_SEC mod 2 ^ 64 \<and>
       (- (2 ^ 63) \<le> (ts_total a + ts_total b) div NSEC_PER_SEC \<and> (ts_total a + ts_total b) div NSEC_PER_SEC < 2 ^ 63 \<longrightarrow>
          ts_total (timespec_add a b) = ts_total a + ts_total b))"
proof (intro conjI impI)
  show "if ns = 0 then ns_to_ts ns = \<lparr> tv_sec = -18446744074, tv_nsec = 290448384 \<rparr>
      else ts_to_ns (ns_to_ts ns) = ns \<and> normalized (ns_to_ts ns)"
  proof (cases "ns = 0")
    case False
    have r: "- (2 ^ 63) < ns" "ns < 2 ^ 63" using assms by (simp_all add: NSEC_PER_SEC_def)
    note t = ns_to_ts_total [OF r False]
    then have "\<not> tv_sec (ns_to_ts ns) \<ge> TIME_SEC_MAX" "\<not> tv_sec (ns_to_ts ns) \<le> TIME_SEC_MIN"
      using assms unfolding TIME_SEC_val ts_total_def normalized_def NSEC_PER_SEC_def by linarith+
    moreover have "s64_of ns = ns" using r by (intro s64_of_small) auto
    ultimately show ?thesis using t False by (simp add: ts_to_ns_def ts_total_def)
  qed (simp add: ns_to_ts_def div_u64_rem_def NSEC_PER_SEC_def)
  show "normalized (timespec_add a b)"
    by (simp add: timespec_add_def set_normalized_ts_val s64_of_idem normalized_def NSEC_PER_SEC_def)
next
  assume f: "- (2 ^ 63) \<le> tv_nsec a + tv_nsec b \<and> tv_nsec a + tv_nsec b < 2 ^ 63"
  then have "s64_of (tv_nsec a + tv_nsec b) = tv_nsec a + tv_nsec b" by (intro s64_of_small) auto
  note v = timespec_add_val [OF this]
  show "tv_sec (timespec_add a b) mod 2 ^ 64 = (ts_total a + ts_total b) div NSEC_PER_SEC mod 2 ^ 64"
    unfolding v timespec.select_convs by (rule s64_of_mod)
  assume "- (2 ^ 63) \<le> (ts_total a + ts_total b) div NSEC_PER_SEC \<and> (ts_total a + ts_total b) div NSEC_PER_SEC < 2 ^ 63"
  then have "s64_of ((ts_total a + ts_total b) div NSEC_PER_SEC) = (ts_total a + ts_total b) div NSEC_PER_SEC"
    by (intro s64_of_small) auto
  then show "ts_total (timespec_add a b) = ts_total a + ts_total b"
    unfolding v by (subst ts_total_def) simp
qed

theorem timespec_arithmetic_witness:
  "ts_to_ns (ns_to_ts 1500000000) = 1500000000 \<and> ns_to_ts 0 = \<lparr> tv_sec = -18446744074, tv_nsec = 290448384 \<rparr> \<and>
   ts_total (timespec_add \<lparr>tv_sec = 3, tv_nsec = 600000000\<rparr> \<lparr>tv_sec = 4, tv_nsec = 700000000\<rparr>) = 8300000000"
  using timespec_arithmetic [of 1500000000]
    timespec_arithmetic [of 0 "\<lparr>tv_sec = 3, tv_nsec = 600000000\<rparr>" "\<lparr>tv_sec = 4, tv_nsec = 700000000\<rparr>"]
  by (simp add: NSEC_PER_SEC_def ts_total_def)

end
