(* ===== verification/Task.thy ===== *)
theory Task
  imports Ktime Errno
begin

text \<open>
  Tasks, \<^verbatim>\<open>kernel/task.c\<close>: life cycle, waiting, timers and the scheduler, on any number of
  CPUs. A task is known by its address; the kernel state maps addresses to task structures
  (no entry: the structure is freed), holds the two lists (\<^verbatim>\<open>task_list\<close>, \<^verbatim>\<open>timer_list\<close>)
  in order, and the per-CPU data. A dereference of a freed or null task pointer is \<open>Panic\<close>,
  like \<^verbatim>\<open>BUG()\<close>.

  An operation is one step: system calls, interrupts and passes of the scheduler on different
  CPUs interleave, the inside of an operation does not. For the operations that hold
  \<^verbatim>\<open>task_lock\<close> or the lock of the task from start to end this is what the locks give.
  \<^verbatim>\<open>task_exit\<close> is not of this kind: it reads the parent before it takes a lock. Its two parts
  are therefore definitions of their own, \<open>task_exit_begin\<close> and \<open>task_exit_end\<close>.
\<close>

section \<open>State\<close>

datatype task_state = TASK_INIT | TASK_RUNNABLE | TASK_WFE | TASK_RUNNING | TASK_EXIT_DEAD

datatype task_type = GRINCH_UNDEF | GRINCH_PROCESS | GRINCH_VMACHINE

text \<open>The event a task waits for, with the member of the union the tag selects.\<close>

datatype task_wfe = WFE_NONE | WFE_CHILD int nat | WFE_TIMER u64 | WFE_READ

definition TASK_NO_CPU :: nat where "TASK_NO_CPU = 2 ^ 64 - 1"

record task =
  pid :: int
  state :: task_state
  on_cpu :: nat
  parent :: "nat option"
  children :: "nat list"
  wfe :: task_wfe
  exit_code :: int
  ttype :: task_type
  retval :: int
  vtimer :: bool

text \<open>
  \<open>ustatus\<close> records the status words copied to user memory: the task, the address, the word
  and how many bytes of it arrived. \<open>ipis\<close> holds the CPUs sent an inter-processor interrupt.
\<close>

record kstate =
  tasks :: "nat \<rightharpoonup> task"
  task_list :: "nat list"
  timer_list :: "nat list"
  cpus :: "nat \<Rightarrow> percpu"
  online :: "nat list"
  next_pid :: int
  init_task :: nat
  tconf :: timer_conf
  ustatus :: "(nat \<times> nat \<times> int \<times> nat) list"
  ipis :: "nat list"

definition upd :: "nat \<Rightarrow> (task \<Rightarrow> task) \<Rightarrow> kstate \<Rightarrow> kstate" where
  "upd t f k = k\<lparr>tasks := (tasks k)(t := map_option f (tasks k t))\<rparr>"

definition upd_cpu :: "nat \<Rightarrow> (percpu \<Rightarrow> percpu) \<Rightarrow> kstate \<Rightarrow> kstate" where
  "upd_cpu c f k = k\<lparr>cpus := (cpus k)(c := f (cpus k c))\<rparr>"

definition with_task :: "kstate \<Rightarrow> nat \<Rightarrow> (task \<Rightarrow> 'a result) \<Rightarrow> 'a result" where
  "with_task k t f = (case tasks k t of None \<Rightarrow> Panic | Some T \<Rightarrow> f T)"

abbreviation cur :: "kstate \<Rightarrow> nat \<Rightarrow> nat option" where
  "cur k c \<equiv> current_task (cpus k c)"

section \<open>Operations\<close>

definition task_enqueue :: "nat \<Rightarrow> kstate \<Rightarrow> kstate" where
  "task_enqueue t k = k\<lparr>task_list := t # task_list k\<rparr>"

definition task_dequeue :: "nat \<Rightarrow> kstate \<Rightarrow> kstate" where
  "task_dequeue t k = k\<lparr>task_list := remove1 t (task_list k)\<rparr>"

definition task_set_wfe :: "nat \<Rightarrow> kstate \<Rightarrow> kstate result" where
  "task_set_wfe t k =
     with_task k t (\<lambda>T.
       if state T = TASK_WFE then Panic
       else if wfe T = WFE_NONE then Panic
       else Ok (upd t (\<lambda>T. T\<lparr>state := TASK_WFE\<rparr>) k))"

definition task_release_cpu :: "nat \<Rightarrow> kstate \<Rightarrow> kstate" where
  "task_release_cpu t k = upd t (\<lambda>T. T\<lparr>on_cpu := TASK_NO_CPU\<rparr>) k"

text \<open>Unlinking from the parent's list of children, and freeing.\<close>

definition list_del_sibling :: "nat \<Rightarrow> task \<Rightarrow> kstate \<Rightarrow> kstate" where
  "list_del_sibling t T k =
     (case parent T of None \<Rightarrow> k | Some p \<Rightarrow> upd p (\<lambda>P. P\<lparr>children := remove1 t (children P)\<rparr>) k)"

definition task_put :: "nat \<Rightarrow> kstate \<Rightarrow> kstate result" where
  "task_put t k =
     with_task k t (\<lambda>T.
       if state T \<noteq> TASK_EXIT_DEAD \<and> state T \<noteq> TASK_INIT then Panic
       else let k = list_del_sibling t T k in Ok (k\<lparr>tasks := (tasks k)(t := None)\<rparr>))"

definition exit_status :: "int \<Rightarrow> int" where
  "exit_status code = push_bit 8 (code AND 0xff)"

text \<open>
  A copy between kernel and user memory, as the task code sees it: \<open>None\<close> if it runs into the
  \<^verbatim>\<open>BUG()\<close> of the user access code, else what it returns. The outcome depends on the memory
  of the process and is an argument of the operations that copy.
\<close>

type_synonym 'a ucopy = "'a option"

definition task_notify_wait :: "nat \<Rightarrow> nat \<Rightarrow> nat ucopy \<Rightarrow> kstate \<Rightarrow> (kstate \<times> int) result" where
  "task_notify_wait p ch cp k =
     with_task k p (\<lambda>P. case wfe P of
       WFE_CHILD wpid st \<Rightarrow>
         with_task k ch (\<lambda>C.
           if wpid \<noteq> -1 \<and> wpid \<noteq> pid C then Ok (k, - errno_num ECHILD)
           else if state C \<noteq> TASK_EXIT_DEAD then Panic
           else if st \<noteq> 0 \<and> cp = None then Panic
           else
             let k = (if st \<noteq> 0 then k\<lparr>ustatus := (p, st, exit_status (exit_code C), the cp) # ustatus k\<rparr> else k);
                 k = upd p (\<lambda>P. P\<lparr>retval := pid C,
                       state := (if state P = TASK_WFE then TASK_RUNNABLE else state P)\<rparr>) k
             in and_then (task_put ch k) (\<lambda>k. Ok (upd p (\<lambda>P. P\<lparr>wfe := WFE_NONE\<rparr>) k, 0)))
     | _ \<Rightarrow> Ok (k, - errno_num ECHILD))"

definition find_child :: "(task \<Rightarrow> bool) \<Rightarrow> nat list \<Rightarrow> kstate \<Rightarrow> nat option" where
  "find_child P cs k = find (\<lambda>ch. case tasks k ch of Some C \<Rightarrow> P C | None \<Rightarrow> False) cs"

definition sys_wait :: "nat \<Rightarrow> int \<Rightarrow> nat \<Rightarrow> int \<Rightarrow> nat ucopy \<Rightarrow> kstate \<Rightarrow> (kstate \<times> int) result" where
  "sys_wait c wpid wstatus options cp k =
     (if options \<noteq> 0 then Ok (k, - errno_num EINVAL)
      else if wpid = 0 \<or> wpid < -1 then Ok (k, - errno_num ENOSYS)
      else case cur k c of None \<Rightarrow> Panic | Some t \<Rightarrow>
        with_task k t (\<lambda>T.
          let child = (if wpid = -1 then find_child (\<lambda>C. state C = TASK_EXIT_DEAD) (children T) k
                       else find_child (\<lambda>C. pid C = wpid) (children T) k)
          in if children T = [] then Ok (k, - errno_num ECHILD)
             else if wpid \<noteq> -1 \<and> child = None then Ok (k, - errno_num ECHILD)
             else if wfe T \<noteq> WFE_NONE then Panic
             else
               let k = upd t (\<lambda>T. T\<lparr>wfe := WFE_CHILD wpid wstatus\<rparr>) k;
                   dead = (case child of None \<Rightarrow> False | Some ch \<Rightarrow>
                             (case tasks k ch of Some C \<Rightarrow> state C = TASK_EXIT_DEAD | None \<Rightarrow> False))
               in if dead then
                    and_then (task_notify_wait t (the child) cp k) (\<lambda>(k, err). if err \<noteq> 0 then Panic else Ok (k, err))
                  else and_then (task_set_wfe t k) (\<lambda>k.
                    Ok (task_release_cpu t (upd_cpu c (\<lambda>p. p\<lparr>sched_req := True, current_task := None\<rparr>) k), 0))))"

definition task_cancel_timer :: "nat \<Rightarrow> kstate \<Rightarrow> kstate" where
  "task_cancel_timer t k =
     upd t (\<lambda>T. case wfe T of WFE_TIMER _ \<Rightarrow> T\<lparr>wfe := WFE_NONE\<rparr> | _ \<Rightarrow> T)
       (k\<lparr>timer_list := remove1 t (timer_list k)\<rparr>)"

text \<open>The children move to the front of the list of PID 1, one by one.\<close>

fun reparent :: "nat \<Rightarrow> nat list \<Rightarrow> kstate \<Rightarrow> kstate" where
  "reparent t [] k = k"
| "reparent t (ch # cs) k =
     (let ini = init_task k;
          k = upd t (\<lambda>T. T\<lparr>children := remove1 ch (children T)\<rparr>) k;
          k = upd ch (\<lambda>C. C\<lparr>parent := Some ini\<rparr>) k;
          k = upd ini (\<lambda>I. I\<lparr>children := ch # children I\<rparr>) k
      in reparent t cs k)"

text \<open>
  The part of \<^verbatim>\<open>task_exit\<close> up to the lock of the parent, with the parent it has read, and the
  part from there on.
\<close>

definition task_exit_begin :: "nat \<Rightarrow> kstate \<Rightarrow> (kstate \<times> nat) result" where
  "task_exit_begin t k =
     with_task k t (\<lambda>T. case parent T of None \<Rightarrow> Panic | Some p \<Rightarrow>
       let k = task_cancel_timer t k;
           k = (if t \<in> set (task_list k) then task_dequeue t k else k)
       in Ok (k, p))"

definition task_exit_end :: "nat \<Rightarrow> nat \<Rightarrow> nat \<Rightarrow> int \<Rightarrow> nat ucopy \<Rightarrow> kstate \<Rightarrow> kstate result" where
  "task_exit_end c t p code cp k =
     with_task k p (\<lambda>_. with_task k t (\<lambda>T.
       if ttype T = GRINCH_UNDEF then Panic
       else
         let k = upd t (\<lambda>T. T\<lparr>state := TASK_EXIT_DEAD, exit_code := code\<rparr>) k;
             k = reparent t (children T) k;
             k = (if cur k c = Some t then
                    task_release_cpu t (upd_cpu c (\<lambda>p. p\<lparr>sched_req := True, current_task := None\<rparr>) k)
                  else k)
         in and_then (task_notify_wait p t cp k) (\<lambda>(k, _). Ok k)))"

definition task_exit :: "nat \<Rightarrow> nat \<Rightarrow> int \<Rightarrow> nat ucopy \<Rightarrow> kstate \<Rightarrow> kstate result" where
  "task_exit c t code cp k = and_then (task_exit_begin t k) (\<lambda>(k, p). task_exit_end c t p code cp k)"

definition new_task :: "int \<Rightarrow> task" where
  "new_task i = \<lparr> pid = i, state = TASK_INIT, on_cpu = TASK_NO_CPU, parent = None, children = [],
     wfe = WFE_NONE, exit_code = 0, ttype = GRINCH_UNDEF, retval = 0, vtimer = False \<rparr>"

text \<open>
  The counter of the PIDs is a 32-bit \<^verbatim>\<open>pid_t\<close>, and the atomic addition wraps. \<open>addr\<close> is what
  \<^verbatim>\<open>kzalloc\<close> returned.
\<close>

definition get_new_pid :: "kstate \<Rightarrow> kstate \<times> int" where
  "get_new_pid k = (k\<lparr>next_pid := s32_of (next_pid k + 1)\<rparr>, next_pid k)"

definition task_alloc_new :: "nat \<Rightarrow> kstate \<Rightarrow> kstate result" where
  "task_alloc_new addr k =
     (if addr = 0 then Err ENOMEM
      else let (k, i) = get_new_pid k in Ok (k\<lparr>tasks := (tasks k)(addr \<mapsto> new_task i)\<rparr>))"

section \<open>The scheduler\<close>

definition task_activate :: "nat \<Rightarrow> nat option \<Rightarrow> kstate \<Rightarrow> kstate result" where
  "task_activate c tk k =
     (let old = cur k c
      in if old = tk then
           (case tk of
              None \<Rightarrow> Ok k
            | Some t \<Rightarrow> with_task k t (\<lambda>T.
                if state T = TASK_RUNNING then Ok k
                else if state T = TASK_RUNNABLE then Ok (upd t (\<lambda>T. T\<lparr>state := TASK_RUNNING\<rparr>) k)
                else Panic))
         else
           let k = (case old of
                      None \<Rightarrow> k
                    | Some o' \<Rightarrow> task_release_cpu o' (upd o' (\<lambda>T.
                        if state T = TASK_RUNNING \<and> on_cpu T = c then T\<lparr>state := TASK_RUNNABLE\<rparr> else T) k));
               k = upd_cpu c (\<lambda>p. p\<lparr>current_task := tk\<rparr>) k
           in case tk of
                None \<Rightarrow> Ok k
              | Some t \<Rightarrow> with_task k t (\<lambda>T.
                  if state T \<noteq> TASK_RUNNABLE then Panic
                  else if ttype T = GRINCH_UNDEF then Panic
                  else Ok (upd t (\<lambda>T. T\<lparr>state := TASK_RUNNING, on_cpu := c\<rparr>) k)))"

definition task_claimable :: "nat \<Rightarrow> task \<Rightarrow> bool" where
  "task_claimable c T \<longleftrightarrow> on_cpu T = TASK_NO_CPU \<or> on_cpu T = c"

definition pickable :: "nat \<Rightarrow> kstate \<Rightarrow> nat \<Rightarrow> bool" where
  "pickable c k t = (case tasks k t of None \<Rightarrow> False | Some T \<Rightarrow> state T = TASK_RUNNABLE \<and> task_claimable c T)"

text \<open>The search from the label \<^verbatim>\<open>begin\<close> on: up to the current task, else keep it if it runs.\<close>

definition pick_begin :: "nat \<Rightarrow> kstate \<Rightarrow> nat option" where
  "pick_begin c k =
     (case find (pickable c k) (takeWhile (\<lambda>t. Some t \<noteq> cur k c) (task_list k)) of
        Some t \<Rightarrow> Some t
      | None \<Rightarrow>
          (case cur k c of
             None \<Rightarrow> None
           | Some t \<Rightarrow> (case tasks k t of Some T \<Rightarrow> if state T = TASK_RUNNING then Some t else None | None \<Rightarrow> None)))"

definition pick_task :: "nat \<Rightarrow> kstate \<Rightarrow> nat option" where
  "pick_task c k =
     (if cur k c = None then pick_begin c k
      else if length (task_list k) = 1 then
        (case tasks k (hd (task_list k)) of
           None \<Rightarrow> None
         | Some T \<Rightarrow> if state T = TASK_WFE \<or> \<not> task_claimable c T then None else Some (hd (task_list k)))
      else
        (case find (pickable c k) (dropWhile (\<lambda>t. Some t \<noteq> cur k c) (task_list k)) of
           Some t \<Rightarrow> Some t
         | None \<Rightarrow> pick_begin c k))"

definition schedule :: "nat \<Rightarrow> kstate \<Rightarrow> kstate result" where
  "schedule c k =
     (let k = upd_cpu c (\<lambda>p. p\<lparr>sched_req := False\<rparr>) k
      in task_activate c (pick_task c k) k)"

definition sched_all :: "kstate \<Rightarrow> kstate" where
  "sched_all k =
     k\<lparr>cpus := (\<lambda>c. if c \<in> set (online k) then (cpus k c)\<lparr>sched_req := True\<rparr> else cpus k c),
       ipis := online k @ ipis k\<rparr>"

text \<open>
  \<open>addr\<close> is the new task structure (0: none, and \<^verbatim>\<open>process_alloc_new\<close> fails), \<open>dup\<close> the code
  of duplicating the working directory and the memory areas. The process that forks waits for
  no child, so the exit of the unfinished one copies nothing: its copy is given as \<open>None\<close>.
\<close>

definition sys_fork :: "nat \<Rightarrow> nat \<Rightarrow> int \<Rightarrow> kstate \<Rightarrow> (kstate \<times> int) result" where
  "sys_fork c addr dup k =
     (case cur k c of None \<Rightarrow> Panic | Some this \<Rightarrow>
        with_task k this (\<lambda>T.
          case task_alloc_new addr k of
            Err e \<Rightarrow> Ok (k, - errno_num e)
          | Panic \<Rightarrow> Panic
          | Ok k \<Rightarrow>
              let k = upd addr (\<lambda>N. N\<lparr>ttype := GRINCH_PROCESS, parent := Some this, retval := 0\<rparr>) k
              in if dup \<noteq> 0 then
                   and_then (task_exit c addr dup None k) (\<lambda>k. and_then (task_put addr k) (\<lambda>k. Ok (k, dup)))
                 else
                   let npid = (case tasks k addr of Some N \<Rightarrow> pid N | None \<Rightarrow> 0);
                       k = upd addr (\<lambda>N. N\<lparr>state := TASK_RUNNABLE\<rparr>) k;
                       k = upd this (\<lambda>T. T\<lparr>children := addr # children T\<rparr>) k
                   in Ok (sched_all (task_enqueue addr k), npid)))"

section \<open>Timers\<close>

definition expiration :: "kstate \<Rightarrow> nat \<Rightarrow> u64" where
  "expiration k t = (case tasks k t of Some T \<Rightarrow> (case wfe T of WFE_TIMER x \<Rightarrow> x | _ \<Rightarrow> 0) | None \<Rightarrow> 0)"

text \<open>\<^verbatim>\<open>comp\<close> holds for the first entry that must stay behind the new one.\<close>

fun list_add_sorted :: "('a \<Rightarrow> 'a \<Rightarrow> bool) \<Rightarrow> 'a \<Rightarrow> 'a list \<Rightarrow> 'a list" where
  "list_add_sorted cmp e [] = [e]"
| "list_add_sorted cmp e (pos # xs) = (if cmp pos e then e # pos # xs else pos # list_add_sorted cmp e xs)"

definition timer_comp :: "kstate \<Rightarrow> nat \<Rightarrow> nat \<Rightarrow> bool" where
  "timer_comp k a b \<longleftrightarrow> expiration k a > expiration k b"

definition is_timer :: "task_wfe \<Rightarrow> bool" where
  "is_timer w = (case w of WFE_TIMER _ \<Rightarrow> True | _ \<Rightarrow> False)"

definition task_sleep_until :: "nat \<Rightarrow> nat \<Rightarrow> timespec \<Rightarrow> kstate \<Rightarrow> kstate result" where
  "task_sleep_until c t ts k =
     with_task k t (\<lambda>T.
       if wfe T \<noteq> WFE_NONE \<and> (ttype T \<noteq> GRINCH_VMACHINE \<or> \<not> is_timer (wfe T)) then Panic
       else
         let k = upd t (\<lambda>T. T\<lparr>wfe := WFE_TIMER (word_of_int (ts_to_ns ts))\<rparr>) k
         in and_then (if ttype T = GRINCH_PROCESS then task_set_wfe t k else Ok k) (\<lambda>k.
              let k = k\<lparr>timer_list := list_add_sorted (timer_comp k) t (remove1 t (timer_list k))\<rparr>
              in Ok (upd_cpu c (\<lambda>p. p\<lparr>handle_events := True\<rparr>) k)))"

definition task_sleep_for :: "nat \<Rightarrow> nat \<Rightarrow> timespec \<Rightarrow> u64 \<Rightarrow> kstate \<Rightarrow> kstate result" where
  "task_sleep_for c t ts clk k = task_sleep_until c t (timespec_add (timer_get_wall (tconf k) clk) ts) k"

text \<open>
  The loop over the timer list. Each iteration reads the wall clock; \<open>now i\<close> is what the
  \<open>i\<close>-th reading from here on gives. The result is the state and the first task whose time
  has not come.
\<close>

fun events_loop :: "nat \<Rightarrow> (nat \<Rightarrow> u64) \<Rightarrow> nat list \<Rightarrow> kstate \<Rightarrow> (kstate \<times> nat option) result" where
  "events_loop c now [] k = Ok (k, None)"
| "events_loop c now (t # ts) k =
     with_task k t (\<lambda>T.
       if state T \<noteq> TASK_WFE \<and> ttype T \<noteq> GRINCH_VMACHINE then Panic
       else if \<not> is_timer (wfe T) then Panic
       else if expiration k t \<le> now 0 then
         let vm = (ttype T = GRINCH_VMACHINE);
             k = (if vm then upd t (\<lambda>T. T\<lparr>vtimer := True\<rparr>) k else k)
         in if vm \<and> state T = TASK_RUNNING \<and> on_cpu T \<noteq> c then
              events_loop c (\<lambda>i. now (Suc i)) ts (k\<lparr>ipis := on_cpu T # ipis k\<rparr>)
            else
              let k = (if vm \<and> state T = TASK_RUNNING then k else upd t (\<lambda>T. T\<lparr>state := TASK_RUNNABLE\<rparr>) k);
                  k = k\<lparr>timer_list := remove1 t (timer_list k)\<rparr>;
                  k = upd t (\<lambda>T. T\<lparr>wfe := WFE_NONE\<rparr>) k
              in events_loop c (\<lambda>i. now (Suc i)) ts k
       else Ok (k, Some t))"

definition task_handle_events :: "nat \<Rightarrow> (nat \<Rightarrow> u64) \<Rightarrow> kstate \<Rightarrow> kstate result" where
  "task_handle_events c clk k =
     and_then (events_loop c (\<lambda>i. timer_get_wall_ns (tconf k) (clk i)) (timer_list k) k) (\<lambda>(k, update).
       Ok (upd_cpu c (timer_update (tconf k) (map_option (expiration k) update)) k))"

section \<open>Entry and exit of the kernel\<close>

text \<open>One pass of \<^verbatim>\<open>prepare_user_return\<close>: \<open>True\<close> if a task is restored, \<open>False\<close> if the CPU idles.\<close>

definition prepare_user_return :: "nat \<Rightarrow> (nat \<Rightarrow> u64) \<Rightarrow> kstate \<Rightarrow> (kstate \<times> bool) result" where
  "prepare_user_return c clk k =
     and_then (if handle_events (cpus k c)
               then task_handle_events c clk (upd_cpu c (\<lambda>p. p\<lparr>handle_events := False\<rparr>) k) else Ok k) (\<lambda>k.
     and_then (if sched_req (cpus k c) then schedule c k else Ok k) (\<lambda>k.
       case cur k c of
         None \<Rightarrow> if task_list k \<noteq> [] \<and> idling (cpus k c) then Panic else Ok (k, False)
       | Some t \<Rightarrow> with_task k t (\<lambda>T. if state T \<noteq> TASK_RUNNING then Panic else Ok (k, True))))"

text \<open>
  The callers: system calls of processes, the blocking read of a character device and its
  wake-up, and the traps of a virtual machine. \<open>hvip\<close> tells whether a virtual interrupt is
  pending, \<open>err\<close> the code of setting up a virtual machine. Of \<^verbatim>\<open>nanosleep\<close>, \<open>req\<close> is the time
  copied from user memory (\<open>Some None\<close>: less than all of it), \<open>rem_fault\<close> whether clearing
  \<^verbatim>\<open>rem\<close> falls short.
\<close>

definition sys_nanosleep :: "nat \<Rightarrow> timespec option ucopy \<Rightarrow> bool ucopy \<Rightarrow> u64 \<Rightarrow> kstate \<Rightarrow> (kstate \<times> int) result" where
  "sys_nanosleep c req rem_fault clk k =
     (case cur k c of None \<Rightarrow> Panic | Some t \<Rightarrow>
        (case req of
           None \<Rightarrow> Panic
         | Some None \<Rightarrow> Ok (k, - errno_num EFAULT)
         | Some (Some ts) \<Rightarrow> and_then (task_sleep_for c t ts clk k) (\<lambda>k.
             let k = upd_cpu c (\<lambda>p. p\<lparr>sched_req := True\<rparr>) k
             in case rem_fault of
                  None \<Rightarrow> Panic
                | Some f \<Rightarrow> Ok (k, if f then - errno_num EFAULT else 0))))"

definition sys_exit :: "nat \<Rightarrow> int \<Rightarrow> nat ucopy \<Rightarrow> kstate \<Rightarrow> (kstate \<times> int) result" where
  "sys_exit c code cp k = (case cur k c of None \<Rightarrow> Panic | Some t \<Rightarrow> and_then (task_exit c t code cp k) (\<lambda>k. Ok (k, 0)))"

definition sys_sched_yield :: "nat \<Rightarrow> kstate \<Rightarrow> (kstate \<times> int) result" where
  "sys_sched_yield c k = Ok (upd_cpu c (\<lambda>p. p\<lparr>sched_req := True\<rparr>) k, 0)"

definition block_reader :: "nat \<Rightarrow> kstate \<Rightarrow> kstate result" where
  "block_reader c k =
     (case cur k c of None \<Rightarrow> Panic | Some t \<Rightarrow>
        with_task k t (\<lambda>T.
          if wfe T \<noteq> WFE_NONE then Panic
          else and_then (task_set_wfe t (upd t (\<lambda>T. T\<lparr>wfe := WFE_READ\<rparr>) k)) (\<lambda>k.
            Ok (upd_cpu c (\<lambda>p. p\<lparr>sched_req := True\<rparr>) k))))"

definition wake_reader :: "nat \<Rightarrow> nat \<Rightarrow> int \<Rightarrow> kstate \<Rightarrow> kstate result" where
  "wake_reader c t ret k =
     with_task k t (\<lambda>_. Ok (upd_cpu c (\<lambda>p. p\<lparr>sched_req := True\<rparr>)
       (upd t (\<lambda>T. T\<lparr>retval := ret, wfe := WFE_NONE, state := TASK_RUNNABLE\<rparr>) k)))"

definition sbi_set_timer :: "nat \<Rightarrow> u64 \<Rightarrow> timespec \<Rightarrow> kstate \<Rightarrow> kstate result" where
  "sbi_set_timer c a0 ts k =
     (case cur k c of None \<Rightarrow> Panic | Some t \<Rightarrow>
        if a0 \<noteq> -1 then task_sleep_until c t ts k else Ok (task_cancel_timer t k))"

definition vm_wfi :: "nat \<Rightarrow> bool \<Rightarrow> kstate \<Rightarrow> kstate result" where
  "vm_wfi c hvip k =
     (case cur k c of None \<Rightarrow> Panic | Some t \<Rightarrow>
        and_then (if hvip then Ok k else task_set_wfe t k) (\<lambda>k.
          Ok (upd_cpu c (\<lambda>p. p\<lparr>sched_req := True\<rparr>) k)))"

definition create_grinch_vm :: "nat \<Rightarrow> nat \<Rightarrow> int \<Rightarrow> kstate \<Rightarrow> (kstate \<times> int) result" where
  "create_grinch_vm c addr err k =
     (case cur k c of None \<Rightarrow> Panic | Some this \<Rightarrow>
        case task_alloc_new addr k of
          Err e \<Rightarrow> Ok (k, - errno_num e)
        | Panic \<Rightarrow> Panic
        | Ok k \<Rightarrow>
            let k = upd this (\<lambda>P. P\<lparr>children := addr # children P\<rparr>) k;
                k = upd addr (\<lambda>N. N\<lparr>parent := Some this, ttype := GRINCH_VMACHINE\<rparr>) k
            in if err \<noteq> 0 then
                 and_then (task_exit c addr err None k) (\<lambda>k. and_then (task_put addr k) (\<lambda>k. Ok (k, err)))
               else
                 let k = task_enqueue addr (upd addr (\<lambda>N. N\<lparr>state := TASK_RUNNABLE\<rparr>) k)
                 in Ok (k, case tasks k addr of Some N \<Rightarrow> pid N | None \<Rightarrow> 0))"

definition GRINCH_VM_PID_OFFSET :: int where "GRINCH_VM_PID_OFFSET = 10000"

definition task_init :: "bool \<Rightarrow> int \<Rightarrow> kstate \<Rightarrow> kstate" where
  "task_init is_guest grinch_id k =
     (if is_guest then k\<lparr>next_pid := s32_of (next_pid k + GRINCH_VM_PID_OFFSET * grinch_id)\<rparr> else k)"

definition task_by_pid :: "int \<Rightarrow> kstate \<Rightarrow> nat option" where
  "task_by_pid p k = find_child (\<lambda>T. pid T = p) (task_list k) k"

fun task_type_to_string :: "task_type \<Rightarrow> string" where
  "task_type_to_string GRINCH_UNDEF = ''undef  ''"
| "task_type_to_string GRINCH_PROCESS = ''process''"
| "task_type_to_string GRINCH_VMACHINE = ''VM     ''"

fun task_state_to_string :: "task_state \<Rightarrow> string" where
  "task_state_to_string TASK_INIT = ''init    ''"
| "task_state_to_string TASK_RUNNABLE = ''runnable''"
| "task_state_to_string TASK_RUNNING = ''running ''"
| "task_state_to_string TASK_WFE = ''wfe     ''"
| "task_state_to_string TASK_EXIT_DEAD = ''ext dead''"

fun task_wfe_to_string :: "task_wfe \<Rightarrow> string" where
  "task_wfe_to_string WFE_NONE = ''none  ''"
| "task_wfe_to_string (WFE_CHILD _ _) = ''child ''"
| "task_wfe_to_string (WFE_TIMER _) = ''timer ''"
| "task_wfe_to_string WFE_READ = ''unkn  ''"

text \<open>
  The system call dispatcher: \<open>tab\<close> and \<open>gtab\<close> are the two tables (the result of the call
  on the state), the numbers are those of the generated header.
\<close>

record sysnos =
  SYS_grinch_base :: nat
  SYS_exit :: nat
  SYS_execve :: nat
  SYS_wait :: nat

definition syscall ::
    "sysnos \<Rightarrow> (kstate \<Rightarrow> (kstate \<times> int) result) option list \<Rightarrow> (kstate \<Rightarrow> (kstate \<times> int) result) option list
     \<Rightarrow> nat \<Rightarrow> nat \<Rightarrow> kstate \<Rightarrow> kstate result" where
  "syscall nos tab gtab c no k =
     (case cur k c of None \<Rightarrow> Panic | Some t \<Rightarrow>
      with_task k t (\<lambda>T.
       if state T \<noteq> TASK_RUNNING then Panic
       else
         let (sysfun, no) =
               (if no < length tab then (tab ! no, no)
                else if no \<ge> SYS_grinch_base nos then
                  let no = no - SYS_grinch_base nos
                  in (if no \<ge> length gtab then None else gtab ! no, no)
                else (None, no))
         in and_then (case sysfun of Some f \<Rightarrow> f k | None \<Rightarrow> Ok (k, - errno_num ENOSYS)) (\<lambda>(k, ret).
              case cur k c of
                None \<Rightarrow> Ok k
              | Some t' \<Rightarrow>
                  Ok (if ret < 0 \<or> \<not> (no = SYS_exit nos \<or> no = SYS_execve nos \<or> no = SYS_wait nos)
                      then upd t' (\<lambda>T. T\<lparr>retval := ret\<rparr>) k else k))))"

end
