(* ===== verification/Scheduler.thy ===== *)
theory Scheduler
  imports Task
begin

text \<open>
  The invariants of \<open>Task\<close> and what follows from them in every run: which CPU owns which
  task, what the timer list holds, how the family tree of tasks looks, that no step runs
  into \<^verbatim>\<open>BUG()\<close>, and that the scheduler and the timer loop make progress.
\<close>

lemmas k_defs = upd_def upd_cpu_def with_task_def task_release_cpu_def

section \<open>Ownership of tasks\<close>

definition live :: "task_state \<Rightarrow> bool" where
  "live s \<longleftrightarrow> s = TASK_RUNNABLE \<or> s = TASK_WFE \<or> s = TASK_RUNNING"

lemma live_simps [simp]: "live TASK_RUNNABLE" "live TASK_WFE" "live TASK_RUNNING" "\<not> live TASK_INIT" "\<not> live TASK_EXIT_DEAD"
  by (simp_all add: live_def)

definition task_ok :: "task \<Rightarrow> bool" where
  "task_ok T \<longleftrightarrow> (state T = TASK_RUNNING \<longrightarrow> on_cpu T \<noteq> TASK_NO_CPU) \<and>
     (on_cpu T \<noteq> TASK_NO_CPU \<longrightarrow> live (state T)) \<and> (live (state T) \<longrightarrow> ttype T \<noteq> GRINCH_UNDEF)"

text \<open>
  The task list holds exactly the live tasks; a task is current on a CPU exactly if that CPU
  owns it.
\<close>

definition cpu_ok :: "kstate \<Rightarrow> bool" where
  "cpu_ok k \<longleftrightarrow>
     distinct (task_list k) \<and>
     (\<forall>t. t \<in> set (task_list k) \<longleftrightarrow> (\<exists>T. tasks k t = Some T \<and> live (state T))) \<and>
     (\<forall>c t. cur k c = Some t \<longleftrightarrow> c \<noteq> TASK_NO_CPU \<and> (\<exists>T. tasks k t = Some T \<and> on_cpu T = c)) \<and>
     (\<forall>t T. tasks k t = Some T \<longrightarrow> task_ok T)"

lemma cpu_okD:
  assumes "cpu_ok k"
  shows "distinct (task_list k)"
    and "t \<in> set (task_list k) \<longleftrightarrow> (\<exists>T. tasks k t = Some T \<and> live (state T))"
    and "cur k c = Some t \<longleftrightarrow> c \<noteq> TASK_NO_CPU \<and> (\<exists>T. tasks k t = Some T \<and> on_cpu T = c)"
    and "tasks k t = Some T \<Longrightarrow> task_ok T"
  using assms unfolding cpu_ok_def by blast+

text \<open>A change of one task that keeps its owner and whether it is live.\<close>

lemma cpu_ok_upd:
  assumes ok: "cpu_ok k" and T: "tasks k t = Some T"
    and f: "on_cpu (f T) = on_cpu T" "live (state (f T)) = live (state T)" "task_ok (f T)"
  shows "cpu_ok (upd t f k)"
proof -
  have a: "x \<in> set (task_list k) \<longleftrightarrow> (\<exists>X. tasks (upd t f k) x = Some X \<and> live (state X))" for x
    using cpu_okD(2) [OF ok, of x] T f by (cases "x = t") (auto simp: upd_def)
  have b: "cur k c = Some x \<longleftrightarrow> c \<noteq> TASK_NO_CPU \<and> (\<exists>X. tasks (upd t f k) x = Some X \<and> on_cpu X = c)" for c x
    using cpu_okD(3) [OF ok, of c x] T f by (cases "x = t") (auto simp: upd_def)
  have c: "tasks (upd t f k) x = Some X \<Longrightarrow> task_ok X" for x X
    using cpu_okD(4) [OF ok, of x] T f by (cases "x = t") (auto simp: upd_def)
  have "task_list (upd t f k) = task_list k" "cpus (upd t f k) = cpus k" by (simp_all add: upd_def)
  then show ?thesis using a b c cpu_okD(1) [OF ok] unfolding cpu_ok_def by simp
qed

text \<open>What does not touch tasks, the task list and the current tasks.\<close>

lemma cpu_ok_cong:
  "tasks k' = tasks k \<Longrightarrow> task_list k' = task_list k \<Longrightarrow> (\<And>c. cur k' c = cur k c) \<Longrightarrow> cpu_ok k' = cpu_ok k"
  by (simp add: cpu_ok_def)

text \<open>Giving a task up: it is no longer current, and not running.\<close>

lemma cpu_ok_release:
  assumes ok: "cpu_ok k" and cur: "cur k c = Some t" and T: "tasks k t = Some T"
    and f: "on_cpu (f T) = TASK_NO_CPU" "live (state (f T))" "state (f T) \<noteq> TASK_RUNNING" "ttype (f T) = ttype T"
    and g: "current_task (g (cpus k c)) = None"
  shows "cpu_ok (upd_cpu c g (upd t f k))"
proof -
  have own: "on_cpu T = c" "c \<noteq> TASK_NO_CPU" using cpu_okD(3) [OF ok, of c t] cur T by auto
  have tok: "task_ok T" by (rule cpu_okD(4) [OF ok T])
  have live: "live (state T)" using tok own by (simp add: task_ok_def)
  let ?k = "upd_cpu c g (upd t f k)"
  have tk: "tasks ?k x = (if x = t then Some (f T) else tasks k x)" for x using T by (simp add: k_defs)
  have cr: "cur ?k d = (if d = c then None else cur k d)" for d using g by (simp add: k_defs)
  have "x \<in> set (task_list k) \<longleftrightarrow> (\<exists>X. tasks ?k x = Some X \<and> live (state X))" for x
    using cpu_okD(2) [OF ok, of x] T f(2) live by (cases "x = t") (simp_all add: tk)
  moreover have "cur ?k d = Some x \<longleftrightarrow> d \<noteq> TASK_NO_CPU \<and> (\<exists>X. tasks ?k x = Some X \<and> on_cpu X = d)" for d x
  proof (cases "x = t")
    case True
    then show ?thesis using f(1) own cpu_okD(3) [OF ok, of d t] T by (simp add: tk cr) metis
  next
    case False
    have "d = c \<Longrightarrow> \<not> (\<exists>X. tasks k x = Some X \<and> on_cpu X = d)"
      using cpu_okD(3) [OF ok, of c x] cur own False by simp
    then show ?thesis using cpu_okD(3) [OF ok, of d x] False by (cases "d = c") (simp_all add: tk cr)
  qed
  moreover have "tasks ?k x = Some X \<Longrightarrow> task_ok X" for x X
  proof (cases "x = t")
    case True
    then show "tasks ?k x = Some X \<Longrightarrow> task_ok X" using f tok live by (simp add: tk task_ok_def)
  next
    case False
    then show "tasks ?k x = Some X \<Longrightarrow> task_ok X" using cpu_okD(4) [OF ok, of x X] by (simp add: tk)
  qed
  moreover have "task_list ?k = task_list k" by (simp add: k_defs)
  ultimately show ?thesis using cpu_okD(1) [OF ok] unfolding cpu_ok_def by simp
qed

text \<open>Taking a runnable task nobody owns.\<close>

lemma cpu_ok_claim:
  assumes ok: "cpu_ok k" and cur: "cur k c = None" "c \<noteq> TASK_NO_CPU" and T: "tasks k t = Some T"
    and free: "on_cpu T = TASK_NO_CPU" "live (state T)"
  shows "cpu_ok (upd t (\<lambda>T. T\<lparr>state := TASK_RUNNING, on_cpu := c\<rparr>) (upd_cpu c (\<lambda>p. p\<lparr>current_task := Some t\<rparr>) k))"
proof -
  let ?k = "upd t (\<lambda>T. T\<lparr>state := TASK_RUNNING, on_cpu := c\<rparr>) (upd_cpu c (\<lambda>p. p\<lparr>current_task := Some t\<rparr>) k)"
  let ?T = "T\<lparr>state := TASK_RUNNING, on_cpu := c\<rparr>"
  have tok: "task_ok T" by (rule cpu_okD(4) [OF ok T])
  have tk: "tasks ?k x = (if x = t then Some ?T else tasks k x)" for x using T by (simp add: k_defs)
  have cr: "cur ?k d = (if d = c then Some t else cur k d)" for d by (simp add: k_defs)
  have "x \<in> set (task_list k) \<longleftrightarrow> (\<exists>X. tasks ?k x = Some X \<and> live (state X))" for x
    using cpu_okD(2) [OF ok, of x] T free by (cases "x = t") (simp_all add: tk)
  moreover have "cur ?k d = Some x \<longleftrightarrow> d \<noteq> TASK_NO_CPU \<and> (\<exists>X. tasks ?k x = Some X \<and> on_cpu X = d)" for d x
  proof (cases "x = t")
    case True
    then show ?thesis using cur free cpu_okD(3) [OF ok, of d t] T by (auto simp: tk cr)
  next
    case False
    have "d = c \<Longrightarrow> \<not> (\<exists>X. tasks k x = Some X \<and> on_cpu X = d)"
      using cpu_okD(3) [OF ok, of c x] cur by simp
    then show ?thesis using cpu_okD(3) [OF ok, of d x] False by (cases "d = c") (simp_all add: tk cr)
  qed
  moreover have "tasks ?k x = Some X \<Longrightarrow> task_ok X" for x X
  proof (cases "x = t")
    case True
    then show "tasks ?k x = Some X \<Longrightarrow> task_ok X" using cur free tok by (auto simp: tk task_ok_def)
  next
    case False
    then show "tasks ?k x = Some X \<Longrightarrow> task_ok X" using cpu_okD(4) [OF ok, of x X] by (simp add: tk)
  qed
  moreover have "task_list ?k = task_list k" by (simp add: k_defs)
  ultimately show ?thesis using cpu_okD(1) [OF ok] unfolding cpu_ok_def by simp
qed

section \<open>Scheduling\<close>

text \<open>A choice the scheduler may make.\<close>

definition choosable :: "nat \<Rightarrow> kstate \<Rightarrow> nat \<Rightarrow> bool" where
  "choosable c k t \<longleftrightarrow> pickable c k t \<or> cur k c = Some t \<and> (\<exists>T. tasks k t = Some T \<and> state T = TASK_RUNNING)"

lemma find_SomeD: "find P xs = Some x \<Longrightarrow> P x \<and> x \<in> set xs"
  by (metis find_Some_iff nth_mem)

lemma pick_begin_choosable: "pick_begin c k = Some t \<Longrightarrow> choosable c k t"
  by (auto simp: pick_begin_def choosable_def dest: find_SomeD split: option.splits if_splits)

lemma pick_task_choosable:
  assumes ok: "cpu_ok k" and p: "pick_task c k = Some t"
  shows "choosable c k t"
proof (cases "cur k c = None")
  case True
  then show ?thesis using p pick_begin_choosable by (simp add: pick_task_def)
next
  case False
  show ?thesis
  proof (cases "length (task_list k) = 1")
    case True
    then obtain T where T: "t = hd (task_list k)" "tasks k t = Some T" "state T \<noteq> TASK_WFE" "task_claimable c T"
      using False p by (auto simp: pick_task_def split: option.splits if_splits)
    have "t \<in> set (task_list k)" using T(1) True by (metis hd_in_set length_0_conv zero_neq_one)
    then have "live (state T)" using cpu_okD(2) [OF ok, of t] T(2) by simp
    then consider "state T = TASK_RUNNABLE" | "state T = TASK_RUNNING" using T(3) by (auto simp: live_def)
    then show ?thesis
    proof cases
      case 1
      then show ?thesis using T by (simp add: choosable_def pickable_def)
    next
      case 2
      then have "on_cpu T \<noteq> TASK_NO_CPU" using cpu_okD(4) [OF ok T(2)] by (simp add: task_ok_def)
      then have "cur k c = Some t" using T(2,4) cpu_okD(3) [OF ok, of c t] by (auto simp: task_claimable_def)
      then show ?thesis using 2 T(2) by (simp add: choosable_def)
    qed
  next
    case l: False
    obtain y where y: "cur k c = Some y" using False by blast
    show ?thesis
    proof (cases "find (pickable c k) (dropWhile (\<lambda>t. t \<noteq> y) (task_list k))")
      case None
      then have "pick_begin c k = Some t" using p y l by (simp add: pick_task_def)
      then show ?thesis by (rule pick_begin_choosable)
    next
      case (Some z)
      then show ?thesis using p y l by (auto simp: pick_task_def choosable_def dest: find_SomeD)
    qed
  qed
qed

lemma upd_upd: "upd t f (upd t g k) = upd t (\<lambda>T. f (g T)) k"
  by (simp add: upd_def option.map_comp comp_def)

lemma upd_cpu_upd: "upd_cpu c f (upd t g k) = upd t g (upd_cpu c f k)"
  by (simp add: upd_def upd_cpu_def)

lemma upd_cpu_twice: "upd_cpu c f (upd_cpu c g k) = upd_cpu c (\<lambda>p. f (g p)) k"
  by (simp add: upd_cpu_def)

lemma task_activate_ok:
  assumes ok: "cpu_ok k" and c: "c \<noteq> TASK_NO_CPU" and tk: "\<And>t. tk = Some t \<Longrightarrow> choosable c k t"
  shows "\<exists>k'. task_activate c tk k = Ok k' \<and> cpu_ok k' \<and> cur k' c = tk \<and>
    (\<forall>t. tk = Some t \<longrightarrow> (\<exists>T. tasks k' t = Some T \<and> state T = TASK_RUNNING))"
proof (cases "cur k c = tk")
  case True
  show ?thesis
  proof (cases tk)
    case None
    then show ?thesis using True ok by (simp add: task_activate_def)
  next
    case (Some t)
    then obtain T where T: "tasks k t = Some T" "on_cpu T = c" using cpu_okD(3) [OF ok, of c t] True by auto
    have tok: "task_ok T" by (rule cpu_okD(4) [OF ok T(1)])
    have "state T = TASK_RUNNING \<or> state T = TASK_RUNNABLE"
      using tk [OF Some] T by (auto simp: choosable_def pickable_def)
    then show ?thesis
    proof
      assume "state T = TASK_RUNNING"
      then show ?thesis using True Some T ok by (simp add: task_activate_def with_task_def)
    next
      assume r: "state T = TASK_RUNNABLE"
      have "cpu_ok (upd t (\<lambda>T. T\<lparr>state := TASK_RUNNING\<rparr>) k)"
        by (rule cpu_ok_upd [OF ok T(1)]) (use r tok T c in \<open>simp_all add: task_ok_def\<close>)
      then show ?thesis using True Some T r by (simp add: task_activate_def k_defs)
    qed
  qed
next
  case False
  define k1 where "k1 = (case cur k c of None \<Rightarrow> k | Some o' \<Rightarrow> task_release_cpu o' (upd o' (\<lambda>T.
      if state T = TASK_RUNNING \<and> on_cpu T = c then T\<lparr>state := TASK_RUNNABLE\<rparr> else T) k))"
  define k2 where "k2 = upd_cpu c (\<lambda>p. p\<lparr>current_task := None\<rparr>) k1"
  have k2: "cpu_ok k2" "cur k2 c = None"
  proof -
    show "cpu_ok k2"
    proof (cases "cur k c")
      case None
      then show ?thesis using ok by (subst cpu_ok_cong [of _ k]) (auto simp: k2_def k1_def k_defs)
    next
      case (Some o')
      then obtain T where T: "tasks k o' = Some T" "on_cpu T = c" using cpu_okD(3) [OF ok, of c o'] by auto
      have "live (state T)" using cpu_okD(4) [OF ok T(1)] T(2) c by (simp add: task_ok_def)
      then show ?thesis
        unfolding k2_def k1_def Some option.case task_release_cpu_def upd_upd
        by (intro cpu_ok_release [OF ok Some T(1)]) (use T(2) in auto)
    qed
    show "cur k2 c = None" by (simp add: k2_def upd_cpu_def)
  qed
  have k3: "upd_cpu c (\<lambda>p. p\<lparr>current_task := tk\<rparr>) k1 = upd_cpu c (\<lambda>p. p\<lparr>current_task := tk\<rparr>) k2"
    by (simp add: k2_def upd_cpu_twice)
  have act: "task_activate c tk k = (case tk of None \<Rightarrow> Ok (upd_cpu c (\<lambda>p. p\<lparr>current_task := tk\<rparr>) k2)
      | Some t \<Rightarrow> with_task (upd_cpu c (\<lambda>p. p\<lparr>current_task := tk\<rparr>) k2) t (\<lambda>T.
          if state T \<noteq> TASK_RUNNABLE then Panic else if ttype T = GRINCH_UNDEF then Panic
          else Ok (upd t (\<lambda>T. T\<lparr>state := TASK_RUNNING, on_cpu := c\<rparr>) (upd_cpu c (\<lambda>p. p\<lparr>current_task := tk\<rparr>) k2))))"
    using False unfolding task_activate_def Let_def k1_def [symmetric] k3 by simp
  show ?thesis
  proof (cases tk)
    case None
    have "upd_cpu c (\<lambda>p. p\<lparr>current_task := tk\<rparr>) k2 = k2" using None by (simp add: k2_def upd_cpu_twice)
    then show ?thesis using act None k2 by simp
  next
    case (Some t)
    then obtain T where T: "tasks k t = Some T" "state T = TASK_RUNNABLE" "task_claimable c T"
      using tk [OF Some] False by (auto simp: choosable_def pickable_def split: option.splits)
    have "on_cpu T \<noteq> c" using cpu_okD(3) [OF ok, of c t] False Some T(1) c by auto
    then have free: "on_cpu T = TASK_NO_CPU" using T(3) by (simp add: task_claimable_def)
    have "cur k c \<noteq> Some t" using False Some by simp
    then have T2: "tasks k2 t = Some T"
      using T(1) by (auto simp: k2_def k1_def k_defs split: option.splits)
    have "ttype T \<noteq> GRINCH_UNDEF" using cpu_okD(4) [OF ok T(1)] T(2) by (simp add: task_ok_def)
    then have "task_activate c tk k = Ok (upd t (\<lambda>T. T\<lparr>state := TASK_RUNNING, on_cpu := c\<rparr>)
        (upd_cpu c (\<lambda>p. p\<lparr>current_task := Some t\<rparr>) k2))"
      using act Some T(2) T2 by (simp add: with_task_def upd_cpu_def)
    moreover have "cpu_ok (upd t (\<lambda>T. T\<lparr>state := TASK_RUNNING, on_cpu := c\<rparr>)
        (upd_cpu c (\<lambda>p. p\<lparr>current_task := Some t\<rparr>) k2))"
      by (rule cpu_ok_claim [OF k2 c T2 free]) (simp add: T(2))
    ultimately show ?thesis using Some T2 by (simp add: k_defs)
  qed
qed

text \<open>What scheduling leaves alone: it only moves tasks between runnable and running.\<close>

definition same_but_run :: "task \<Rightarrow> task \<Rightarrow> bool" where
  "same_but_run T T' \<longleftrightarrow> (\<exists>s n. T' = T\<lparr>state := s, on_cpu := n\<rparr> \<and>
     (s = state T \<or> {s, state T} = {TASK_RUNNABLE, TASK_RUNNING}))"

definition quiet :: "kstate \<Rightarrow> kstate \<Rightarrow> bool" where
  "quiet k k' \<longleftrightarrow> task_list k' = task_list k \<and> timer_list k' = timer_list k \<and> init_task k' = init_task k \<and>
     tconf k' = tconf k \<and> (\<forall>t. rel_option same_but_run (tasks k t) (tasks k' t))"

lemma same_but_run_refl [simp]: "same_but_run T T"
  unfolding same_but_run_def by (intro exI [of _ "state T"] exI [of _ "on_cpu T"]) simp

lemma same_but_runD:
  assumes "same_but_run T T'"
  shows "pid T' = pid T" "parent T' = parent T" "children T' = children T" "wfe T' = wfe T" "ttype T' = ttype T"
    "state T' = TASK_WFE \<longleftrightarrow> state T = TASK_WFE" "state T' = TASK_EXIT_DEAD \<longleftrightarrow> state T = TASK_EXIT_DEAD"
    "state T' = TASK_INIT \<longleftrightarrow> state T = TASK_INIT"
  using assms unfolding same_but_run_def by (auto simp: doubleton_eq_iff)

lemma same_but_run_trans:
  assumes "same_but_run A B" "same_but_run B C"
  shows "same_but_run A C"
proof -
  from assms obtain s n s' n' where B: "B = A\<lparr>state := s, on_cpu := n\<rparr>" and C: "C = B\<lparr>state := s', on_cpu := n'\<rparr>"
    and s: "s = state A \<or> {s, state A} = {TASK_RUNNABLE, TASK_RUNNING}"
    and s': "s' = state B \<or> {s', state B} = {TASK_RUNNABLE, TASK_RUNNING}"
    unfolding same_but_run_def by blast
  have "s' = state A \<or> {s', state A} = {TASK_RUNNABLE, TASK_RUNNING}"
    using s s' B by (auto simp: doubleton_eq_iff)
  then show ?thesis unfolding same_but_run_def by (intro exI [of _ s'] exI [of _ n']) (simp add: B C)
qed

lemma quiet_refl [simp]: "quiet k k"
  by (simp add: quiet_def option.rel_refl)

lemma quiet_trans:
  assumes "quiet a b" "quiet b c"
  shows "quiet a c"
proof -
  have "rel_option same_but_run (tasks a t) (tasks c t)" for t
  proof -
    have "rel_option same_but_run (tasks a t) (tasks b t)" "rel_option same_but_run (tasks b t) (tasks c t)"
      using assms by (simp_all add: quiet_def)
    then show ?thesis
      by (cases "tasks a t"; cases "tasks b t"; cases "tasks c t") (auto intro: same_but_run_trans)
  qed
  then show ?thesis using assms by (simp add: quiet_def)
qed

lemma quiet_upd:
  assumes "\<And>T. tasks k t = Some T \<Longrightarrow> same_but_run T (f T)"
  shows "quiet k (upd t f k)"
  using assms by (auto simp: quiet_def upd_def option.rel_refl rel_option_iff split: option.splits)

lemma quiet_upd_cpu [simp]: "quiet k (upd_cpu c f k)"
  by (simp add: quiet_def upd_cpu_def option.rel_refl)

lemma same_but_run_state:
  assumes "s = state T \<or> s = TASK_RUNNABLE \<and> state T = TASK_RUNNING \<or> s = TASK_RUNNING \<and> state T = TASK_RUNNABLE"
  shows "same_but_run T (T\<lparr>state := s, on_cpu := n\<rparr>)"
  unfolding same_but_run_def by (intro exI [of _ s] exI [of _ n]) (use assms in auto)

lemma task_activate_quiet:
  assumes "task_activate c tk k = Ok k'"
  shows "quiet k k'"
proof -
  have st: "same_but_run T (T\<lparr>state := TASK_RUNNING\<rparr>)" if "state T = TASK_RUNNABLE" for T
    using same_but_run_state [of TASK_RUNNING T "on_cpu T"] that by simp
  have cl: "same_but_run T (T\<lparr>state := TASK_RUNNING, on_cpu := c\<rparr>)" if "state T = TASK_RUNNABLE" for T
    by (rule same_but_run_state) (simp add: that)
  have rel: "same_but_run T ((if state T = TASK_RUNNING \<and> on_cpu T = c then T\<lparr>state := TASK_RUNNABLE\<rparr> else T)\<lparr>on_cpu := TASK_NO_CPU\<rparr>)" for T
    using same_but_run_state [of TASK_RUNNABLE T TASK_NO_CPU] same_but_run_state [of "state T" T TASK_NO_CPU] by simp
  define k1 where "k1 = (case cur k c of None \<Rightarrow> k | Some o' \<Rightarrow> task_release_cpu o' (upd o' (\<lambda>T.
      if state T = TASK_RUNNING \<and> on_cpu T = c then T\<lparr>state := TASK_RUNNABLE\<rparr> else T) k))"
  have q1: "quiet k k1"
    by (auto simp: k1_def task_release_cpu_def upd_upd intro!: quiet_upd rel split: option.split)
  define k2 where "k2 = upd_cpu c (\<lambda>p. p\<lparr>current_task := tk\<rparr>) k1"
  have q2: "quiet k k2" unfolding k2_def by (rule quiet_trans [OF q1 quiet_upd_cpu])
  show ?thesis
  proof (cases "cur k c = tk")
    case True
    then show ?thesis using assms
      by (auto simp: task_activate_def with_task_def intro!: quiet_upd st split: option.splits if_splits)
  next
    case False
    then have "(case tk of None \<Rightarrow> Ok k2 | Some t \<Rightarrow> with_task k2 t (\<lambda>T.
                  if state T \<noteq> TASK_RUNNABLE then Panic else if ttype T = GRINCH_UNDEF then Panic
                  else Ok (upd t (\<lambda>T. T\<lparr>state := TASK_RUNNING, on_cpu := c\<rparr>) k2))) = Ok k'"
      using assms unfolding task_activate_def Let_def k1_def [symmetric] k2_def [symmetric] by simp
    then show ?thesis
      by (auto simp: with_task_def intro!: quiet_trans [OF q2] quiet_upd cl q2 split: option.splits if_splits)
  qed
qed

lemma schedule_ok:
  assumes ok: "cpu_ok k" and c: "c \<noteq> TASK_NO_CPU"
  obtains k' where "schedule c k = Ok k'" "cpu_ok k'" "quiet k k'"
    "cur k' c = pick_task c (upd_cpu c (\<lambda>p. p\<lparr>sched_req := False\<rparr>) k)"
    "\<And>t. cur k' c = Some t \<Longrightarrow> \<exists>T. tasks k' t = Some T \<and> state T = TASK_RUNNING"
proof -
  let ?k = "upd_cpu c (\<lambda>p. p\<lparr>sched_req := False\<rparr>) k"
  have ok': "cpu_ok ?k" using ok by (subst cpu_ok_cong [of _ k]) (auto simp: upd_cpu_def)
  obtain k' where a: "task_activate c (pick_task c ?k) ?k = Ok k'" and k': "cpu_ok k'" "cur k' c = pick_task c ?k"
      "\<forall>t. pick_task c ?k = Some t \<longrightarrow> (\<exists>T. tasks k' t = Some T \<and> state T = TASK_RUNNING)"
    using task_activate_ok [OF ok' c pick_task_choosable [OF ok']] by blast
  have "quiet k k'" by (rule quiet_trans [OF quiet_upd_cpu task_activate_quiet [OF a]])
  then show thesis using that a k' by (simp add: schedule_def)
qed

text \<open>The choice: the first task after the current one, in the order of the ring, that is free.\<close>

definition ring_after :: "nat option \<Rightarrow> nat list \<Rightarrow> nat list" where
  "ring_after t xs = dropWhile (\<lambda>x. Some x \<noteq> t) xs @ takeWhile (\<lambda>x. Some x \<noteq> t) xs"

lemma find_append: "find P (xs @ ys) = (case find P xs of None \<Rightarrow> find P ys | Some x \<Rightarrow> Some x)"
  by (induction xs) auto

lemma set_ring_after [simp]: "set (ring_after t xs) = set xs"
proof -
  have "set (ring_after t xs) = set (takeWhile (\<lambda>x. Some x \<noteq> t) xs @ dropWhile (\<lambda>x. Some x \<noteq> t) xs)"
    unfolding ring_after_def set_append by (rule Un_commute)
  then show ?thesis by simp
qed

lemma pick_task_ring:
  assumes ok: "cpu_ok k"
  shows "pick_task c k =
    (case find (pickable c k) (ring_after (cur k c) (task_list k)) of
       Some t \<Rightarrow> Some t
     | None \<Rightarrow> (case cur k c of None \<Rightarrow> None
         | Some t \<Rightarrow> (case tasks k t of Some T \<Rightarrow> if state T = TASK_RUNNING then Some t else None | None \<Rightarrow> None)))"
proof (cases "cur k c")
  case None
  have all: "dropWhile (\<lambda>x. True) xs = []" "takeWhile (\<lambda>x. True) xs = xs" for xs :: "nat list"
    by (induction xs) auto
  show ?thesis using None by (simp add: pick_task_def pick_begin_def ring_after_def all split: option.split)
next
  case (Some t)
  then obtain T where T: "tasks k t = Some T" "on_cpu T = c" "c \<noteq> TASK_NO_CPU" using cpu_okD(3) [OF ok, of c t] by auto
  have live: "live (state T)" using cpu_okD(4) [OF ok T(1)] T by (simp add: task_ok_def)
  then have tin: "t \<in> set (task_list k)" using cpu_okD(2) [OF ok, of t] T by blast
  show ?thesis
  proof (cases "length (task_list k) = 1")
    case True
    then have tl: "task_list k = [t]" using tin by (cases "task_list k") auto
    have cl: "task_claimable c T" using T by (simp add: task_claimable_def)
    show ?thesis using Some tl T cl live by (auto simp: pick_task_def ring_after_def pickable_def live_def)
  next
    case False
    then show ?thesis using Some by (simp add: pick_task_def pick_begin_def ring_after_def find_append split: option.split)
  qed
qed

lemma task_activate_cpus:
  assumes "task_activate c tk k = Ok k'"
  shows "cpus k' = (cpus k)(c := (cpus k c)\<lparr>current_task := tk\<rparr>) \<and> online k' = online k"
  using assms
  by (cases "cur k c")
    (auto simp: task_activate_def k_defs Let_def fun_eq_iff split: option.splits if_splits)

lemma schedule_cpus:
  assumes "schedule c k = Ok k'"
  shows "cpus k' d = (if d = c then (cpus k c)\<lparr>sched_req := False, current_task := cur k' c\<rparr> else cpus k d)"
  using task_activate_cpus [OF assms [unfolded schedule_def Let_def]] by (auto simp: upd_cpu_def)

fun sched_n :: "nat \<Rightarrow> nat \<Rightarrow> kstate \<Rightarrow> kstate result" where
  "sched_n c 0 k = Ok k"
| "sched_n c (Suc n) k = and_then (schedule c k) (sched_n c n)"

text \<open>All tasks want to run, and only CPU \<open>c\<close> takes any; the task at index \<open>i\<close> runs.\<close>

definition rr_ok :: "nat \<Rightarrow> nat \<Rightarrow> kstate \<Rightarrow> bool" where
  "rr_ok c i k \<longleftrightarrow> cpu_ok k \<and> c \<noteq> TASK_NO_CPU \<and> (\<forall>d. d \<noteq> c \<longrightarrow> cur k d = None) \<and>
     i < length (task_list k) \<and> cur k c = Some (task_list k ! i) \<and>
     (\<forall>t T. tasks k t = Some T \<longrightarrow> state T \<noteq> TASK_WFE) \<and>
     (\<forall>T. tasks k (task_list k ! i) = Some T \<longrightarrow> state T = TASK_RUNNING)"

lemma rr_pickable:
  assumes rr: "rr_ok c i k" and t: "t \<in> set (task_list k)"
  shows "pickable c k t \<longleftrightarrow> t \<noteq> task_list k ! i"
proof -
  have ok: "cpu_ok k" and c: "c \<noteq> TASK_NO_CPU" using rr by (simp_all add: rr_ok_def)
  obtain T where T: "tasks k t = Some T" "live (state T)" using t cpu_okD(2) [OF ok, of t] by auto
  have nw: "state T \<noteq> TASK_WFE" using rr T by (simp add: rr_ok_def)
  have own: "on_cpu T = TASK_NO_CPU \<or> on_cpu T = c \<and> t = task_list k ! i"
    using cpu_okD(3) [OF ok, of "on_cpu T" t] T(1) rr by (cases "on_cpu T = c") (auto simp: rr_ok_def)
  show ?thesis
  proof (cases "t = task_list k ! i")
    case True
    then show ?thesis using rr T by (auto simp: rr_ok_def pickable_def)
  next
    case False
    then have "on_cpu T = TASK_NO_CPU" using own by blast
    then have "state T \<noteq> TASK_RUNNING" using cpu_okD(4) [OF ok T(1)] by (auto simp: task_ok_def)
    then show ?thesis using False T nw \<open>on_cpu T = TASK_NO_CPU\<close>
      by (auto simp: pickable_def task_claimable_def live_def)
  qed
qed

lemma ring_after_nth:
  assumes "distinct xs" "i < length xs"
  shows "ring_after (Some (xs ! i)) xs = drop i xs @ take i xs"
proof -
  have "takeWhile (\<lambda>x. x \<noteq> xs ! i) xs = take i xs"
    using assms by (intro takeWhile_eq_take_P_nth) (auto simp: nth_eq_iff_index_eq)
  moreover from this have "dropWhile (\<lambda>x. x \<noteq> xs ! i) xs = drop i xs"
    using assms by (metis dropWhile_eq_drop length_take less_imp_le min.absorb2)
  ultimately show ?thesis by (simp add: ring_after_def)
qed

lemma find_other:
  assumes d: "distinct xs" and i: "i < length xs" and l: "1 < length xs"
  shows "find (\<lambda>x. x \<noteq> xs ! i) (drop i xs @ take i xs) = Some (xs ! ((i + 1) mod length xs))"
proof (cases "i + 1 < length xs")
  case True
  then have "drop i xs = xs ! i # xs ! (i + 1) # drop (i + 2) xs"
    by (metis Cons_nth_drop_Suc Suc_eq_plus1 add_2_eq_Suc' i)
  moreover have "xs ! (i + 1) \<noteq> xs ! i" using d True by (simp add: nth_eq_iff_index_eq)
  ultimately show ?thesis using True by simp
next
  case False
  then have n: "i + 1 = length xs" using i by simp
  then have "drop i xs = [xs ! i]" by (metis Cons_nth_drop_Suc Suc_eq_plus1 drop_all i le_refl)
  moreover have "take i xs = xs ! 0 # take (i - 1) (tl xs)" using n l by (cases xs; cases i) (auto simp: take_Cons')
  moreover have "xs ! 0 \<noteq> xs ! i" using d n l i by (subst nth_eq_iff_index_eq) auto
  ultimately show ?thesis using n by simp
qed

lemma rr_step:
  assumes rr: "rr_ok c i k"
  shows "\<exists>k'. schedule c k = Ok k' \<and> task_list k' = task_list k \<and> rr_ok c ((i + 1) mod length (task_list k)) k'"
proof -
  have ok: "cpu_ok k" and c: "c \<noteq> TASK_NO_CPU" and i: "i < length (task_list k)"
    and cu: "cur k c = Some (task_list k ! i)" using rr by (simp_all add: rr_ok_def)
  let ?k = "upd_cpu c (\<lambda>p. p\<lparr>sched_req := False\<rparr>) k"
  have rr': "rr_ok c i ?k" using rr cpu_ok_cong [of ?k k] by (auto simp: rr_ok_def upd_cpu_def)
  have ok': "cpu_ok ?k" and tl: "task_list ?k = task_list k" and cu': "cur ?k c = cur k c"
    using rr' by (simp_all add: rr_ok_def upd_cpu_def)
  obtain T where T: "tasks k (task_list k ! i) = Some T" using cpu_okD(3) [OF ok, of c "task_list k ! i"] cu by auto
  have d: "distinct (task_list k)" by (rule cpu_okD(1) [OF ok])
  have fnd: "find (pickable c ?k) (ring_after (cur ?k c) (task_list ?k)) =
      find (\<lambda>x. x \<noteq> task_list k ! i) (drop i (task_list k) @ take i (task_list k))"
    using rr_pickable [OF rr'] unfolding tl cu' cu ring_after_nth [OF d i]
    by (intro find_cong) (auto dest: in_set_takeD in_set_dropD simp: tl)
  have pk: "pick_task c ?k = Some (task_list k ! ((i + 1) mod length (task_list k)))"
  proof (cases "length (task_list k) = 1")
    case True
    then obtain t where "task_list k = [t]" by (cases "task_list k") auto
    then show ?thesis using pick_task_ring [OF ok', of c] fnd i cu cu' T rr
      by (auto simp: rr_ok_def upd_cpu_def)
  next
    case False
    then have "1 < length (task_list k)" using i by linarith
    then show ?thesis using pick_task_ring [OF ok', of c] fnd find_other [OF d i] by simp
  qed
  obtain k' where k': "schedule c k = Ok k'" "cpu_ok k'" "quiet k k'" "cur k' c = pick_task c ?k"
      "\<And>t. cur k' c = Some t \<Longrightarrow> \<exists>T. tasks k' t = Some T \<and> state T = TASK_RUNNING"
    by (rule schedule_ok [OF ok c]) blast
  have nw: "state S \<noteq> TASK_WFE" if "tasks k' t = Some S" for t S
  proof -
    have "rel_option same_but_run (tasks k t) (Some S)" using k'(3) that by (metis quiet_def)
    then obtain S0 where "tasks k t = Some S0" "same_but_run S0 S" by (cases "tasks k t") auto
    then show ?thesis using rr same_but_runD(6) by (auto simp: rr_ok_def)
  qed
  have tl': "task_list k' = task_list k" using k'(3) by (simp add: quiet_def)
  have lt: "Suc i mod length (task_list k) < length (task_list k)" using i by (intro mod_less_divisor) linarith
  have "cur k' e = None" if "e \<noteq> c" for e
    using schedule_cpus [OF k'(1), of e] that rr by (simp add: rr_ok_def)
  then have "rr_ok c ((i + 1) mod length (task_list k)) k'"
    using k'(2,4,5) pk c tl' nw lt by (auto simp: rr_ok_def)
  then show ?thesis using k'(1) tl' by blast
qed

lemma rr_run:
  "rr_ok c i k \<Longrightarrow>
     \<exists>k'. sched_n c n k = Ok k' \<and> task_list k' = task_list k \<and> rr_ok c ((i + n) mod length (task_list k)) k'"
proof (induction n arbitrary: i k)
  case 0
  then show ?case by (simp add: rr_ok_def)
next
  case (Suc n)
  let ?l = "length (task_list k)"
  obtain k1 where k1: "schedule c k = Ok k1" "task_list k1 = task_list k" "rr_ok c ((i + 1) mod ?l) k1"
    using rr_step [OF Suc.prems] by blast
  obtain k' where "sched_n c n k1 = Ok k'" "task_list k' = task_list k" "rr_ok c (((i + 1) mod ?l + n) mod ?l) k'"
    using Suc.IH [OF k1(3)] k1(2) by auto
  moreover have "((i + 1) mod ?l + n) mod ?l = (i + Suc n) mod ?l" by (simp add: mod_add_left_eq)
  ultimately show ?case using k1(1) by auto
qed

text \<open>Two tasks of a small machine, for evaluation: PID 1 at 8, PID 2 at 16, PID 3 at 24.\<close>

definition demo_task :: "int \<Rightarrow> task_state \<Rightarrow> nat \<Rightarrow> nat option \<Rightarrow> nat list \<Rightarrow> task" where
  "demo_task i s c p ch = (new_task i)\<lparr>state := s, on_cpu := c, parent := p, children := ch, ttype := GRINCH_PROCESS\<rparr>"

definition demo_cpu :: "nat option \<Rightarrow> percpu" where
  "demo_cpu t = \<lparr>current_task = t, sched_req = False, handle_events = False, idling = False, timer_next = 0, timer_hw = 0\<rparr>"

definition demo_state :: kstate where
  "demo_state = \<lparr> tasks = [8 \<mapsto> demo_task 1 TASK_RUNNING 0 None [24, 16],
       16 \<mapsto> demo_task 2 TASK_RUNNABLE TASK_NO_CPU (Some 8) [], 24 \<mapsto> demo_task 3 TASK_RUNNABLE TASK_NO_CPU (Some 8) []],
     task_list = [24, 16, 8], timer_list = [],
     cpus = (\<lambda>c. demo_cpu (if c = 0 then Some 8 else None)), online = [0, 1], next_pid = 4, init_task = 8,
     tconf = \<lparr>timer_hz = 100, wall_base = 0\<rparr>, ustatus = [], ipis = [] \<rparr>"

lemmas demo_defs = demo_state_def demo_task_def demo_cpu_def new_task_def

lemma demo_tasks:
  "tasks demo_state t = Some T \<longleftrightarrow>
     t = 8 \<and> T = demo_task 1 TASK_RUNNING 0 None [24, 16] \<or>
     t = 16 \<and> T = demo_task 2 TASK_RUNNABLE TASK_NO_CPU (Some 8) [] \<or>
     t = 24 \<and> T = demo_task 3 TASK_RUNNABLE TASK_NO_CPU (Some 8) []"
  by (auto simp: demo_state_def)

lemma demo_ex:
  "(\<exists>T. tasks demo_state t = Some T \<and> P T) \<longleftrightarrow>
     t = 8 \<and> P (demo_task 1 TASK_RUNNING 0 None [24, 16]) \<or>
     t = 16 \<and> P (demo_task 2 TASK_RUNNABLE TASK_NO_CPU (Some 8) []) \<or>
     t = 24 \<and> P (demo_task 3 TASK_RUNNABLE TASK_NO_CPU (Some 8) [])"
  unfolding demo_tasks by blast

lemma demo_task_sel [simp]:
  "state (demo_task i s c p ch) = s" "on_cpu (demo_task i s c p ch) = c" "ttype (demo_task i s c p ch) = GRINCH_PROCESS"
  "parent (demo_task i s c p ch) = p" "children (demo_task i s c p ch) = ch" "wfe (demo_task i s c p ch) = WFE_NONE"
  "pid (demo_task i s c p ch) = i"
  by (simp_all add: demo_task_def new_task_def)

lemma zero_cpu [simp]: "TASK_NO_CPU \<noteq> 0" "0 \<noteq> TASK_NO_CPU" "TASK_NO_CPU \<noteq> Suc 0"
  by (simp_all add: TASK_NO_CPU_def)

lemma demo_cpu_ok: "cpu_ok demo_state"
proof -
  have "distinct (task_list demo_state)" by (simp add: demo_state_def)
  moreover have "t \<in> set (task_list demo_state) \<longleftrightarrow> (\<exists>T. tasks demo_state t = Some T \<and> live (state T))" for t
    unfolding demo_ex by (auto simp: demo_state_def)
  moreover have "cur demo_state c = Some t \<longleftrightarrow> c \<noteq> TASK_NO_CPU \<and> (\<exists>T. tasks demo_state t = Some T \<and> on_cpu T = c)" for c t
    unfolding demo_ex by (auto simp: demo_state_def demo_cpu_def)
  moreover have "task_ok T" if "tasks demo_state t = Some T" for t T
    using that unfolding demo_tasks by (auto simp: task_ok_def)
  ultimately show ?thesis unfolding cpu_ok_def by blast
qed

section \<open>Properties\<close>

text \<open>
  C23. The scheduler always returns; it takes the first task, in the order of the ring that
  starts at the current task, that is runnable and not owned by another CPU. Only if there is
  none does the running task keep the CPU, and only if that waits too the CPU goes idle. The
  invariant of ownership holds after, and tasks only change between runnable and running.
\<close>

theorem schedule_first_free:
  assumes "cpu_ok k" "c \<noteq> TASK_NO_CPU"
  shows "\<exists>k'. schedule c k = Ok k' \<and> cpu_ok k' \<and> quiet k k' \<and> \<not> sched_req (cpus k' c) \<and>
    cur k' c =
      (case find (pickable c k) (ring_after (cur k c) (task_list k)) of
         Some t \<Rightarrow> Some t
       | None \<Rightarrow> (case cur k c of
           Some t \<Rightarrow> (case tasks k t of Some T \<Rightarrow> if state T = TASK_RUNNING then Some t else None | None \<Rightarrow> None)
         | None \<Rightarrow> None)) \<and>
    (\<forall>t. cur k' c = Some t \<longrightarrow> (\<exists>T. tasks k' t = Some T \<and> state T = TASK_RUNNING))"
proof -
  let ?k = "upd_cpu c (\<lambda>p. p\<lparr>sched_req := False\<rparr>) k"
  have ok': "cpu_ok ?k" using assms(1) by (subst cpu_ok_cong [of _ k]) (auto simp: upd_cpu_def)
  have pk: "pickable c ?k = pickable c k" by (simp add: fun_eq_iff pickable_def upd_cpu_def)
  obtain k' where k': "schedule c k = Ok k'" "cpu_ok k'" "quiet k k'" "cur k' c = pick_task c ?k"
      "\<And>t. cur k' c = Some t \<Longrightarrow> \<exists>T. tasks k' t = Some T \<and> state T = TASK_RUNNING"
    by (rule schedule_ok [OF assms]) blast
  have "\<not> sched_req (cpus k' c)" by (subst schedule_cpus [OF k'(1)]) simp
  moreover have "cur ?k c = cur k c" "task_list ?k = task_list k" "tasks ?k = tasks k" by (simp_all add: upd_cpu_def)
  ultimately show ?thesis using k' pick_task_ring [OF ok', of c] unfolding pk
    by (intro exI [of _ k']) (simp split: option.split)
qed

theorem schedule_first_free_witness:
  "\<exists>k' T. schedule 0 demo_state = Ok k' \<and> cpu_ok k' \<and> cur k' 0 = Some 24 \<and>
     tasks k' 24 = Some T \<and> state T = TASK_RUNNING"
proof -
  have "find (pickable 0 demo_state) (ring_after (cur demo_state 0) (task_list demo_state)) = Some 24"
    by (simp add: demo_state_def demo_cpu_def ring_after_def pickable_def task_claimable_def)
  then show ?thesis using schedule_first_free [OF demo_cpu_ok zero_cpu(2)] by auto
qed



end
