(* ===== verification/Timers.thy ===== *)
theory Timers
  imports Scheduler
begin

text \<open>
  Timers and events of \<open>Task\<close>: what a task waits for agrees with its state, the timer list
  holds exactly the tasks that wait for a time, sorted, and handling the events wakes exactly
  those whose time has come.
\<close>

section \<open>Events and states\<close>

definition wfe_ok :: "task \<Rightarrow> bool" where
  "wfe_ok T \<longleftrightarrow> (state T = TASK_WFE \<longrightarrow> wfe T \<noteq> WFE_NONE) \<and> (\<not> live (state T) \<longrightarrow> wfe T = WFE_NONE) \<and>
     (ttype T = GRINCH_PROCESS \<and> wfe T \<noteq> WFE_NONE \<longrightarrow> state T = TASK_WFE) \<and>
     (ttype T = GRINCH_VMACHINE \<longrightarrow> wfe T = WFE_NONE \<or> is_timer (wfe T)) \<and>
     (ttype T = GRINCH_UNDEF \<longrightarrow> wfe T = WFE_NONE)"

definition events_ok :: "kstate \<Rightarrow> bool" where
  "events_ok k \<longleftrightarrow> (\<forall>t T. tasks k t = Some T \<longrightarrow> wfe_ok T)"

lemma events_okD: "events_ok k \<Longrightarrow> tasks k t = Some T \<Longrightarrow> wfe_ok T"
  by (simp add: events_ok_def)

lemma events_ok_upd: "events_ok k \<Longrightarrow> (\<And>T. tasks k t = Some T \<Longrightarrow> wfe_ok (f T)) \<Longrightarrow> events_ok (upd t f k)"
  by (auto simp: events_ok_def upd_def split: if_splits)

lemma events_ok_cong: "tasks k' = tasks k \<Longrightarrow> events_ok k' = events_ok k"
  by (simp add: events_ok_def)

lemma is_timer_simps [simp]: "is_timer (WFE_TIMER x)" "\<not> is_timer WFE_NONE" "\<not> is_timer (WFE_CHILD p s)" "\<not> is_timer WFE_READ"
  by (simp_all add: is_timer_def)

lemma is_timer_ex: "is_timer w \<longleftrightarrow> (\<exists>x. w = WFE_TIMER x)"
  by (cases w) simp_all

lemma quiet_task:
  assumes "quiet k k'" "tasks k' t = Some T'"
  obtains T where "tasks k t = Some T" "same_but_run T T'"
proof -
  have "rel_option same_but_run (tasks k t) (Some T')" using assms by (metis quiet_def)
  then show thesis using that by (cases "tasks k t") auto
qed

lemma quiet_task':
  assumes "quiet k k'" "tasks k t = Some T"
  obtains T' where "tasks k' t = Some T'" "same_but_run T T'"
proof -
  have "rel_option same_but_run (Some T) (tasks k' t)" using assms by (metis quiet_def)
  then show thesis using that by (cases "tasks k' t") auto
qed

lemma live_alt: "live s \<longleftrightarrow> s \<noteq> TASK_INIT \<and> s \<noteq> TASK_EXIT_DEAD"
  by (cases s) simp_all

lemma same_but_run_live: "same_but_run T T' \<Longrightarrow> live (state T') = live (state T)"
  by (simp add: live_alt same_but_runD)

lemma wfe_ok_quiet:
  assumes "same_but_run T T'" "wfe_ok T"
  shows "wfe_ok T'"
  using assms(2) unfolding wfe_ok_def same_but_runD [OF assms(1)] same_but_run_live [OF assms(1)] .

lemma events_ok_quiet: "quiet k k' \<Longrightarrow> events_ok k \<Longrightarrow> events_ok k'"
  by (metis events_ok_def quiet_task wfe_ok_quiet)

section \<open>The timer list\<close>

definition timers_ok :: "kstate \<Rightarrow> bool" where
  "timers_ok k \<longleftrightarrow> distinct (timer_list k) \<and>
     sorted_wrt (\<lambda>a b. expiration k a \<le> expiration k b) (timer_list k) \<and>
     (\<forall>t. t \<in> set (timer_list k) \<longleftrightarrow> (\<exists>T. tasks k t = Some T \<and> is_timer (wfe T)))"

lemma timers_okD:
  assumes "timers_ok k"
  shows "distinct (timer_list k)" "sorted_wrt (\<lambda>a b. expiration k a \<le> expiration k b) (timer_list k)"
    "t \<in> set (timer_list k) \<longleftrightarrow> (\<exists>T. tasks k t = Some T \<and> is_timer (wfe T))"
  using assms unfolding timers_ok_def by blast+

lemma expiration_cong: "map_option wfe (tasks k' t) = map_option wfe (tasks k t) \<Longrightarrow> expiration k' t = expiration k t"
  by (auto simp: expiration_def split: option.splits)

lemma timers_ok_cong:
  assumes l: "timer_list k' = timer_list k" and w: "\<And>t. map_option wfe (tasks k' t) = map_option wfe (tasks k t)"
  shows "timers_ok k' = timers_ok k"
proof -
  have e: "expiration k' t = expiration k t" for t by (rule expiration_cong [OF w])
  have m: "(\<exists>T. tasks k' t = Some T \<and> is_timer (wfe T)) = (\<exists>T. tasks k t = Some T \<and> is_timer (wfe T))" for t
    using w [of t] by (cases "tasks k t"; cases "tasks k' t") auto
  show ?thesis unfolding timers_ok_def l e m by (rule refl)
qed

lemma timers_ok_upd:
  assumes "timers_ok k" "\<And>T. tasks k t = Some T \<Longrightarrow> wfe (f T) = wfe T"
  shows "timers_ok (upd t f k)"
  using assms by (subst timers_ok_cong [of _ k]) (auto simp: upd_def option.map_comp intro: option.map_cong)

lemma timers_ok_quiet:
  assumes "quiet k k'" "timers_ok k"
  shows "timers_ok k'"
proof -
  have "map_option wfe (tasks k' t) = map_option wfe (tasks k t)" for t
  proof -
    have "rel_option same_but_run (tasks k t) (tasks k' t)" using assms by (simp add: quiet_def)
    then show ?thesis by (cases "tasks k t"; cases "tasks k' t") (auto dest: same_but_runD)
  qed
  then show ?thesis using assms timers_ok_cong [of k' k] by (simp add: quiet_def)
qed

text \<open>Taking a task off the list, as cancelling, expiring and exiting do.\<close>

lemma timers_ok_remove:
  assumes ok: "timers_ok k" and f: "\<And>T. tasks k t = Some T \<Longrightarrow> \<not> is_timer (wfe (f T))"
  shows "timers_ok (upd t f (k\<lparr>timer_list := remove1 t (timer_list k)\<rparr>))"
proof -
  let ?k = "upd t f (k\<lparr>timer_list := remove1 t (timer_list k)\<rparr>)"
  have d: "distinct (timer_list k)" by (rule timers_okD(1) [OF ok])
  have tl: "timer_list ?k = filter (\<lambda>x. x \<noteq> t) (timer_list k)"
    by (simp add: upd_def distinct_remove1_removeAll [OF d] removeAll_filter_not_eq eq_commute)
  have e: "expiration ?k x = expiration k x" if "x \<noteq> t" for x using that by (simp add: expiration_def upd_def)
  have "sorted_wrt (\<lambda>a b. expiration k a \<le> expiration k b) (timer_list ?k)"
    unfolding tl using timers_okD(2) [OF ok] by (rule sorted_wrt_filter)
  then have s: "sorted_wrt (\<lambda>a b. expiration ?k a \<le> expiration ?k b) (timer_list ?k)"
    by (rule sorted_wrt_mono_rel [rotated]) (simp add: tl e)
  have m: "x \<in> set (timer_list ?k) \<longleftrightarrow> (\<exists>T. tasks ?k x = Some T \<and> is_timer (wfe T))" for x
    unfolding tl using timers_okD(3) [OF ok, of x] f by (cases "x = t") (auto simp: upd_def)
  show ?thesis unfolding timers_ok_def using d s m by (simp add: tl)
qed

lemma set_list_add_sorted [simp]: "set (list_add_sorted cmp e xs) = insert e (set xs)"
  by (induction xs) auto

lemma distinct_list_add_sorted [simp]: "distinct (list_add_sorted cmp e xs) \<longleftrightarrow> e \<notin> set xs \<and> distinct xs"
  by (induction xs) auto

text \<open>The insertion is a stable sorted one: after all entries that are not greater.\<close>

lemma list_add_sorted_eq:
  "list_add_sorted cmp e xs = takeWhile (\<lambda>x. \<not> cmp x e) xs @ e # dropWhile (\<lambda>x. \<not> cmp x e) xs"
  by (induction xs) auto

lemma sorted_list_add_sorted:
  assumes s: "sorted_wrt (\<lambda>a b. f a \<le> (f b :: u64)) xs"
  shows "sorted_wrt (\<lambda>a b. f a \<le> f b) (list_add_sorted (\<lambda>a b. f a > f b) e xs)"
  using s
proof (induction xs)
  case (Cons a xs)
  show ?case
  proof (cases "f a > f e")
    case True
    then show ?thesis using Cons.prems by (auto intro: order.trans less_imp_le)
  next
    case False
    then show ?thesis using Cons by (auto simp: not_less)
  qed
qed simp

lemma timers_ok_add:
  assumes ok: "timers_ok k" and T: "tasks k t = Some T" and f: "wfe (f T) = WFE_TIMER x"
    and k1: "k1 = upd t f k"
  shows "timers_ok (k1\<lparr>timer_list := list_add_sorted (timer_comp k1) t (remove1 t (timer_list k))\<rparr>)"
proof -
  let ?k = "k1\<lparr>timer_list := list_add_sorted (timer_comp k1) t (remove1 t (timer_list k))\<rparr>"
  have d: "distinct (timer_list k)" by (rule timers_okD(1) [OF ok])
  have tl: "remove1 t (timer_list k) = filter (\<lambda>x. x \<noteq> t) (timer_list k)"
    by (simp add: distinct_remove1_removeAll [OF d] removeAll_filter_not_eq eq_commute)
  have e: "expiration k1 x = expiration k x" if "x \<noteq> t" for x using that by (simp add: expiration_def upd_def k1)
  have e': "expiration ?k = expiration k1" by (rule ext) (simp add: expiration_def)
  have "sorted_wrt (\<lambda>a b. expiration k a \<le> expiration k b) (remove1 t (timer_list k))"
    unfolding tl using timers_okD(2) [OF ok] by (rule sorted_wrt_filter)
  then have "sorted_wrt (\<lambda>a b. expiration k1 a \<le> expiration k1 b) (remove1 t (timer_list k))"
    by (rule sorted_wrt_mono_rel [rotated]) (simp add: tl e)
  then have s: "sorted_wrt (\<lambda>a b. expiration ?k a \<le> expiration ?k b) (timer_list ?k)"
    unfolding e' using sorted_list_add_sorted [of "expiration k1"] by (simp add: timer_comp_def [abs_def])
  have m: "x \<in> set (timer_list ?k) \<longleftrightarrow> (\<exists>T. tasks ?k x = Some T \<and> is_timer (wfe T))" for x
    using timers_okD(3) [OF ok, of x] T f by (cases "x = t") (auto simp: upd_def k1 tl)
  show ?thesis unfolding timers_ok_def using d s m by simp
qed

section \<open>Handling events\<close>

text \<open>A virtual machine that runs on another CPU stays armed: that CPU is sent an interrupt.\<close>

definition vm_elsewhere :: "nat \<Rightarrow> task \<Rightarrow> bool" where
  "vm_elsewhere c T \<longleftrightarrow> ttype T = GRINCH_VMACHINE \<and> state T = TASK_RUNNING \<and> on_cpu T \<noteq> c"

definition expire :: "nat \<Rightarrow> task \<Rightarrow> task" where
  "expire c T =
     (let T = (if ttype T = GRINCH_VMACHINE then T\<lparr>vtimer := True\<rparr> else T)
      in if vm_elsewhere c T then T
         else if ttype T = GRINCH_VMACHINE \<and> state T = TASK_RUNNING then T\<lparr>wfe := WFE_NONE\<rparr>
         else T\<lparr>state := TASK_RUNNABLE, wfe := WFE_NONE\<rparr>)"

text \<open>The entries the loop takes as expired, each compared with its own reading of the clock.\<close>

fun due :: "(nat \<Rightarrow> u64) \<Rightarrow> kstate \<Rightarrow> nat list \<Rightarrow> nat list" where
  "due now k [] = []"
| "due now k (t # ts) = (if expiration k t \<le> now 0 then t # due (\<lambda>i. now (Suc i)) k ts else [])"

definition stays :: "nat \<Rightarrow> kstate \<Rightarrow> nat \<Rightarrow> bool" where
  "stays c k t = (case tasks k t of Some T \<Rightarrow> vm_elsewhere c T | None \<Rightarrow> False)"

text \<open>The CPUs that are sent an interrupt on the way.\<close>

definition kicks :: "nat \<Rightarrow> kstate \<Rightarrow> nat list \<Rightarrow> nat list" where
  "kicks c k ds = rev (map (\<lambda>t. case tasks k t of Some T \<Rightarrow> on_cpu T | None \<Rightarrow> 0) (filter (stays c k) ds))"

definition timer_task :: "kstate \<Rightarrow> nat \<Rightarrow> bool" where
  "timer_task k t \<longleftrightarrow> (\<exists>T. tasks k t = Some T \<and> is_timer (wfe T) \<and> (state T = TASK_WFE \<or> ttype T = GRINCH_VMACHINE))"

definition expired :: "nat \<Rightarrow> nat list \<Rightarrow> nat list \<Rightarrow> kstate \<Rightarrow> kstate" where
  "expired c ds is k =
     k\<lparr>tasks := (\<lambda>t. if t \<in> set ds then map_option (expire c) (tasks k t) else tasks k t),
       timer_list := filter (\<lambda>t. t \<notin> set ds \<or> stays c k t) (timer_list k), ipis := is\<rparr>"

lemma timer_list_tasks_swap:
  "k\<lparr>timer_list := ts, tasks := m\<rparr> = k\<lparr>tasks := m, timer_list := ts\<rparr>"
  by simp

lemma events_step:
  assumes T: "tasks k t = Some T" "timer_task k t" and d: "distinct (timer_list k)" and e: "expiration k t \<le> now 0"
  shows "events_loop c now (t # ts) k = events_loop c (\<lambda>i. now (Suc i)) ts (expired c [t] (kicks c k [t] @ ipis k) k)"
proof -
  have g: "\<not> (state T \<noteq> TASK_WFE \<and> ttype T \<noteq> GRINCH_VMACHINE)" "is_timer (wfe T)" using T by (auto simp: timer_task_def)
  have r: "remove1 t (timer_list k) = filter (\<lambda>x. x \<noteq> t) (timer_list k)"
    by (simp add: distinct_remove1_removeAll [OF d] removeAll_filter_not_eq eq_commute)
  have tk: "(\<lambda>x. if x = t then map_option (expire c) (tasks k x) else tasks k x) = (tasks k)(t \<mapsto> expire c T)"
    using T by auto
  show ?thesis
  proof (cases "vm_elsewhere c T")
    case True
    then have "expire c T = T\<lparr>vtimer := True\<rparr>" by (simp add: expire_def vm_elsewhere_def)
    moreover have "filter (\<lambda>x. x \<noteq> t \<or> stays c k x) (timer_list k) = timer_list k"
      using True T by (intro filter_True) (auto simp: stays_def)
    ultimately have "upd t (\<lambda>T. T\<lparr>vtimer := True\<rparr>) k\<lparr>ipis := on_cpu T # ipis k\<rparr> = expired c [t] (on_cpu T # ipis k) k"
      by (simp add: expired_def upd_def tk T)
    moreover have "kicks c k [t] = [on_cpu T]" using True T by (simp add: kicks_def stays_def)
    ultimately show ?thesis using True g e T by (simp add: with_task_def vm_elsewhere_def upd_def)
  next
    case False
    have "filter (\<lambda>x. x \<noteq> t \<or> stays c k x) (timer_list k) = remove1 t (timer_list k)"
      unfolding r using False T by (intro filter_cong) (auto simp: stays_def)
    then have "expired c [t] (ipis k) k = k\<lparr>tasks := (tasks k)(t \<mapsto> expire c T), timer_list := remove1 t (timer_list k)\<rparr>"
      by (simp add: expired_def tk)
    moreover have "kicks c k [t] = []" using False T by (simp add: kicks_def stays_def)
    ultimately show ?thesis using False g e T
      by (cases "ttype T = GRINCH_VMACHINE"; cases "state T = TASK_RUNNING")
        (simp_all add: with_task_def vm_elsewhere_def upd_def expire_def timer_list_tasks_swap)
  qed
qed

lemma expired_tasks: "tasks (expired c ds is k) t = (if t \<in> set ds then map_option (expire c) (tasks k t) else tasks k t)"
  by (simp add: expired_def)

lemma expired_other [simp]:
  "task_list (expired c ds is k) = task_list k" "cpus (expired c ds is k) = cpus k" "tconf (expired c ds is k) = tconf k"
  "init_task (expired c ds is k) = init_task k" "ipis (expired c ds is k) = is"
  by (simp_all add: expired_def)

lemma expired_compose:
  assumes "t \<notin> set ds"
  shows "expired c ds is' (expired c [t] is k) = expired c (t # ds) is' k"
proof -
  let ?k = "expired c [t] is k"
  have tl: "timer_list (expired c ds is k) = filter (\<lambda>x. x \<notin> set ds \<or> stays c k x) (timer_list k)" for ds "is" k
    by (simp add: expired_def)
  have st: "(x \<notin> set ds \<or> stays c ?k x) \<and> (x \<notin> set [t] \<or> stays c k x) \<longleftrightarrow> x \<notin> set (t # ds) \<or> stays c k x" for x
    using assms by (auto simp: stays_def expired_tasks)
  show ?thesis
  proof (rule kstate.equality)
    show "tasks (expired c ds is' ?k) = tasks (expired c (t # ds) is' k)"
      using assms by (intro ext) (auto simp: expired_tasks)
    show "timer_list (expired c ds is' ?k) = timer_list (expired c (t # ds) is' k)"
      unfolding tl filter_filter by (intro filter_cong refl) (use st in blast)
  qed (simp_all add: expired_def)
qed

lemma kicks_compose:
  assumes "t \<notin> set ds"
  shows "kicks c (expired c [t] is k) ds @ kicks c k [t] @ xs = kicks c k (t # ds) @ xs"
proof -
  have "tasks (expired c [t] is k) x = tasks k x" if "x \<in> set ds" for x using that assms by (auto simp: expired_tasks)
  then have "kicks c (expired c [t] is k) ds = kicks c k ds"
    unfolding kicks_def by (intro arg_cong [of _ _ rev] map_cong filter_cong) (auto simp: stays_def)
  then show ?thesis by (simp add: kicks_def)
qed

lemma due_subset: "set (due now k ts) \<subseteq> set ts"
  by (induction ts arbitrary: now) auto

lemma due_cong: "(\<And>t. t \<in> set ts \<Longrightarrow> expiration k' t = expiration k t) \<Longrightarrow> due now k' ts = due now k ts"
  by (induction ts arbitrary: now) auto

lemma due_split: "\<exists>rest. ts = due now k ts @ rest \<and> (rest \<noteq> [] \<longrightarrow> now (length (due now k ts)) < expiration k (hd rest))"
proof (induction ts arbitrary: now)
  case (Cons t ts)
  show ?case using Cons.IH [of "\<lambda>i. now (Suc i)"] by (cases "expiration k t \<le> now 0") auto
qed simp

lemma due_expired: "i < length (due now k ts) \<Longrightarrow> expiration k (due now k ts ! i) \<le> now i"
proof (induction ts arbitrary: now i)
  case (Cons t ts)
  show ?case using Cons.prems Cons.IH [of "i - 1" "\<lambda>i. now (Suc i)"]
    by (cases "expiration k t \<le> now 0"; cases i) auto
qed simp

text \<open>A clock that does not run backwards leaves no task behind whose time had come.\<close>

lemma due_complete:
  assumes "sorted_wrt (\<lambda>a b. expiration k a \<le> expiration k b) ts" "\<And>i. n \<le> now i" "t \<in> set ts" "expiration k t \<le> n"
  shows "t \<in> set (due now k ts)"
  using assms
proof (induction ts arbitrary: now)
  case (Cons a ts)
  have "expiration k a \<le> n" using Cons.prems(1,3,4) by (auto dest: order.trans)
  then have "expiration k a \<le> now 0" using Cons.prems(2) order.trans by blast
  then show ?case using Cons.prems Cons.IH [of "\<lambda>i. now (Suc i)"] by auto
qed simp

definition first_pending :: "(nat \<Rightarrow> u64) \<Rightarrow> kstate \<Rightarrow> nat list \<Rightarrow> nat option" where
  "first_pending now k ts = (case drop (length (due now k ts)) ts of [] \<Rightarrow> None | t # _ \<Rightarrow> Some t)"

lemma first_pending_rest:
  "ts = due now k ts @ rest \<Longrightarrow> first_pending now k ts = (case rest of [] \<Rightarrow> None | t # _ \<Rightarrow> Some t)"
  unfolding first_pending_def by (metis append_eq_conv_conj)

lemma events_loop_eq:
  assumes "distinct ts" "\<forall>t \<in> set ts. timer_task k t" "distinct (timer_list k)"
  shows "events_loop c now ts k =
    Ok (expired c (due now k ts) (kicks c k (due now k ts) @ ipis k) k, first_pending now k ts)"
  using assms
proof (induction ts arbitrary: k now)
  case Nil
  have "expired c [] (ipis k) k = k" by (simp add: expired_def)
  then show ?case by (simp add: kicks_def first_pending_def)
next
  case (Cons t ts)
  obtain T where T: "tasks k t = Some T" "timer_task k t" using Cons.prems(2) by (auto simp: timer_task_def)
  show ?case
  proof (cases "expiration k t \<le> now 0")
    case True
    let ?n = "\<lambda>i. now (Suc i)" and ?k = "expired c [t] (kicks c k [t] @ ipis k) k"
    have same: "tasks ?k x = tasks k x" if "x \<in> set ts" for x using that Cons.prems(1) by (auto simp: expired_tasks)
    have tt: "\<forall>x \<in> set ts. timer_task ?k x" using Cons.prems(2) same by (auto simp: timer_task_def)
    have d: "distinct (timer_list ?k)" using Cons.prems(3) by (simp add: expired_def)
    have du: "due ?n ?k ts = due ?n k ts" by (rule due_cong) (simp add: same expiration_def)
    have nt: "t \<notin> set (due ?n k ts)" using Cons.prems(1) due_subset by fastforce
    have "events_loop c now (t # ts) k = events_loop c ?n ts ?k" by (rule events_step [where now = now, OF T Cons.prems(3) True])
    also have "\<dots> = Ok (expired c (due ?n k ts) (kicks c ?k (due ?n k ts) @ ipis ?k) ?k, first_pending ?n ?k ts)"
      using Cons.IH [of ?k ?n] Cons.prems(1) tt d unfolding du by auto
    also have "\<dots> = Ok (expired c (t # due ?n k ts) (kicks c k (t # due ?n k ts) @ ipis k) k, first_pending now k (t # ts))"
      unfolding expired_compose [OF nt] expired_other(5) kicks_compose [OF nt] using True by (simp add: first_pending_def du)
    finally show ?thesis using True by simp
  next
    case False
    have "expired c [] (ipis k) k = k" by (simp add: expired_def)
    then show ?thesis using False T by (auto simp: kicks_def first_pending_def with_task_def timer_task_def)
  qed
qed

lemma cpu_ok_frame:
  assumes ok: "cpu_ok k" and l: "task_list k' = task_list k" and cu: "\<And>c. cur k' c = cur k c"
    and t: "\<And>t. rel_option (\<lambda>T T'. on_cpu T' = on_cpu T \<and> live (state T') = live (state T) \<and> (task_ok T \<longrightarrow> task_ok T'))
      (tasks k t) (tasks k' t)"
  shows "cpu_ok k'"
proof -
  have e: "(\<exists>T. tasks k' t = Some T \<and> live (state T)) = (\<exists>T. tasks k t = Some T \<and> live (state T))"
    "(\<exists>T. tasks k' t = Some T \<and> on_cpu T = c) = (\<exists>T. tasks k t = Some T \<and> on_cpu T = c)" for t c
    using t [of t] by (cases "tasks k t"; cases "tasks k' t"; simp)+
  have "task_ok T'" if "tasks k' t = Some T'" for t T'
    using t [of t] cpu_okD(4) [OF ok, of t] that by (cases "tasks k t") auto
  then show ?thesis using ok unfolding cpu_ok_def l cu e by blast
qed

lemma timer_list_tasks:
  assumes "timers_ok k" "events_ok k" "t \<in> set (timer_list k)"
  obtains T where "tasks k t = Some T" "is_timer (wfe T)" "live (state T)" "timer_task k t"
proof -
  obtain T where T: "tasks k t = Some T" "is_timer (wfe T)" using assms timers_okD(3) by blast
  have w: "wfe_ok T" by (rule events_okD [OF assms(2) T(1)])
  have "wfe T \<noteq> WFE_NONE" using T(2) by auto
  then have "live (state T)" "state T = TASK_WFE \<or> ttype T = GRINCH_VMACHINE"
    using w by (cases "ttype T"; auto simp: wfe_ok_def)+
  then show thesis using that T by (simp add: timer_task_def)
qed

lemma expire_props:
  assumes "timer_task k t" "tasks k t = Some T" "wfe_ok T"
  shows "on_cpu (expire c T) = on_cpu T" "live (state (expire c T)) = live (state T)" "task_ok T \<Longrightarrow> task_ok (expire c T)"
    "wfe_ok (expire c T)" "wfe (expire c T) = (if vm_elsewhere c T then wfe T else WFE_NONE)" "ttype (expire c T) = ttype T"
    "parent (expire c T) = parent T" "children (expire c T) = children T" "pid (expire c T) = pid T"
    "state (expire c T) = TASK_RUNNING \<longleftrightarrow> state T = TASK_RUNNING \<and> ttype T = GRINCH_VMACHINE"
    "vm_elsewhere c (expire c T) = vm_elsewhere c T"
    "state (expire c T) = TASK_EXIT_DEAD \<longleftrightarrow> state T = TASK_EXIT_DEAD" "state (expire c T) = TASK_INIT \<longleftrightarrow> state T = TASK_INIT"
proof -
  have a: "is_timer (wfe T)" "state T = TASK_WFE \<or> ttype T = GRINCH_VMACHINE" using assms by (auto simp: timer_task_def)
  have "wfe T \<noteq> WFE_NONE" using a(1) by (metis is_timer_simps(2))
  then have l: "live (state T)" using assms(3) unfolding wfe_ok_def by blast
  show oc: "on_cpu (expire c T) = on_cpu T" and ty: "ttype (expire c T) = ttype T"
    and "parent (expire c T) = parent T" "children (expire c T) = children T" "pid (expire c T) = pid T"
    by (simp_all add: expire_def Let_def)
  show w: "wfe (expire c T) = (if vm_elsewhere c T then wfe T else WFE_NONE)"
    by (simp add: expire_def Let_def vm_elsewhere_def)
  have st: "state (expire c T) = (if ttype T = GRINCH_VMACHINE \<and> state T = TASK_RUNNING then TASK_RUNNING else TASK_RUNNABLE)"
    by (simp add: expire_def Let_def vm_elsewhere_def)
  show "live (state (expire c T)) = live (state T)" using l by (simp add: st)
  show "task_ok T \<Longrightarrow> task_ok (expire c T)" using l by (simp add: task_ok_def oc ty st)
  show "state (expire c T) = TASK_RUNNING \<longleftrightarrow> state T = TASK_RUNNING \<and> ttype T = GRINCH_VMACHINE"
    by (cases "ttype T = GRINCH_VMACHINE"; cases "state T = TASK_RUNNING") (simp_all add: st)
  show "wfe_ok (expire c T)"
  proof (cases "vm_elsewhere c T")
    case True
    then have v: "ttype T = GRINCH_VMACHINE" "state T = TASK_RUNNING" by (simp_all add: vm_elsewhere_def)
    then have "wfe T = WFE_NONE \<or> is_timer (wfe T)" using assms(3) unfolding wfe_ok_def by blast
    then show ?thesis unfolding wfe_ok_def w st ty using True v by simp
  next
    case False
    then show ?thesis unfolding wfe_ok_def w st by simp
  qed
  show "vm_elsewhere c (expire c T) = vm_elsewhere c T"
    by (cases "ttype T = GRINCH_VMACHINE"; cases "state T = TASK_RUNNING") (simp_all add: vm_elsewhere_def st oc ty)
  show "state (expire c T) = TASK_EXIT_DEAD \<longleftrightarrow> state T = TASK_EXIT_DEAD" "state (expire c T) = TASK_INIT \<longleftrightarrow> state T = TASK_INIT"
    using l by (simp_all add: st live_alt)
qed

lemma expired_ok:
  assumes ok: "cpu_ok k" "timers_ok k" "events_ok k" and k': "k' = expired c ds is k" and ds: "set ds \<subseteq> set (timer_list k)"
  shows "cpu_ok k'" "timers_ok k'" "events_ok k'"
proof -
  let ?D = "set ds"
  have D: "\<exists>T. tasks k t = Some T \<and> timer_task k t \<and> wfe_ok T" if "t \<in> ?D" for t
  proof -
    have "t \<in> set (timer_list k)" using that ds by blast
    then show ?thesis using timer_list_tasks [OF ok(2,3)] events_okD [OF ok(3)] by metis
  qed
  note tk = expired_tasks [of c ds "is" k, folded k']
  show "cpu_ok k'"
  proof (rule cpu_ok_frame [OF ok(1)])
    show "rel_option (\<lambda>T T'. on_cpu T' = on_cpu T \<and> live (state T') = live (state T) \<and> (task_ok T \<longrightarrow> task_ok T'))
      (tasks k t) (tasks k' t)" for t
    proof (cases "t \<in> ?D")
      case True
      then obtain T where "tasks k t = Some T" "timer_task k t" "wfe_ok T" using D by blast
      then show ?thesis using True expire_props(1-3) [of k t T c] by (simp add: tk)
    next
      case False
      then show ?thesis by (simp add: tk option.rel_refl)
    qed
  qed (simp_all add: k')
  have "wfe_ok T'" if "tasks k' t = Some T'" for t T'
  proof (cases "t \<in> ?D")
    case True
    then obtain T where "tasks k t = Some T" "timer_task k t" "wfe_ok T" using D by blast
    then show ?thesis using True that expire_props(4) [of k t T c] by (simp add: tk)
  next
    case False
    then show ?thesis using that events_okD [OF ok(3)] by (simp add: tk)
  qed
  then show "events_ok k'" by (simp add: events_ok_def)
  have wfe: "map_option wfe (tasks k' t) = (if t \<in> ?D \<and> \<not> stays c k t then map_option (\<lambda>_. WFE_NONE) (tasks k t)
      else map_option wfe (tasks k t))" for t
  proof (cases "t \<in> ?D")
    case True
    then obtain T where "tasks k t = Some T" "timer_task k t" "wfe_ok T" using D by blast
    then show ?thesis using True expire_props(5) [of k t T c] by (simp add: tk stays_def)
  next
    case False
    then show ?thesis by (simp add: tk)
  qed
  have tl: "timer_list k' = filter (\<lambda>t. \<not> (t \<in> ?D \<and> \<not> stays c k t)) (timer_list k)"
    by (simp add: k' expired_def)
  have ex: "expiration k' t = expiration k t" if "t \<in> set (timer_list k')" for t
    using that wfe [of t] by (intro expiration_cong) (auto simp: tl)
  have "sorted_wrt (\<lambda>a b. expiration k a \<le> expiration k b) (timer_list k')"
    unfolding tl using timers_okD(2) [OF ok(2)] by (rule sorted_wrt_filter)
  then have s: "sorted_wrt (\<lambda>a b. expiration k' a \<le> expiration k' b) (timer_list k')"
    by (rule sorted_wrt_mono_rel [rotated]) (simp add: ex)
  have m: "t \<in> set (timer_list k') \<longleftrightarrow> (\<exists>T. tasks k' t = Some T \<and> is_timer (wfe T))" for t
  proof -
    have a: "(\<exists>T. tasks k' t = Some T \<and> is_timer (wfe T)) \<longleftrightarrow> (\<exists>w. map_option wfe (tasks k' t) = Some w \<and> is_timer w)" by auto
    have b: "(\<exists>T. tasks k t = Some T \<and> is_timer (wfe T)) \<longleftrightarrow> (\<exists>w. map_option wfe (tasks k t) = Some w \<and> is_timer w)" by auto
    show ?thesis
    proof (cases "t \<in> ?D \<and> \<not> stays c k t")
      case True
      then show ?thesis unfolding a wfe by (auto simp: tl)
    next
      case False
      then show ?thesis unfolding a wfe using timers_okD(3) [OF ok(2), of t] b by (auto simp: tl)
    qed
  qed
  show "timers_ok k'" unfolding timers_ok_def using s m timers_okD(1) [OF ok(2)] by (simp add: tl)
qed

lemma task_handle_events_eq:
  assumes ok: "cpu_ok k" "timers_ok k" "events_ok k" and now: "now = (\<lambda>i. timer_get_wall_ns (tconf k) (clk i))"
    and ds: "ds = due now k (timer_list k)"
  shows "task_handle_events c clk k =
    Ok (upd_cpu c (timer_update (tconf k) (map_option (expiration k) (first_pending now k (timer_list k))))
         (expired c ds (kicks c k ds @ ipis k) k))"
proof -
  let ?k = "expired c ds (kicks c k ds @ ipis k) k" and ?f = "first_pending now k (timer_list k)"
  have tt: "\<forall>t \<in> set (timer_list k). timer_task k t" using timer_list_tasks [OF ok(2,3)] by metis
  note d = timers_okD(1) [OF ok(2)]
  have e: "events_loop c now (timer_list k) k = Ok (?k, ?f)" unfolding ds by (rule events_loop_eq [OF d tt d])
  obtain rest where r: "timer_list k = due now k (timer_list k) @ rest" using due_split by blast
  then have rest: "timer_list k = ds @ rest" by (simp add: ds [symmetric])
  note fp = first_pending_rest [OF r]
  have "map_option (expiration ?k) ?f = map_option (expiration k) ?f"
  proof (cases rest)
    case (Cons u us)
    then have "tasks ?k u = tasks k u" using d rest by (auto simp: expired_tasks)
    then show ?thesis unfolding fp using Cons by (simp add: expiration_def)
  qed (simp add: fp)
  then show ?thesis using e now by (simp add: task_handle_events_def)
qed

lemma timer_update_next:
  "timer_next (timer_update tc e p) = (case e of Some x \<Rightarrow> if x < timer_next p then x else timer_next p | None \<Rightarrow> timer_next p)"
  by (simp add: timer_update_def Let_def split: option.split)

lemma timer_update_other [simp]:
  "current_task (timer_update tc e p) = current_task p" "sched_req (timer_update tc e p) = sched_req p"
  "idling (timer_update tc e p) = idling p" "handle_events (timer_update tc e p) = handle_events p"
  by (simp_all add: timer_update_def Let_def split: option.split)

lemma upd_cpu_oks:
  assumes "current_task (f (cpus k c)) = cur k c"
  shows "cpu_ok (upd_cpu c f k) = cpu_ok k" "timers_ok (upd_cpu c f k) = timers_ok k" "events_ok (upd_cpu c f k) = events_ok k"
proof -
  have u: "tasks (upd_cpu c f k) = tasks k" "task_list (upd_cpu c f k) = task_list k"
    "timer_list (upd_cpu c f k) = timer_list k" "\<And>d. cur (upd_cpu c f k) d = cur k d"
    using assms by (simp_all add: upd_cpu_def)
  show "cpu_ok (upd_cpu c f k) = cpu_ok k" by (rule cpu_ok_cong [OF u(1,2,4)])
  show "timers_ok (upd_cpu c f k) = timers_ok k" by (rule timers_ok_cong [OF u(3)]) (simp add: u)
  show "events_ok (upd_cpu c f k) = events_ok k" by (rule events_ok_cong [OF u(1)])
qed

lemma timer_update_hw:
  "timer_hw (timer_update tc e p) =
     (if timer_next (timer_update tc e p) = -1 then -1 else timer_next (timer_update tc e p) + wall_base tc)"
  by (simp add: timer_update_def Let_def split: option.split)

section \<open>Properties\<close>

text \<open>
  C25. Handling the events takes the front of the timer list up to the first task whose time
  lies after the clock, read anew for each task. Exactly these tasks are woken and leave the
  list; only a virtual machine that runs on another CPU stays on it, is flagged, and that CPU
  is sent an interrupt. The timer of this CPU is then set to the time of the first task
  that still waits, if that is earlier than the interrupt already due, and programmed into
  the hardware. If the clock does not run backwards, every task whose time had come is woken.
\<close>

theorem task_handle_events_exact:
  assumes "cpu_ok k" "timers_ok k" "events_ok k" "now = (\<lambda>i. timer_get_wall_ns (tconf k) (clk i))"
  shows "\<exists>k' ds rest. task_handle_events c clk k = Ok k' \<and> cpu_ok k' \<and> timers_ok k' \<and> events_ok k' \<and>
    timer_list k = ds @ rest \<and> (\<forall>i < length ds. expiration k (ds ! i) \<le> now i) \<and>
    (rest \<noteq> [] \<longrightarrow> now (length ds) < expiration k (hd rest)) \<and>
    (\<forall>t. tasks k' t = (if t \<in> set ds then map_option (expire c) (tasks k t) else tasks k t)) \<and>
    timer_list k' = filter (stays c k) ds @ rest \<and> ipis k' = kicks c k ds @ ipis k \<and>
    timer_next (cpus k' c) = (case rest of [] \<Rightarrow> timer_next (cpus k c) | t # _ \<Rightarrow> min (expiration k t) (timer_next (cpus k c))) \<and>
    timer_hw (cpus k' c) = (if timer_next (cpus k' c) = -1 then -1 else timer_next (cpus k' c) + wall_base (tconf k)) \<and>
    (\<forall>d. d \<noteq> c \<longrightarrow> cpus k' d = cpus k d) \<and>
    ((\<forall>i. now 0 \<le> now i) \<longrightarrow> (\<forall>t \<in> set (timer_list k). expiration k t \<le> now 0 \<longrightarrow> t \<in> set ds))"
proof -
  define ds where "ds = due now k (timer_list k)"
  define k1 where "k1 = expired c ds (kicks c k ds @ ipis k) k"
  define k' where "k' = upd_cpu c (timer_update (tconf k) (map_option (expiration k) (first_pending now k (timer_list k)))) k1"
  have e: "task_handle_events c clk k = Ok k'" unfolding k'_def k1_def by (rule task_handle_events_eq [OF assms ds_def])
  have "set ds \<subseteq> set (timer_list k)" unfolding ds_def by (rule due_subset)
  then have inv: "cpu_ok k'" "timers_ok k'" "events_ok k'"
    unfolding k'_def using expired_ok [OF assms(1-3) k1_def] by (simp_all add: upd_cpu_oks)
  obtain rest where rest: "timer_list k = ds @ rest" "rest \<noteq> [] \<longrightarrow> now (length ds) < expiration k (hd rest)"
    unfolding ds_def using due_split by blast
  have fp: "first_pending now k (timer_list k) = (case rest of [] \<Rightarrow> None | t # _ \<Rightarrow> Some t)"
    by (rule first_pending_rest [OF rest(1) [unfolded ds_def]])
  have d: "distinct (ds @ rest)" using timers_okD(1) [OF assms(2)] rest(1) by simp
  have "filter (\<lambda>t. t \<notin> set ds \<or> stays c k t) ds = filter (stays c k) ds" by (rule filter_cong) simp_all
  moreover have "filter (\<lambda>t. t \<notin> set ds \<or> stays c k t) rest = rest" using d by (intro filter_True) auto
  ultimately have tl: "timer_list k' = filter (stays c k) ds @ rest"
    by (simp add: k'_def k1_def upd_cpu_def expired_def rest(1))
  have nx: "timer_next (cpus k' c) =
      (case rest of [] \<Rightarrow> timer_next (cpus k c) | t # _ \<Rightarrow> min (expiration k t) (timer_next (cpus k c)))"
    by (simp add: k'_def k1_def upd_cpu_def timer_update_next fp min_def split: list.split) auto
  have hw: "timer_hw (cpus k' c) = (if timer_next (cpus k' c) = -1 then -1 else timer_next (cpus k' c) + wall_base (tconf k))"
    by (simp add: k'_def k1_def upd_cpu_def timer_update_hw)
  have cs: "\<forall>d. d \<noteq> c \<longrightarrow> cpus k' d = cpus k d" and ip: "ipis k' = kicks c k ds @ ipis k"
    and tk: "\<forall>t. tasks k' t = (if t \<in> set ds then map_option (expire c) (tasks k t) else tasks k t)"
    by (simp_all add: k'_def k1_def upd_cpu_def expired_tasks)
  have ex: "\<forall>i < length ds. expiration k (ds ! i) \<le> now i" unfolding ds_def using due_expired by blast
  have "(\<forall>i. now 0 \<le> now i) \<longrightarrow> (\<forall>t \<in> set (timer_list k). expiration k t \<le> now 0 \<longrightarrow> t \<in> set ds)"
    unfolding ds_def using due_complete [OF timers_okD(2) [OF assms(2)]] by blast
  then show ?thesis using e inv rest ex tk tl ip nx hw cs by blast
qed

definition demo_sleep :: kstate where
  "demo_sleep = demo_state\<lparr>tasks := [8 \<mapsto> demo_task 1 TASK_RUNNING 0 None [24, 16],
       16 \<mapsto> (demo_task 2 TASK_WFE TASK_NO_CPU (Some 8) [])\<lparr>wfe := WFE_TIMER 5\<rparr>,
       24 \<mapsto> (demo_task 3 TASK_WFE TASK_NO_CPU (Some 8) [])\<lparr>wfe := WFE_TIMER 100\<rparr>], timer_list := [16, 24],
     cpus := (\<lambda>c. (demo_cpu (if c = 0 then Some 8 else None))\<lparr>timer_next := 1000\<rparr>)\<rparr>"

lemma demo_sleep_ex:
  "(\<exists>T. tasks demo_sleep t = Some T \<and> P T) \<longleftrightarrow>
     t = 8 \<and> P (demo_task 1 TASK_RUNNING 0 None [24, 16]) \<or>
     t = 16 \<and> P ((demo_task 2 TASK_WFE TASK_NO_CPU (Some 8) [])\<lparr>wfe := WFE_TIMER 5\<rparr>) \<or>
     t = 24 \<and> P ((demo_task 3 TASK_WFE TASK_NO_CPU (Some 8) [])\<lparr>wfe := WFE_TIMER 100\<rparr>)"
  by (auto simp: demo_sleep_def)

lemma demo_sleep_all:
  assumes "tasks demo_sleep t = Some T"
    "P (demo_task 1 TASK_RUNNING 0 None [24, 16])"
    "P ((demo_task 2 TASK_WFE TASK_NO_CPU (Some 8) [])\<lparr>wfe := WFE_TIMER 5\<rparr>)"
    "P ((demo_task 3 TASK_WFE TASK_NO_CPU (Some 8) [])\<lparr>wfe := WFE_TIMER 100\<rparr>)"
  shows "P T"
  using assms demo_sleep_ex [of t "\<lambda>S. S = T"] by auto

lemma demo_sleep_ok: "cpu_ok demo_sleep" "timers_ok demo_sleep" "events_ok demo_sleep"
proof -
  have tl: "task_list demo_sleep = [24, 16, 8]" "timer_list demo_sleep = [16, 24]"
    by (simp_all add: demo_sleep_def demo_state_def)
  have cu: "cur demo_sleep c = (if c = 0 then Some 8 else None)" for c
    by (simp add: demo_sleep_def demo_state_def demo_cpu_def)
  have a: "t \<in> set (task_list demo_sleep) \<longleftrightarrow> (\<exists>T. tasks demo_sleep t = Some T \<and> live (state T))" for t
    unfolding demo_sleep_ex tl by auto
  have b: "cur demo_sleep c = Some t \<longleftrightarrow> c \<noteq> TASK_NO_CPU \<and> (\<exists>T. tasks demo_sleep t = Some T \<and> on_cpu T = c)" for c t
    unfolding demo_sleep_ex cu by auto
  have c: "task_ok T \<and> wfe_ok T" if "tasks demo_sleep t = Some T" for t T
    by (rule demo_sleep_all [OF that]) (simp_all add: task_ok_def wfe_ok_def)
  show "cpu_ok demo_sleep" unfolding cpu_ok_def using a b c by (auto simp: tl)
  show "events_ok demo_sleep" unfolding events_ok_def using c by blast
  have "t \<in> set (timer_list demo_sleep) \<longleftrightarrow> (\<exists>T. tasks demo_sleep t = Some T \<and> is_timer (wfe T))" for t
    unfolding demo_sleep_ex tl by auto
  then show "timers_ok demo_sleep" unfolding timers_ok_def
    by (simp add: tl expiration_def) (simp add: demo_sleep_def)
qed

theorem task_handle_events_exact_witness:
  "\<exists>k' T. task_handle_events 0 (\<lambda>i. 50 + word_of_nat i) demo_sleep = Ok k' \<and> cpu_ok k' \<and> timers_ok k' \<and>
     timer_list k' = [24] \<and> tasks k' 16 = Some T \<and> state T = TASK_RUNNABLE \<and> wfe T = WFE_NONE \<and>
     tasks k' 24 = tasks demo_sleep 24 \<and> timer_next (cpus k' 0) = 100 \<and> timer_hw (cpus k' 0) = 100"
proof -
  let ?n = "\<lambda>i. timer_get_wall_ns (tconf demo_sleep) (50 + word_of_nat i)"
  have now: "?n i = 50 + word_of_nat i" for i by (simp add: timer_get_wall_ns_def demo_sleep_def demo_state_def)
  have t: "tasks demo_sleep 16 = Some ((demo_task 2 TASK_WFE TASK_NO_CPU (Some 8) [])\<lparr>wfe := WFE_TIMER 5\<rparr>)"
    "tasks demo_sleep 24 = Some ((demo_task 3 TASK_WFE TASK_NO_CPU (Some 8) [])\<lparr>wfe := WFE_TIMER 100\<rparr>)"
    and l: "timer_list demo_sleep = [16, 24]" and p: "timer_next (cpus demo_sleep 0) = 1000" "wall_base (tconf demo_sleep) = 0"
    by (simp_all add: demo_sleep_def demo_state_def demo_cpu_def)
  have e: "expiration demo_sleep 16 = 5" "expiration demo_sleep 24 = 100" by (simp_all add: expiration_def t)
  obtain k' ds rest where k': "task_handle_events 0 (\<lambda>i. 50 + word_of_nat i) demo_sleep = Ok k'" "cpu_ok k'" "timers_ok k'"
      "[16, 24] = ds @ rest" "\<forall>i < length ds. expiration demo_sleep (ds ! i) \<le> 50 + word_of_nat i"
      "rest \<noteq> [] \<longrightarrow> 50 + word_of_nat (length ds) < expiration demo_sleep (hd rest)"
      "\<forall>t. tasks k' t = (if t \<in> set ds then map_option (expire 0) (tasks demo_sleep t) else tasks demo_sleep t)"
      "timer_list k' = filter (stays 0 demo_sleep) ds @ rest"
      "timer_next (cpus k' 0) = (case rest of [] \<Rightarrow> 1000 | t # _ \<Rightarrow> min (expiration demo_sleep t) 1000)"
      "timer_hw (cpus k' 0) = (if timer_next (cpus k' 0) = -1 then -1 else timer_next (cpus k' 0) + 0)"
    using task_handle_events_exact [where c = 0 and clk = "\<lambda>i. 50 + word_of_nat i", OF demo_sleep_ok refl] unfolding now l p
    by (elim exE conjE) (rule that; assumption)
  have "ds \<noteq> []" using k'(4,6) e by auto
  moreover have "ds \<noteq> [16, 24]" using k'(5) e by auto
  ultimately have dr: "ds = [16]" "rest = [24]" using k'(4) by (auto simp: Cons_eq_append_conv)
  then have "tasks k' 16 = Some (expire 0 ((demo_task 2 TASK_WFE TASK_NO_CPU (Some 8) [])\<lparr>wfe := WFE_TIMER 5\<rparr>))"
    "tasks k' 24 = tasks demo_sleep 24" "timer_next (cpus k' 0) = 100" "timer_list k' = [24]"
    using k'(7-9) by (simp_all add: t e stays_def vm_elsewhere_def)
  then show ?thesis using k' by (simp add: expire_def vm_elsewhere_def)
qed

end
