(* ===== verification/Family.thy ===== *)
theory Family
  imports Timers
begin

text \<open>
  The family tree of tasks in \<open>Task\<close>: parents, children, waiting for a child, exit and
  adoption by PID 1. The tree stays consistent, and no process sleeps in \<^verbatim>\<open>wait\<close> while a
  child it waits for is dead; PID 1, which adopts dead children, is the exception.
\<close>

section \<open>The tree\<close>

definition fam_ok :: "kstate \<Rightarrow> bool" where
  "fam_ok k \<longleftrightarrow>
     (\<exists>I. tasks k (init_task k) = Some I \<and> live (state I)) \<and>
     (\<forall>t T. tasks k t = Some T \<longrightarrow> distinct (children T) \<and> state T \<noteq> TASK_INIT \<and> (parent T = None \<longleftrightarrow> t = init_task k)) \<and>
     (\<forall>p P ch. tasks k p = Some P \<longrightarrow> (ch \<in> set (children P) \<longleftrightarrow> (\<exists>C. tasks k ch = Some C \<and> parent C = Some p))) \<and>
     (\<forall>t T p. tasks k t = Some T \<and> parent T = Some p \<longrightarrow> p \<noteq> t \<and> (\<exists>P. tasks k p = Some P \<and> live (state P)))"

lemma fam_okD:
  assumes "fam_ok k"
  shows "\<exists>I. tasks k (init_task k) = Some I \<and> live (state I)"
    "tasks k t = Some T \<Longrightarrow> distinct (children T)" "tasks k t = Some T \<Longrightarrow> state T \<noteq> TASK_INIT"
    "tasks k t = Some T \<Longrightarrow> parent T = None \<longleftrightarrow> t = init_task k"
    "tasks k t = Some T \<Longrightarrow> ch \<in> set (children T) \<longleftrightarrow> (\<exists>C. tasks k ch = Some C \<and> parent C = Some t)"
    "tasks k t = Some T \<Longrightarrow> parent T = Some p \<Longrightarrow> p \<noteq> t"
    "tasks k t = Some T \<Longrightarrow> parent T = Some p \<Longrightarrow> \<exists>P. tasks k p = Some P \<and> live (state P)"
  using assms unfolding fam_ok_def by blast+

lemma fam_okI:
  assumes "tasks k (init_task k) = Some I" "live (state I)"
    and "\<And>t T. tasks k t = Some T \<Longrightarrow> distinct (children T) \<and> state T \<noteq> TASK_INIT \<and> (parent T = None \<longleftrightarrow> t = init_task k)"
    and "\<And>p P ch. tasks k p = Some P \<Longrightarrow> ch \<in> set (children P) \<longleftrightarrow> (\<exists>C. tasks k ch = Some C \<and> parent C = Some p)"
    and "\<And>t T p. tasks k t = Some T \<Longrightarrow> parent T = Some p \<Longrightarrow> p \<noteq> t \<and> (\<exists>P. tasks k p = Some P \<and> live (state P))"
  shows "fam_ok k"
  unfolding fam_ok_def using assms by blast

text \<open>What the tree depends on.\<close>

definition fam_view :: "task \<Rightarrow> nat option \<times> nat list \<times> bool \<times> bool" where
  "fam_view T = (parent T, children T, live (state T), state T = TASK_INIT)"

lemma fam_view_eq:
  "map_option fam_view a = map_option fam_view b \<longleftrightarrow>
     rel_option (\<lambda>T T'. parent T' = parent T \<and> children T' = children T \<and> live (state T') = live (state T) \<and>
       (state T' = TASK_INIT) = (state T = TASK_INIT)) b a"
  by (cases a; cases b) (simp_all add: fam_view_def)

lemma fam_ok_cong:
  assumes v: "\<And>t. map_option fam_view (tasks k' t) = map_option fam_view (tasks k t)" and i: "init_task k' = init_task k"
  shows "fam_ok k \<Longrightarrow> fam_ok k'"
proof -
  assume ok: "fam_ok k"
  have b: "\<exists>T. tasks k t = Some T \<and> fam_view T = fam_view T'" if "tasks k' t = Some T'" for t T'
    using v [of t] that by (cases "tasks k t") auto
  have f: "\<exists>T'. tasks k' t = Some T' \<and> fam_view T' = fam_view T" if "tasks k t = Some T" for t T
    using v [of t] that by (cases "tasks k' t") auto
  have e: "(\<exists>C. tasks k' ch = Some C \<and> parent C = Some p) = (\<exists>C. tasks k ch = Some C \<and> parent C = Some p)" for ch p
    using v [of ch] by (cases "tasks k ch"; cases "tasks k' ch") (auto simp: fam_view_def)
  have l: "(\<exists>P. tasks k' p = Some P \<and> live (state P)) = (\<exists>P. tasks k p = Some P \<and> live (state P))" for p
    using v [of p] by (cases "tasks k p"; cases "tasks k' p") (auto simp: fam_view_def)
  show ?thesis
    unfolding fam_ok_def
  proof (intro conjI allI impI)
    show "\<exists>I. tasks k' (init_task k') = Some I \<and> live (state I)" unfolding l i by (rule fam_okD(1) [OF ok])
  next
    fix t T' assume "tasks k' t = Some T'"
    then obtain T where T: "tasks k t = Some T" "fam_view T = fam_view T'" using b by blast
    then show "distinct (children T')" "state T' \<noteq> TASK_INIT" "(parent T' = None) = (t = init_task k')"
      using fam_okD(2,3,4) [OF ok T(1)] i by (auto simp: fam_view_def)
  next
    fix p P' ch assume "tasks k' p = Some P'"
    then obtain P where P: "tasks k p = Some P" "fam_view P = fam_view P'" using b by blast
    then show "(ch \<in> set (children P')) = (\<exists>C. tasks k' ch = Some C \<and> parent C = Some p)"
      unfolding e using fam_okD(5) [OF ok P(1), of ch] by (simp add: fam_view_def)
  next
    fix t T' p assume a: "tasks k' t = Some T' \<and> parent T' = Some p"
    then obtain T where T: "tasks k t = Some T" "fam_view T = fam_view T'" using b by blast
    then have "parent T = Some p" using a by (simp add: fam_view_def)
    then show "p \<noteq> t" "\<exists>P. tasks k' p = Some P \<and> live (state P)"
      unfolding l using fam_okD(6,7) [OF ok T(1)] by blast+
  qed
qed

lemma fam_ok_upd:
  assumes "fam_ok k" "\<And>T. tasks k t = Some T \<Longrightarrow> fam_view (f T) = fam_view T"
  shows "fam_ok (upd t f k)"
  using assms(2) by (intro fam_ok_cong [OF _ _ assms(1)]) (auto simp: upd_def option.map_comp intro: option.map_cong)

lemma fam_ok_frame: "tasks k' = tasks k \<Longrightarrow> init_task k' = init_task k \<Longrightarrow> fam_ok k' = fam_ok k"
  by (simp add: fam_ok_def)

lemma fam_ok_quiet:
  assumes "quiet k k'" "fam_ok k"
  shows "fam_ok k'"
proof (rule fam_ok_cong [OF _ _ assms(2)])
  show "init_task k' = init_task k" using assms(1) by (simp add: quiet_def)
  show "map_option fam_view (tasks k' t) = map_option fam_view (tasks k t)" for t
  proof -
    have "rel_option same_but_run (tasks k t) (tasks k' t)" using assms(1) by (simp add: quiet_def)
    then show ?thesis
      by (cases "tasks k t"; cases "tasks k' t") (auto simp: fam_view_def same_but_run_live same_but_runD)
  qed
qed

section \<open>Waiting\<close>

text \<open>\<open>awaits P C\<close>: the wait of \<open>P\<close> is for \<open>C\<close>.\<close>

definition awaits :: "task \<Rightarrow> task \<Rightarrow> bool" where
  "awaits P C = (case wfe P of WFE_CHILD w _ \<Rightarrow> w = -1 \<or> w = pid C | _ \<Rightarrow> False)"

definition wait_ok :: "kstate \<Rightarrow> bool" where
  "wait_ok k \<longleftrightarrow> (\<forall>p P ch C. tasks k p = Some P \<and> tasks k ch = Some C \<and> parent C = Some p \<and> awaits P C \<longrightarrow>
     p = init_task k \<or> state C \<noteq> TASK_EXIT_DEAD)"

lemma wait_okD:
  "wait_ok k \<Longrightarrow> tasks k p = Some P \<Longrightarrow> tasks k ch = Some C \<Longrightarrow> parent C = Some p \<Longrightarrow> awaits P C \<Longrightarrow>
     p = init_task k \<or> state C \<noteq> TASK_EXIT_DEAD"
  by (simp add: wait_ok_def)

text \<open>No change of the states that makes a new dead child or a new wait breaks it.\<close>

lemma wait_ok_mono:
  assumes ok: "wait_ok k" and i: "init_task k' = init_task k"
    and b: "\<And>t T'. tasks k' t = Some T' \<Longrightarrow> \<exists>T. tasks k t = Some T \<and> pid T' = pid T \<and>
      (parent T' = parent T \<or> parent T' = Some (init_task k)) \<and> (state T' = TASK_EXIT_DEAD \<longrightarrow> state T = TASK_EXIT_DEAD) \<and>
      (wfe T' = wfe T \<or> (\<forall>C. \<not> awaits T' C))"
  shows "wait_ok k'"
  unfolding wait_ok_def
proof (intro allI impI, elim conjE)
  fix p P' ch C'
  assume a: "tasks k' p = Some P'" "tasks k' ch = Some C'" "parent C' = Some p" "awaits P' C'"
  obtain P where P: "tasks k p = Some P" "wfe P' = wfe P" using b [OF a(1)] a(4) by blast
  obtain C where C: "tasks k ch = Some C" "pid C' = pid C" "parent C' = parent C \<or> parent C' = Some (init_task k)"
    "state C' = TASK_EXIT_DEAD \<longrightarrow> state C = TASK_EXIT_DEAD" using b [OF a(2)] by blast
  have "awaits P C" using a(4) unfolding awaits_def P(2) C(2) .
  then show "p = init_task k' \<or> state C' \<noteq> TASK_EXIT_DEAD"
    using wait_okD [OF ok P(1) C(1)] C(3,4) a(3) i by auto
qed

lemma wait_ok_quiet:
  assumes "quiet k k'" "wait_ok k"
  shows "wait_ok k'"
proof (rule wait_ok_mono [OF assms(2)])
  show "init_task k' = init_task k" using assms(1) by (simp add: quiet_def)
  show "\<exists>T. tasks k t = Some T \<and> pid T' = pid T \<and>
      (parent T' = parent T \<or> parent T' = Some (init_task k)) \<and> (state T' = TASK_EXIT_DEAD \<longrightarrow> state T = TASK_EXIT_DEAD) \<and>
      (wfe T' = wfe T \<or> (\<forall>C. \<not> awaits T' C))" if T': "tasks k' t = Some T'" for t T'
  proof -
    obtain T where "tasks k t = Some T" "same_but_run T T'" by (rule quiet_task [OF assms(1) T'])
    then show ?thesis by (intro exI [of _ T]) (simp add: same_but_runD)
  qed
qed

section \<open>Reaping\<close>

definition tasks_ok :: "kstate \<Rightarrow> bool" where
  "tasks_ok k \<longleftrightarrow> cpu_ok k \<and> timers_ok k \<and> events_ok k \<and> fam_ok k \<and> wait_ok k"

lemma tasks_okD:
  "tasks_ok k \<Longrightarrow> cpu_ok k" "tasks_ok k \<Longrightarrow> timers_ok k" "tasks_ok k \<Longrightarrow> events_ok k"
  "tasks_ok k \<Longrightarrow> fam_ok k" "tasks_ok k \<Longrightarrow> wait_ok k"
  by (simp_all add: tasks_ok_def)

lemma tasks_ok_quiet: "quiet k k' \<Longrightarrow> cpu_ok k' \<Longrightarrow> tasks_ok k \<Longrightarrow> tasks_ok k'"
  by (auto simp: tasks_ok_def intro: timers_ok_quiet events_ok_quiet fam_ok_quiet wait_ok_quiet)

lemma tasks_ok_cong:
  assumes "tasks k' = tasks k" "task_list k' = task_list k" "timer_list k' = timer_list k" "init_task k' = init_task k"
    "\<And>c. cur k' c = cur k c"
  shows "tasks_ok k' = tasks_ok k"
proof -
  have "wait_ok k' = wait_ok k" using assms(1,4) by (simp add: wait_ok_def)
  then show ?thesis unfolding tasks_ok_def
    using cpu_ok_cong [OF assms(1,2,5)] timers_ok_cong [of k' k] events_ok_cong [OF assms(1)] fam_ok_frame [OF assms(1,4)] assms(1,3) by simp
qed

abbreviation forget :: "nat \<Rightarrow> kstate \<Rightarrow> kstate" where
  "forget t k \<equiv> k\<lparr>tasks := (tasks k)(t := None)\<rparr>"

lemma cpu_ok_forget:
  assumes ok: "cpu_ok k" and C: "tasks k t = Some C" "\<not> live (state C)"
  shows "cpu_ok (forget t k)"
proof -
  have n: "on_cpu C = TASK_NO_CPU" using cpu_okD(4) [OF ok C(1)] C(2) by (auto simp: task_ok_def)
  have "x \<in> set (task_list k) \<longleftrightarrow> (\<exists>T. tasks (forget t k) x = Some T \<and> live (state T))" for x
    using cpu_okD(2) [OF ok, of x] C by (cases "x = t") simp_all
  moreover have "cur k c = Some x \<longleftrightarrow> c \<noteq> TASK_NO_CPU \<and> (\<exists>T. tasks (forget t k) x = Some T \<and> on_cpu T = c)" for c x
    using cpu_okD(3) [OF ok, of c x] C n by (cases "x = t") auto
  moreover have "tasks (forget t k) x = Some T \<Longrightarrow> task_ok T" for x T
    using cpu_okD(4) [OF ok, of x] by (cases "x = t") simp_all
  ultimately show ?thesis using cpu_okD(1) [OF ok] unfolding cpu_ok_def by simp
qed

lemma timers_ok_forget:
  assumes ok: "timers_ok k" and C: "tasks k t = Some C" "\<not> is_timer (wfe C)"
  shows "timers_ok (forget t k)"
proof -
  have "t \<notin> set (timer_list k)" using timers_okD(3) [OF ok, of t] C by simp
  then have e: "expiration (forget t k) x = expiration k x" if "x \<in> set (timer_list k)" for x
    using that by (auto simp: expiration_def)
  have "sorted_wrt (\<lambda>a b. expiration (forget t k) a \<le> expiration (forget t k) b) (timer_list k)"
    using timers_okD(2) [OF ok] by (rule sorted_wrt_mono_rel [rotated]) (simp add: e)
  moreover have "x \<in> set (timer_list k) \<longleftrightarrow> (\<exists>T. tasks (forget t k) x = Some T \<and> is_timer (wfe T))" for x
    using timers_okD(3) [OF ok, of x] C by (cases "x = t") simp_all
  ultimately show ?thesis using timers_okD(1) [OF ok] unfolding timers_ok_def by simp
qed

definition reaped :: "task \<Rightarrow> nat \<Rightarrow> task \<Rightarrow> task" where
  "reaped C ch P = P\<lparr>retval := pid C, state := (if state P = TASK_WFE then TASK_RUNNABLE else state P),
     children := remove1 ch (children P), wfe := WFE_NONE\<rparr>"

definition reap :: "nat \<Rightarrow> nat \<Rightarrow> task \<Rightarrow> kstate \<Rightarrow> kstate" where
  "reap p ch C k = forget ch (upd p (reaped C ch) k)"

text \<open>
  \<open>wait_but p\<close> is the state while \<open>p\<close> is being told: everything holds but that \<open>p\<close> waits.
\<close>

definition wait_but :: "nat \<Rightarrow> kstate \<Rightarrow> bool" where
  "wait_but q k \<longleftrightarrow> (\<forall>p P ch C. tasks k p = Some P \<and> tasks k ch = Some C \<and> parent C = Some p \<and> awaits P C \<longrightarrow>
     p = init_task k \<or> p = q \<or> state C \<noteq> TASK_EXIT_DEAD)"

lemma reap_ok:
  assumes ok: "cpu_ok k" "timers_ok k" "events_ok k" "fam_ok k" "wait_but p k"
    and P: "tasks k p = Some P" "\<not> is_timer (wfe P)" and C: "tasks k ch = Some C" "parent C = Some p" "state C = TASK_EXIT_DEAD"
  shows "tasks_ok (reap p ch C k)"
proof -
  have ne: "p \<noteq> ch" by (rule fam_okD(6) [OF ok(4) C(1,2)])
  have lP: "live (state P)" using fam_okD(7) [OF ok(4) C(1,2)] P by auto
  have wC: "wfe C = WFE_NONE" using events_okD [OF ok(3) C(1)] C(3) by (simp add: wfe_ok_def)
  let ?k = "upd p (reaped C ch) k"
  have u: "tasks ?k x = (if x = p then Some (reaped C ch P) else tasks k x)" for x using P by (simp add: upd_def)
  have Cu: "tasks ?k ch = Some C" using C ne by (simp add: upd_def)
  have "cpu_ok ?k"
    by (rule cpu_ok_upd [OF ok(1) P(1)]) (use lP cpu_okD(4) [OF ok(1) P(1)] in \<open>auto simp: reaped_def task_ok_def\<close>)
  then have c: "cpu_ok (reap p ch C k)" unfolding reap_def by (rule cpu_ok_forget [OF _ Cu]) (simp add: C)
  have "p \<notin> set (timer_list k)" using timers_okD(3) [OF ok(2), of p] P by simp
  then have r: "k\<lparr>timer_list := remove1 p (timer_list k)\<rparr> = k" by (simp add: remove1_idem)
  have "timers_ok ?k" using timers_ok_remove [OF ok(2), of p "reaped C ch"] unfolding r by (simp add: reaped_def)
  then have t: "timers_ok (reap p ch C k)" unfolding reap_def by (rule timers_ok_forget [OF _ Cu]) (simp add: wC)
  have "events_ok ?k"
    by (rule events_ok_upd [OF ok(3)]) (use lP P in \<open>auto simp: reaped_def wfe_ok_def live_alt\<close>)
  then have e: "events_ok (reap p ch C k)" by (simp add: events_ok_def reap_def)
  have tk: "tasks (reap p ch C k) x = (if x = ch then None else if x = p then Some (reaped C ch P) else tasks k x)" for x
    using u by (simp add: reap_def)
  have sel: "parent (reaped C ch P) = parent P" "pid (reaped C ch P) = pid P" "wfe (reaped C ch P) = WFE_NONE"
    "children (reaped C ch P) = remove1 ch (children P)" "live (state (reaped C ch P))" "state (reaped C ch P) \<noteq> TASK_INIT"
    "state (reaped C ch P) \<noteq> TASK_EXIT_DEAD"
    using lP by (auto simp: reaped_def live_alt)
  have i: "init_task (reap p ch C k) = init_task k" by (simp add: reap_def upd_def)
  have bk: "\<exists>T. tasks k x = Some T \<and> parent T' = parent T \<and> live (state T') = live (state T) \<and> x \<noteq> ch \<and> state T' \<noteq> TASK_INIT \<and>
      set (children T') = set (children T) - {ch} \<and> distinct (children T')" if "tasks (reap p ch C k) x = Some T'" for x T'
  proof -
    have d: "distinct (children T)" if "tasks k x = Some T" for T using fam_okD(2) [OF ok(4) that] .
    show ?thesis
    proof (cases "x = p")
      case True
      then show ?thesis using that P ne sel lP d [of P] by (auto simp: tk)
    next
      case False
      then have T': "tasks k x = Some T'" "x \<noteq> ch" using that by (auto simp: tk split: if_splits)
      have "ch \<notin> set (children T')" using fam_okD(5) [OF ok(4) T'(1), of ch] C False by auto
      then show ?thesis using T' d fam_okD(3) [OF ok(4) T'(1)] by auto
    qed
  qed
  have ex: "(\<exists>D. tasks (reap p ch C k) x = Some D \<and> parent D = Some q) \<longleftrightarrow> x \<noteq> ch \<and> (\<exists>D. tasks k x = Some D \<and> parent D = Some q)" for x q
    using P ne sel by (auto simp: tk)
  have lv: "(\<exists>D. tasks (reap p ch C k) x = Some D \<and> live (state D)) \<longleftrightarrow> (\<exists>D. tasks k x = Some D \<and> live (state D))" for x
    using P ne sel C lP by (auto simp: tk)
  have f: "fam_ok (reap p ch C k)"
    unfolding fam_ok_def i ex lv
  proof (intro conjI allI impI)
    show "\<exists>D. tasks k (init_task k) = Some D \<and> live (state D)" by (rule fam_okD(1) [OF ok(4)])
  next
    fix x T' assume "tasks (reap p ch C k) x = Some T'"
    then obtain T where "tasks k x = Some T" "parent T' = parent T" "state T' \<noteq> TASK_INIT" "distinct (children T')" using bk by blast
    then show "distinct (children T')" "state T' \<noteq> TASK_INIT" "(parent T' = None) = (x = init_task k)"
      using fam_okD(4) [OF ok(4)] by auto
  next
    fix q Q' x assume "tasks (reap p ch C k) q = Some Q'"
    then obtain Q where Q: "tasks k q = Some Q" "set (children Q') = set (children Q) - {ch}" using bk by blast
    then show "(x \<in> set (children Q')) = (x \<noteq> ch \<and> (\<exists>D. tasks k x = Some D \<and> parent D = Some q))"
      using fam_okD(5) [OF ok(4) Q(1), of x] by auto
  next
    fix x T' q assume a: "tasks (reap p ch C k) x = Some T' \<and> parent T' = Some q"
    then obtain T where "tasks k x = Some T" "parent T = Some q" using bk by fastforce
    then show "q \<noteq> x" "\<exists>D. tasks k q = Some D \<and> live (state D)" using fam_okD(6,7) [OF ok(4)] by blast+
  qed
  have w: "wait_ok (reap p ch C k)"
    unfolding wait_ok_def
  proof (intro allI impI, elim conjE)
    fix q Q x X assume a: "tasks (reap p ch C k) q = Some Q" "tasks (reap p ch C k) x = Some X" "parent X = Some q" "awaits Q X"
    have "q \<noteq> p" using a(1,4) sel ne by (auto simp: tk awaits_def)
    then have Q: "tasks k q = Some Q" using a(1) by (auto simp: tk split: if_splits)
    show "q = init_task (reap p ch C k) \<or> state X \<noteq> TASK_EXIT_DEAD"
    proof (cases "x = p")
      case True
      then show ?thesis using a(2) sel ne by (auto simp: tk)
    next
      case False
      then have "tasks k x = Some X" using a(2) by (auto simp: tk split: if_splits)
      then show ?thesis using ok(5) Q a(3,4) \<open>q \<noteq> p\<close> i unfolding wait_but_def by auto
    qed
  qed
  show ?thesis using c t e f w by (simp add: tasks_ok_def)
qed

text \<open>The status word a waiting parent \<open>P\<close> asked for, and the record of it.\<close>

definition wants_status :: "task \<Rightarrow> bool" where
  "wants_status P = (case wfe P of WFE_CHILD _ st \<Rightarrow> st \<noteq> 0 | _ \<Rightarrow> False)"

definition reported :: "nat \<Rightarrow> task \<Rightarrow> int \<Rightarrow> nat ucopy \<Rightarrow> kstate \<Rightarrow> (nat \<times> nat \<times> int \<times> nat) list" where
  "reported p P code cp k = (case wfe P of
     WFE_CHILD _ st \<Rightarrow> if st \<noteq> 0 then (p, st, exit_status code, the cp) # ustatus k else ustatus k
   | _ \<Rightarrow> ustatus k)"

lemma task_notify_wait_eq:
  assumes "tasks k p = Some P" "tasks k ch = Some C" "parent C = Some p" "p \<noteq> ch" "state C = TASK_EXIT_DEAD"
  shows "task_notify_wait p ch cp k =
    (if \<not> awaits P C then Ok (k, - errno_num ECHILD)
     else if wants_status P \<and> cp = None then Panic
     else Ok (reap p ch C (k\<lparr>ustatus := reported p P (exit_code C) cp k\<rparr>), 0))"
proof (cases "wfe P")
  case (WFE_CHILD w st)
  have "task_notify_wait p ch cp k = Ok (reap p ch C (k\<lparr>ustatus := reported p P (exit_code C) cp k\<rparr>), 0)"
    if "awaits P C" "\<not> (wants_status P \<and> cp = None)"
    using that assms WFE_CHILD unfolding task_notify_wait_def with_task_def awaits_def wants_status_def
    by (simp add: reported_def task_put_def list_del_sibling_def with_task_def upd_def reap_def reaped_def fun_upd_twist)
  then show ?thesis using assms WFE_CHILD by (auto simp: task_notify_wait_def with_task_def awaits_def wants_status_def)
qed (use assms in \<open>simp_all add: task_notify_wait_def with_task_def awaits_def\<close>)

section \<open>Exit\<close>

definition adopt :: "nat list \<Rightarrow> nat \<Rightarrow> nat \<Rightarrow> nat \<Rightarrow> task \<Rightarrow> task" where
  "adopt cs ini t x T =
     (if x = t then T\<lparr>children := fold remove1 cs (children T)\<rparr>
      else if x \<in> set cs then T\<lparr>parent := Some ini\<rparr>
      else if x = ini then T\<lparr>children := rev cs @ children T\<rparr>
      else T)"

lemma reparent_eq:
  assumes "distinct cs" "t \<notin> set cs" "init_task k \<notin> set cs" "init_task k \<noteq> t"
  shows "reparent t cs k = k\<lparr>tasks := (\<lambda>x. map_option (adopt cs (init_task k) t x) (tasks k x))\<rparr>"
  using assms
proof (induction cs arbitrary: k)
  case Nil
  have "adopt [] (init_task k) t x = id" for x by (rule ext) (simp add: adopt_def)
  then show ?case by (simp add: option.map_ident)
next
  case (Cons a cs)
  let ?i = "init_task k"
  let ?k = "upd ?i (\<lambda>I. I\<lparr>children := a # children I\<rparr>) (upd a (\<lambda>C. C\<lparr>parent := Some ?i\<rparr>)
    (upd t (\<lambda>T. T\<lparr>children := remove1 a (children T)\<rparr>) k))"
  have i: "init_task ?k = ?i" by (simp add: upd_def)
  have "reparent t (a # cs) k = reparent t cs ?k" by (simp add: Let_def upd_def)
  also have "\<dots> = ?k\<lparr>tasks := (\<lambda>x. map_option (adopt cs ?i t x) (tasks ?k x))\<rparr>"
    using Cons.IH [of ?k] Cons.prems i by simp
  also have "(\<lambda>x. map_option (adopt cs ?i t x) (tasks ?k x)) = (\<lambda>x. map_option (adopt (a # cs) ?i t x) (tasks k x))"
  proof
    fix x
    show "map_option (adopt cs ?i t x) (tasks ?k x) = map_option (adopt (a # cs) ?i t x) (tasks k x)"
      using Cons.prems by (cases "tasks k x") (auto simp: upd_def adopt_def)
  qed
  finally show ?case by (simp add: upd_def)
qed

lemma fold_remove1_self: "fold remove1 xs xs = []"
proof -
  have "fold remove1 xs (xs @ ys) = ys" for ys :: "'a list" by (induction xs) simp_all
  from this [of "[]"] show ?thesis by simp
qed

definition dead :: "int \<Rightarrow> task \<Rightarrow> task" where
  "dead code T = T\<lparr>state := TASK_EXIT_DEAD, exit_code := code, children := [], on_cpu := TASK_NO_CPU,
     wfe := (case wfe T of WFE_TIMER _ \<Rightarrow> WFE_NONE | w \<Rightarrow> w)\<rparr>"

definition exiting :: "nat \<Rightarrow> nat \<Rightarrow> task \<Rightarrow> int \<Rightarrow> kstate \<Rightarrow> kstate" where
  "exiting c t T code k =
     upd_cpu c (\<lambda>p. p\<lparr>sched_req := True, current_task := None\<rparr>)
     (k\<lparr>tasks := (\<lambda>x. if x = t then Some (dead code T) else map_option (adopt (children T) (init_task k) t x) (tasks k x)),
       task_list := remove1 t (task_list k), timer_list := remove1 t (timer_list k)\<rparr>)"

lemma task_exit_eq:
  assumes T: "tasks k t = Some T" "parent T = Some p" "ttype T \<noteq> GRINCH_UNDEF" "cur k c = Some t"
    and cs: "distinct (children T)" "t \<notin> set (children T)" "init_task k \<notin> set (children T)" "init_task k \<noteq> t"
    and P: "tasks k p \<noteq> None"
  shows "task_exit c t code cp k = and_then (task_notify_wait p t cp (exiting c t T code k)) (\<lambda>(k, _). Ok k)"
proof -
  let ?T = "(case wfe T of WFE_TIMER _ \<Rightarrow> T\<lparr>wfe := WFE_NONE\<rparr> | _ \<Rightarrow> T)\<lparr>state := TASK_EXIT_DEAD, exit_code := code\<rparr>"
  let ?k = "k\<lparr>tasks := (tasks k)(t \<mapsto> ?T), task_list := remove1 t (task_list k), timer_list := remove1 t (timer_list k)\<rparr>"
  let ?W = "case wfe T of WFE_TIMER _ \<Rightarrow> T\<lparr>wfe := WFE_NONE\<rparr> | _ \<Rightarrow> T"
  let ?b = "k\<lparr>tasks := (tasks k)(t \<mapsto> ?W), task_list := remove1 t (task_list k), timer_list := remove1 t (timer_list k)\<rparr>"
  have b: "task_exit_begin t k = Ok (?b, p)"
    using T(1,2) by (simp add: task_exit_begin_def with_task_def Let_def task_cancel_timer_def upd_def task_dequeue_def remove1_idem)
  have k1: "upd t (\<lambda>T. T\<lparr>state := TASK_EXIT_DEAD, exit_code := code\<rparr>) ?b = ?k" by (simp add: upd_def)
  have W: "children ?W = children T" "ttype ?W = ttype T" by (simp_all split: task_wfe.split)
  have r: "reparent t (children T) ?k = ?k\<lparr>tasks := (\<lambda>x. map_option (adopt (children T) (init_task k) t x) (tasks ?k x))\<rparr>"
    using reparent_eq [of "children T" t ?k] cs by simp
  have d: "(adopt (children T) (init_task k) t t ?T)\<lparr>on_cpu := TASK_NO_CPU\<rparr> = dead code T"
    by (simp add: adopt_def fold_remove1_self dead_def split: task_wfe.split)
  have "task_release_cpu t (upd_cpu c (\<lambda>p. p\<lparr>sched_req := True, current_task := None\<rparr>) (reparent t (children T) ?k)) =
      exiting c t T code k"
    unfolding r by (rule kstate.equality) (auto simp: exiting_def task_release_cpu_def upd_def upd_cpu_def fun_eq_iff d)
  moreover have "cur (reparent t (children T) ?k) c = Some t" unfolding r using T by simp
  moreover have "task_exit c t code cp k = task_exit_end c t p code cp ?b" by (simp add: task_exit_def b)
  moreover have "\<exists>P'. tasks ?b p = Some P'" "tasks ?b t = Some ?W" using P by auto
  ultimately show ?thesis using T(3) k1 W unfolding task_exit_end_def with_task_def Let_def by auto
qed

lemma adopt_sel [simp]:
  "pid (adopt cs i t x T) = pid T" "state (adopt cs i t x T) = state T" "on_cpu (adopt cs i t x T) = on_cpu T"
  "wfe (adopt cs i t x T) = wfe T" "ttype (adopt cs i t x T) = ttype T"
  by (simp_all add: adopt_def)

lemma adopt_parent: "parent (adopt cs i t x T) = (if x \<in> set cs \<and> x \<noteq> t then Some i else parent T)"
  by (simp add: adopt_def)

lemma dead_sel [simp]:
  "pid (dead code T) = pid T" "state (dead code T) = TASK_EXIT_DEAD" "on_cpu (dead code T) = TASK_NO_CPU"
  "children (dead code T) = []" "parent (dead code T) = parent T" "ttype (dead code T) = ttype T"
  "wfe (dead code T) = (if is_timer (wfe T) then WFE_NONE else wfe T)"
  by (simp_all add: dead_def is_timer_def split: task_wfe.split)

lemma exiting_sel [simp]:
  "task_list (exiting c t T code k) = remove1 t (task_list k)" "timer_list (exiting c t T code k) = remove1 t (timer_list k)"
  "init_task (exiting c t T code k) = init_task k" "next_pid (exiting c t T code k) = next_pid k" "tconf (exiting c t T code k) = tconf k"
  by (simp_all add: exiting_def upd_cpu_def)

lemma exiting_tasks:
  "tasks (exiting c t T code k) x = (if x = t then Some (dead code T) else map_option (adopt (children T) (init_task k) t x) (tasks k x))"
  by (simp add: exiting_def upd_cpu_def)

lemma exiting_cpus:
  "cpus (exiting c t T code k) d = (if d = c then (cpus k c)\<lparr>sched_req := True, current_task := None\<rparr> else cpus k d)"
  by (simp add: exiting_def upd_cpu_def)

lemma exiting_some:
  assumes "tasks (exiting c t T code k) x = Some X'" "x \<noteq> t"
  obtains X where "tasks k x = Some X" "X' = adopt (children T) (init_task k) t x X"
  using assms by (auto simp: exiting_tasks)

lemma exiting_cpu_ok:
  assumes ok: "cpu_ok k" and T: "tasks k t = Some T" "cur k c = Some t"
  shows "cpu_ok (exiting c t T code k)"
proof -
  let ?k = "exiting c t T code k"
  have own: "on_cpu T = c" "c \<noteq> TASK_NO_CPU" using cpu_okD(3) [OF ok, of c t] T by auto
  have d: "distinct (task_list k)" by (rule cpu_okD(1) [OF ok])
  have "x \<in> set (task_list ?k) \<longleftrightarrow> (\<exists>X. tasks ?k x = Some X \<and> live (state X))" for x
    using cpu_okD(2) [OF ok, of x] d by (cases "x = t") (auto simp: exiting_tasks)
  moreover have "cur ?k e = Some x \<longleftrightarrow> e \<noteq> TASK_NO_CPU \<and> (\<exists>X. tasks ?k x = Some X \<and> on_cpu X = e)" for e x
  proof (cases "x = t")
    case True
    have "cur k e \<noteq> Some t" if "e \<noteq> c" using cpu_okD(3) [OF ok, of e t] T own that by auto
    then show ?thesis using True by (auto simp: exiting_tasks exiting_cpus)
  next
    case False
    have "(\<exists>X. tasks ?k x = Some X \<and> on_cpu X = e) \<longleftrightarrow> (\<exists>X. tasks k x = Some X \<and> on_cpu X = e)"
      using False by (auto simp: exiting_tasks)
    moreover have "\<not> (\<exists>X. tasks k x = Some X \<and> on_cpu X = c)" using cpu_okD(3) [OF ok, of c x] T own False by auto
    ultimately show ?thesis using cpu_okD(3) [OF ok, of e x] by (cases "e = c") (auto simp: exiting_cpus)
  qed
  moreover have "task_ok X" if h: "tasks ?k x = Some X" for x X
  proof (cases "x = t")
    case True
    then show ?thesis using that by (auto simp: exiting_tasks task_ok_def)
  next
    case False
    obtain Y where "tasks k x = Some Y" "X = adopt (children T) (init_task k) t x Y" by (rule exiting_some [OF h False])
    then show ?thesis using cpu_okD(4) [OF ok] by (auto simp: task_ok_def)
  qed
  ultimately show ?thesis using d unfolding cpu_ok_def by simp
qed

lemma exiting_timers_ok:
  assumes ok: "timers_ok k" and T: "tasks k t = Some T"
  shows "timers_ok (exiting c t T code k)"
proof -
  let ?r = "upd t (dead code) (k\<lparr>timer_list := remove1 t (timer_list k)\<rparr>)"
  have "timers_ok ?r" by (rule timers_ok_remove [OF ok]) simp
  moreover have "map_option wfe (tasks (exiting c t T code k) x) = map_option wfe (tasks ?r x)" for x
    using T by (cases "tasks k x") (simp_all add: exiting_tasks upd_def)
  ultimately show ?thesis using timers_ok_cong [of "exiting c t T code k" ?r] by (simp add: upd_def)
qed

lemma wfe_running: "wfe_ok T \<Longrightarrow> state T = TASK_RUNNING \<Longrightarrow> wfe T = WFE_NONE \<or> is_timer (wfe T)"
  by (cases "ttype T") (simp_all add: wfe_ok_def)

lemma exiting_events_ok:
  assumes ok: "events_ok k" and T: "tasks k t = Some T" "state T = TASK_RUNNING"
  shows "events_ok (exiting c t T code k)"
proof -
  have w: "wfe T = WFE_NONE \<or> is_timer (wfe T)" by (rule wfe_running [OF events_okD [OF ok T(1)] T(2)])
  have "wfe_ok X" if h: "tasks (exiting c t T code k) x = Some X" for x X
  proof (cases "x = t")
    case True
    then have "X = dead code T" using h by (simp add: exiting_tasks)
    moreover have "wfe (dead code T) = WFE_NONE" using w by auto
    ultimately show ?thesis by (simp add: wfe_ok_def)
  next
    case False
    obtain Y where Y: "tasks k x = Some Y" "X = adopt (children T) (init_task k) t x Y" by (rule exiting_some [OF h False])
    have "wfe_ok Y" by (rule events_okD [OF ok Y(1)])
    then show ?thesis unfolding wfe_ok_def Y(2) adopt_sel .
  qed
  then show ?thesis by (simp add: events_ok_def)
qed

lemma exiting_fam_ok:
  assumes ok: "fam_ok k" and T: "tasks k t = Some T" "t \<noteq> init_task k"
  shows "fam_ok (exiting c t T code k)"
proof -
  let ?k = "exiting c t T code k" and ?i = "init_task k"
  have cs: "ch \<in> set (children T) \<longleftrightarrow> (\<exists>C. tasks k ch = Some C \<and> parent C = Some t)" for ch by (rule fam_okD(5) [OF ok T(1)])
  obtain I where I: "tasks k ?i = Some I" "live (state I)" using fam_okD(1) [OF ok] by blast
  have pI: "parent I = None" using fam_okD(4) [OF ok I(1)] by simp
  then have i_cs: "?i \<notin> set (children T)" using cs [of ?i] I by simp
  have t_cs: "t \<notin> set (children T)" using cs [of t] T fam_okD(6) [OF ok T(1)] by auto
  have disj: "set (children T) \<inter> set (children I) = {}"
    using cs fam_okD(5) [OF ok I(1)] T(2) by auto
  have lv: "(\<exists>D. tasks ?k x = Some D \<and> live (state D)) \<longleftrightarrow> x \<noteq> t \<and> (\<exists>D. tasks k x = Some D \<and> live (state D))" for x
    by (auto simp: exiting_tasks)
  have par: "(\<exists>D. tasks ?k x = Some D \<and> parent D = Some q) \<longleftrightarrow>
      (if x \<in> set (children T) then q = ?i else \<exists>D. tasks k x = Some D \<and> parent D = Some q)" for x q
  proof (cases "x = t")
    case True
    then show ?thesis using t_cs T(1) by (simp add: exiting_tasks)
  next
    case False
    then show ?thesis using cs [of x] by (cases "tasks k x") (auto simp: exiting_tasks adopt_parent)
  qed
  show ?thesis
  proof (rule fam_okI)
    show "tasks ?k (init_task ?k) = Some (adopt (children T) ?i t ?i I)" using T(2) I by (simp add: exiting_tasks)
    show "live (state (adopt (children T) ?i t ?i I))" using I by simp
  next
    fix x X' assume X': "tasks ?k x = Some X'"
    show "distinct (children X') \<and> state X' \<noteq> TASK_INIT \<and> (parent X' = None) = (x = init_task ?k)"
    proof (cases "x = t")
      case True
      then have "X' = dead code T" using X' by (simp add: exiting_tasks)
      then show ?thesis using True T fam_okD(4) [OF ok T(1)] by simp
    next
      case False
      obtain X where X: "tasks k x = Some X" "X' = adopt (children T) ?i t x X" by (rule exiting_some [OF X' False])
      have d: "distinct (children X)" "distinct (children T)" by (rule fam_okD(2) [OF ok X(1)], rule fam_okD(2) [OF ok T(1)])
      have "distinct (children X')" using False X d disj I i_cs by (auto simp: adopt_def)
      moreover have "parent X' = None \<longleftrightarrow> x = ?i" using X False i_cs fam_okD(4) [OF ok X(1)] by (auto simp: adopt_parent)
      ultimately show ?thesis using X fam_okD(3) [OF ok X(1)] by simp
    qed
  next
    fix q Q' x assume Q': "tasks ?k q = Some Q'"
    show "(x \<in> set (children Q')) = (\<exists>D. tasks ?k x = Some D \<and> parent D = Some q)"
    proof (cases "q = t")
      case True
      then have "Q' = dead code T" using Q' by (simp add: exiting_tasks)
      then show ?thesis unfolding par using True T(2) cs [of x] by simp
    next
      case False
      obtain Q where Q: "tasks k q = Some Q" "Q' = adopt (children T) ?i t q Q" by (rule exiting_some [OF Q' False])
      have e: "x \<in> set (children Q) \<longleftrightarrow> (\<exists>D. tasks k x = Some D \<and> parent D = Some q)" by (rule fam_okD(5) [OF ok Q(1)])
      have n: "x \<notin> set (children Q)" if "x \<in> set (children T)" using that cs [of x] e False by auto
      show ?thesis
      proof (cases "q = ?i")
        case True
        then have "children Q' = rev (children T) @ children Q" using Q(2) i_cs False by (simp add: adopt_def)
        then show ?thesis unfolding par using True e by simp
      next
        case nq: False
        then have "children Q' = children Q" using Q(2) False by (simp add: adopt_def)
        then show ?thesis unfolding par using nq e n by simp
      qed
    qed
  next
    fix x X' q assume "tasks ?k x = Some X'" "parent X' = Some q"
    then have q: "if x \<in> set (children T) then q = ?i else \<exists>D. tasks k x = Some D \<and> parent D = Some q" using par [of x q] by blast
    have "q \<noteq> x \<and> q \<noteq> t \<and> (\<exists>D. tasks k q = Some D \<and> live (state D))"
    proof (cases "x \<in> set (children T)")
      case True
      then show ?thesis using q T(2) I i_cs by auto
    next
      case False
      then obtain D where D: "tasks k x = Some D" "parent D = Some q" using q by auto
      then show ?thesis using False cs [of x] fam_okD(6,7) [OF ok D] by auto
    qed
    then show "q \<noteq> x \<and> (\<exists>D. tasks ?k q = Some D \<and> live (state D))" unfolding lv by blast
  qed
qed

lemma exiting_wait:
  assumes ok: "fam_ok k" "wait_ok k" and T: "tasks k t = Some T"
    and a: "tasks (exiting c t T code k) q = Some Q'" "tasks (exiting c t T code k) x = Some X'" "parent X' = Some q" "awaits Q' X'" "x \<noteq> t"
  shows "q = init_task k \<or> state X' \<noteq> TASK_EXIT_DEAD"
proof (cases "q = init_task k")
  case False
  obtain X where X: "tasks k x = Some X" "X' = adopt (children T) (init_task k) t x X" by (rule exiting_some [OF a(2,5)])
  have xc: "x \<in> set (children T) \<longleftrightarrow> parent X = Some t" using fam_okD(5) [OF ok(1) T, of x] X(1) by simp
  have pX: "parent X = Some q" "q \<noteq> t" using X(2) a(3,5) xc False by (auto simp: adopt_parent split: if_splits)
  obtain Q where Q: "tasks k q = Some Q" "Q' = adopt (children T) (init_task k) t q Q" by (rule exiting_some [OF a(1) pX(2)])
  have "awaits Q X" using a(4) unfolding awaits_def Q(2) X(2) adopt_sel .
  then show ?thesis using wait_okD [OF ok(2) Q(1) X(1) pX(1)] X(2) by auto
qed simp

lemma ustatus_oks [simp]:
  "cpu_ok (k\<lparr>ustatus := us\<rparr>) = cpu_ok k" "timers_ok (k\<lparr>ustatus := us\<rparr>) = timers_ok k"
  "events_ok (k\<lparr>ustatus := us\<rparr>) = events_ok k" "fam_ok (k\<lparr>ustatus := us\<rparr>) = fam_ok k"
  "wait_but p (k\<lparr>ustatus := us\<rparr>) = wait_but p k"
  by (simp_all add: cpu_ok_def timers_ok_def expiration_def events_ok_def fam_ok_def wait_but_def)

lemma running_task:
  assumes "tasks_ok k" "cur k c = Some t" "tasks k t = Some T" "state T = TASK_RUNNING"
  shows "ttype T \<noteq> GRINCH_UNDEF" "c \<noteq> TASK_NO_CPU" "on_cpu T = c" "wfe T = WFE_NONE \<or> is_timer (wfe T)"
    "ttype T = GRINCH_PROCESS \<Longrightarrow> wfe T = WFE_NONE"
proof -
  note ok = tasks_okD [OF assms(1)]
  show "ttype T \<noteq> GRINCH_UNDEF" using cpu_okD(4) [OF ok(1) assms(3)] assms(4) by (simp add: task_ok_def)
  show "c \<noteq> TASK_NO_CPU" "on_cpu T = c" using cpu_okD(3) [OF ok(1), of c t] assms by auto
  have w: "wfe_ok T" by (rule events_okD [OF ok(3) assms(3)])
  show "wfe T = WFE_NONE \<or> is_timer (wfe T)" by (rule wfe_running [OF w assms(4)])
  show "ttype T = GRINCH_PROCESS \<Longrightarrow> wfe T = WFE_NONE" using w assms(4) unfolding wfe_ok_def by fastforce
qed

text \<open>Whether the exit of \<open>T\<close> copies a status word to its parent.\<close>

definition status_due :: "kstate \<Rightarrow> task \<Rightarrow> bool" where
  "status_due k T = (case parent T of None \<Rightarrow> False | Some p \<Rightarrow>
     (case tasks k p of None \<Rightarrow> False | Some P \<Rightarrow> awaits P T \<and> wants_status P))"

lemma exit_notify:
  assumes tok: "tasks_ok k" and cu: "cur k c = Some t" and T: "tasks k t = Some T" "state T = TASK_RUNNING" and ni: "t \<noteq> init_task k"
  obtains p P where "parent T = Some p" "tasks k p = Some P" "p \<noteq> t" "t \<notin> set (children T)"
    "task_exit c t code cp k =
      (if \<not> awaits P T then Ok (exiting c t T code k)
       else if wants_status P \<and> cp = None then Panic
       else Ok (reap p t (dead code T) ((exiting c t T code k)\<lparr>ustatus := reported p P code cp k\<rparr>)))"
proof -
  note ok = tasks_okD [OF tok]
  let ?K = "exiting c t T code k"
  obtain p where p: "parent T = Some p" using fam_okD(4) [OF ok(4) T(1)] ni by auto
  have pt: "p \<noteq> t" by (rule fam_okD(6) [OF ok(4) T(1) p])
  obtain P where P: "tasks k p = Some P" "live (state P)" using fam_okD(7) [OF ok(4) T(1) p] by blast
  have cs: "ch \<in> set (children T) \<longleftrightarrow> (\<exists>C. tasks k ch = Some C \<and> parent C = Some t)" for ch by (rule fam_okD(5) [OF ok(4) T(1)])
  have tc: "t \<notin> set (children T)" using cs [of t] T p pt by simp
  have ic: "init_task k \<notin> set (children T)" using cs [of "init_task k"] fam_okD(4) [OF ok(4)] by fastforce
  have eq: "task_exit c t code cp k = and_then (task_notify_wait p t cp ?K) (\<lambda>(k, _). Ok k)"
    by (rule task_exit_eq [OF T(1) p running_task(1) [OF tok cu T] cu fam_okD(2) [OF ok(4) T(1)] tc ic]) (use ni P in simp_all)
  have Kt: "tasks ?K t = Some (dead code T)" by (simp add: exiting_tasks)
  define P' where "P' = adopt (children T) (init_task k) t p P"
  have Kp: "tasks ?K p = Some P'" using P pt by (simp add: exiting_tasks P'_def)
  have aw: "awaits P' (dead code T) = awaits P T" "wants_status P' = wants_status P"
    "reported p P' (exit_code (dead code T)) cp ?K = reported p P code cp k"
    unfolding awaits_def wants_status_def reported_def P'_def adopt_sel dead_sel
    by (simp_all add: dead_def exiting_def upd_cpu_def split: task_wfe.split)
  show thesis
    by (rule that [OF p P(1) pt tc]) (simp add: eq task_notify_wait_eq [OF Kp Kt _ pt] p aw)
qed

lemma task_exit_ok:
  assumes tok: "tasks_ok k" and cu: "cur k c = Some t" and T: "tasks k t = Some T" "state T = TASK_RUNNING" and ni: "t \<noteq> init_task k"
    and nf: "\<not> (status_due k T \<and> cp = None)"
  shows "\<exists>k' p P. parent T = Some p \<and> tasks k p = Some P \<and> task_exit c t code cp k = Ok k' \<and> tasks_ok k' \<and>
    init_task k' = init_task k \<and> next_pid k' = next_pid k \<and>
    k' = (if awaits P T then reap p t (dead code T) ((exiting c t T code k)\<lparr>ustatus := reported p P code cp k\<rparr>)
      else exiting c t T code k) \<and>
    (\<forall>d. cpus k' d = (if d = c then (cpus k c)\<lparr>sched_req := True, current_task := None\<rparr> else cpus k d)) \<and>
    (\<forall>x X'. tasks k' x = Some X' \<longrightarrow>
       (\<exists>X. tasks k x = Some X \<and> pid X' = pid X \<and> (x = t \<or> state X' = TASK_RUNNING \<or> state X \<noteq> TASK_RUNNING))) \<and>
    (\<forall>x. x \<in> set (children T) \<longrightarrow> (\<exists>C. tasks k' x = Some C \<and> parent C = Some (init_task k))) \<and>
    (if awaits P T then tasks k' t = None \<and> (\<exists>P'. tasks k' p = Some P' \<and> retval P' = pid T \<and> wfe P' = WFE_NONE)
     else \<exists>T'. tasks k' t = Some T' \<and> state T' = TASK_EXIT_DEAD \<and> exit_code T' = code \<and> parent T' = Some p)"
proof -
  note ok = tasks_okD [OF tok]
  let ?K = "exiting c t T code k"
  obtain p P where p: "parent T = Some p" and P: "tasks k p = Some P" and pt: "p \<noteq> t" and tc: "t \<notin> set (children T)"
    and eq: "task_exit c t code cp k =
      (if \<not> awaits P T then Ok ?K else if wants_status P \<and> cp = None then Panic
       else Ok (reap p t (dead code T) (?K\<lparr>ustatus := reported p P code cp k\<rparr>)))"
    by (rule exit_notify [OF tok cu T ni])
  have nf': "awaits P T \<Longrightarrow> \<not> (wants_status P \<and> cp = None)" using nf p P by (simp add: status_due_def)
  have cs: "ch \<in> set (children T) \<longleftrightarrow> (\<exists>C. tasks k ch = Some C \<and> parent C = Some t)" for ch by (rule fam_okD(5) [OF ok(4) T(1)])
  have K: "cpu_ok ?K" "timers_ok ?K" "events_ok ?K" "fam_ok ?K"
    by (rule exiting_cpu_ok [OF ok(1) T(1) cu], rule exiting_timers_ok [OF ok(2) T(1)], rule exiting_events_ok [OF ok(3) T],
        rule exiting_fam_ok [OF ok(4) T(1) ni])
  have Kt: "tasks ?K t = Some (dead code T)" by (simp add: exiting_tasks)
  define P' where "P' = adopt (children T) (init_task k) t p P"
  have Kp: "tasks ?K p = Some P'" using P pt by (simp add: exiting_tasks P'_def)
  have aw: "awaits P' (dead code T) = awaits P T" unfolding awaits_def P'_def adopt_sel dead_sel ..
  have run: "\<exists>X. tasks k x = Some X \<and> pid X' = pid X \<and> (x = t \<or> state X' = TASK_RUNNING \<or> state X \<noteq> TASK_RUNNING)"
    if h: "tasks ?K x = Some X'" for x X'
  proof (cases "x = t")
    case True
    then show ?thesis using h T Kt by auto
  next
    case False
    obtain X where X: "tasks k x = Some X" "X' = adopt (children T) (init_task k) t x X" by (rule exiting_some [OF h False])
    then show ?thesis by simp
  qed
  have ad: "x \<noteq> t \<and> (\<exists>C. tasks ?K x = Some C \<and> parent C = Some (init_task k))" if "x \<in> set (children T)" for x
    using that cs [of x] tc by (auto simp: exiting_tasks adopt_parent)
  show ?thesis
  proof (cases "awaits P T")
    case True
    let ?k = "reap p t (dead code T) (?K\<lparr>ustatus := reported p P code cp k\<rparr>)"
    have us: "task_exit c t code cp k = Ok ?k" using eq nf' True by auto
    have wb: "wait_but p ?K" unfolding wait_but_def
    proof (intro allI impI, elim conjE)
      fix q Q' x X' assume a: "tasks ?K q = Some Q'" "tasks ?K x = Some X'" "parent X' = Some q" "awaits Q' X'"
      show "q = init_task ?K \<or> q = p \<or> state X' \<noteq> TASK_EXIT_DEAD"
        using exiting_wait [OF ok(4,5) T(1) a] a(2,3) p by (cases "x = t") (auto simp: Kt)
    qed
    have "\<not> is_timer (wfe P')" using True aw by (auto simp: awaits_def is_timer_def P'_def split: task_wfe.splits)
    then have "tasks_ok ?k"
      using K wb Kp Kt p by (intro reap_ok) simp_all
    moreover have "tasks ?k x = (if x = t then None else if x = p then Some (reaped (dead code T) t P') else tasks ?K x)" for x
      using Kp by (simp add: reap_def upd_def)
    moreover have "cpus ?k d = cpus ?K d" "init_task ?k = init_task k" "next_pid ?k = next_pid k" for d by (simp_all add: reap_def upd_def)
    moreover have "\<exists>X. tasks k x = Some X \<and> pid X' = pid X \<and> (x = t \<or> state X' = TASK_RUNNING \<or> state X \<noteq> TASK_RUNNING)"
      if h: "tasks ?k x = Some X'" for x X'
    proof (cases "x = p")
      case True
      then have "X' = reaped (dead code T) t P'" using h Kp pt by (simp add: reap_def upd_def)
      then show ?thesis using P True by (auto simp: reaped_def P'_def)
    next
      case False
      then show ?thesis using run [of x X'] h by (simp add: reap_def upd_def split: if_splits)
    qed
    moreover have "\<exists>C. tasks ?k x = Some C \<and> parent C = Some (init_task k)" if "x \<in> set (children T)" for x
      using ad [OF that] Kp by (auto simp: reap_def upd_def reaped_def)
    ultimately show ?thesis using us True P p pt
      by (intro exI [of _ ?k] exI [of _ p] exI [of _ P]) (auto simp: exiting_cpus reaped_def)
  next
    case False
    have "wait_ok ?K" unfolding wait_ok_def
    proof (intro allI impI, elim conjE)
      fix q Q' x X' assume a: "tasks ?K q = Some Q'" "tasks ?K x = Some X'" "parent X' = Some q" "awaits Q' X'"
      show "q = init_task ?K \<or> state X' \<noteq> TASK_EXIT_DEAD"
      proof (cases "x = t")
        case True
        then have "q = p" "X' = dead code T" "Q' = P'" using a Kt Kp p by auto
        then show ?thesis using a(4) aw False by simp
      next
        case x: False
        show ?thesis using exiting_wait [OF ok(4,5) T(1) a x] by simp
      qed
    qed
    then have "tasks_ok ?K" using K by (simp add: tasks_ok_def)
    then show ?thesis using False P p eq run Kt ad
      by (intro exI [of _ ?K] exI [of _ p] exI [of _ P]) (auto simp: exiting_cpus dead_def)
  qed
qed

lemma task_exit_fatal:
  assumes "tasks_ok k" "cur k c = Some t" "tasks k t = Some T" "state T = TASK_RUNNING" "t \<noteq> init_task k" "status_due k T"
  shows "task_exit c t code None k = Panic"
proof -
  obtain p P where p: "parent T = Some p" "tasks k p = Some P"
    and eq: "task_exit c t code None k =
      (if \<not> awaits P T then Ok (exiting c t T code k) else if wants_status P \<and> None = (None :: nat ucopy) then Panic
       else Ok (reap p t (dead code T) ((exiting c t T code k)\<lparr>ustatus := reported p P code None k\<rparr>)))"
    by (rule exit_notify [OF assms(1-5)])
  then show ?thesis using assms(6) by (simp add: status_due_def)
qed

end
