(* ===== verification/Task_Run.thy ===== *)
theory Task_Run
  imports Family
begin

text \<open>
  Runs of the task system: the operations of \<open>Task\<close> that a running task, an interrupt or
  the return to user mode can trigger, each as one step, on any CPU, in any order. While PIDs
  are left, each of them keeps the invariants of \<open>Scheduler\<close>, \<open>Timers\<close> and \<open>Family\<close> and returns,
  but for the few that stop the kernel, which \<open>fatal\<close> lists.
\<close>

section \<open>Process identifiers\<close>

definition pid_ok :: "kstate \<Rightarrow> bool" where
  "pid_ok k \<longleftrightarrow> 0 < next_pid k \<and> (\<forall>t T. tasks k t = Some T \<longrightarrow> pid T < next_pid k) \<and>
     (\<forall>s t S T. tasks k s = Some S \<and> tasks k t = Some T \<and> pid S = pid T \<longrightarrow> s = t)"

text \<open>The counter has not reached the end of its 32 bits, where it wraps and PIDs repeat.\<close>

definition pid_free :: "kstate \<Rightarrow> bool" where
  "pid_free k \<longleftrightarrow> next_pid k < 2 ^ 31 - 1"

lemma next_pid_exact:
  assumes "pid_ok k" "pid_free k"
  shows "s32_of (next_pid k + 1) = next_pid k + 1"
  using assms by (intro s32_of_small) (simp_all add: pid_ok_def pid_free_def)

text \<open>No task appears, and none changes its identifier.\<close>

definition shrinks :: "kstate \<Rightarrow> kstate \<Rightarrow> bool" where
  "shrinks k k' \<longleftrightarrow> next_pid k \<le> next_pid k' \<and> init_task k' = init_task k \<and>
     (\<forall>t T'. tasks k' t = Some T' \<longrightarrow> (\<exists>T. tasks k t = Some T \<and> pid T' = pid T))"

lemma pid_ok_shrinks: "pid_ok k \<Longrightarrow> shrinks k k' \<Longrightarrow> pid_ok k'"
  unfolding pid_ok_def shrinks_def by (intro conjI) (linarith, metis order.strict_trans2, metis)

lemma shrinks_refl [simp]: "shrinks k k"
  by (auto simp: shrinks_def)

lemma shrinks_trans: "shrinks a b \<Longrightarrow> shrinks b c \<Longrightarrow> shrinks a c"
  unfolding shrinks_def by (auto intro: order.trans) metis

lemma shrinks_upd: "(\<And>T. tasks k t = Some T \<Longrightarrow> pid (f T) = pid T) \<Longrightarrow> shrinks k (upd t f k)"
  by (auto simp: shrinks_def upd_def split: if_splits)

lemma shrinks_frame: "tasks k' = tasks k \<Longrightarrow> next_pid k' = next_pid k \<Longrightarrow> init_task k' = init_task k \<Longrightarrow> shrinks k k'"
  by (auto simp: shrinks_def)

lemma shrinks_forget: "shrinks k (forget t k)"
  by (auto simp: shrinks_def split: if_splits)

lemma shrinks_quiet:
  assumes "quiet k k'" "next_pid k' = next_pid k"
  shows "shrinks k k'"
  unfolding shrinks_def
proof (intro conjI allI impI)
  show "next_pid k \<le> next_pid k'" "init_task k' = init_task k" using assms by (simp_all add: quiet_def)
  fix t T' assume "tasks k' t = Some T'"
  then obtain T where "tasks k t = Some T" "same_but_run T T'" by (rule quiet_task [OF assms(1)])
  then show "\<exists>T. tasks k t = Some T \<and> pid T' = pid T" using same_but_runD(1) by blast
qed

section \<open>The whole invariant\<close>

definition sched_ok :: "kstate \<Rightarrow> bool" where
  "sched_ok k \<longleftrightarrow> (\<forall>c t T. cur k c = Some t \<and> tasks k t = Some T \<and> state T \<noteq> TASK_RUNNING \<longrightarrow> sched_req (cpus k c)) \<and>
     (\<forall>c. \<not> idling (cpus k c))"

lemma sched_okI:
  assumes "sched_ok k"
    and "\<And>c t T'. cur k' c = Some t \<Longrightarrow> tasks k' t = Some T' \<Longrightarrow> state T' \<noteq> TASK_RUNNING \<Longrightarrow> \<not> sched_req (cpus k' c) \<Longrightarrow>
      cur k c = Some t \<and> sched_req (cpus k c) = sched_req (cpus k' c) \<and> (\<exists>T. tasks k t = Some T \<and> state T \<noteq> TASK_RUNNING)"
    and "\<And>c. idling (cpus k' c) = idling (cpus k c)"
  shows "sched_ok k'"
  using assms unfolding sched_ok_def by metis

definition kinv :: "kstate \<Rightarrow> bool" where
  "kinv k \<longleftrightarrow> tasks_ok k \<and> pid_ok k \<and> sched_ok k"

lemma kinvD: "kinv k \<Longrightarrow> tasks_ok k" "kinv k \<Longrightarrow> pid_ok k" "kinv k \<Longrightarrow> sched_ok k"
  by (simp_all add: kinv_def)

text \<open>A change of the per-CPU data that keeps the current task and drops no request.\<close>

lemma kinv_upd_cpu:
  assumes "kinv k" "current_task (f (cpus k c)) = cur k c" "sched_req (cpus k c) \<Longrightarrow> sched_req (f (cpus k c))"
    "idling (f (cpus k c)) = idling (cpus k c)"
  shows "kinv (upd_cpu c f k)"
proof -
  have "tasks_ok (upd_cpu c f k) = tasks_ok k" by (rule tasks_ok_cong) (simp_all add: upd_cpu_def assms(2))
  moreover have "sched_ok (upd_cpu c f k)"
    using kinvD(3) [OF assms(1)] assms(2-4) unfolding sched_ok_def by (auto simp: upd_cpu_def)
  moreover have "pid_ok (upd_cpu c f k)"
    by (rule pid_ok_shrinks [OF kinvD(2) [OF assms(1)]], rule shrinks_frame) (simp_all add: upd_cpu_def)
  ultimately show ?thesis using assms(1) by (simp add: kinv_def)
qed

section \<open>Scheduling and events\<close>

lemma schedule_other:
  assumes "schedule c k = Ok k'" "cur k c \<noteq> Some x" "cur k' c \<noteq> Some x"
  shows "tasks k' x = tasks k x"
proof -
  let ?k = "upd_cpu c (\<lambda>p. p\<lparr>sched_req := False\<rparr>) k"
  have a: "task_activate c (pick_task c ?k) ?k = Ok k'" using assms(1) unfolding schedule_def Let_def .
  then have "pick_task c ?k \<noteq> Some x" using task_activate_cpus [OF a] assms(3) by auto
  then show ?thesis using a assms(2)
    by (auto simp: task_activate_def k_defs Let_def split: option.splits if_splits)
qed

lemma schedule_kinv:
  assumes "kinv k" "c \<noteq> TASK_NO_CPU"
  shows "\<exists>k'. schedule c k = Ok k' \<and> kinv k' \<and>
    (\<forall>t. cur k' c = Some t \<longrightarrow> (\<exists>T. tasks k' t = Some T \<and> state T = TASK_RUNNING))"
proof -
  note ok = kinvD [OF assms(1)]
  obtain k' where k': "schedule c k = Ok k'" "cpu_ok k'" "quiet k k'"
      "\<And>t. cur k' c = Some t \<Longrightarrow> \<exists>T. tasks k' t = Some T \<and> state T = TASK_RUNNING"
    by (rule schedule_ok [OF tasks_okD(1) [OF ok(1)] assms(2)]) blast
  have t: "tasks_ok k'" by (rule tasks_ok_quiet [OF k'(3,2) ok(1)])
  have np: "next_pid k' = next_pid k" using k'(1)
    by (auto simp: schedule_def task_activate_def k_defs Let_def split: option.splits if_splits)
  have "shrinks k k'" by (rule shrinks_quiet [OF k'(3) np])
  then have p: "pid_ok k'" by (rule pid_ok_shrinks [OF ok(2)])
  have "sched_ok k'"
    unfolding sched_ok_def
  proof (intro conjI allI impI, elim conjE)
    fix d t T assume a: "cur k' d = Some t" "tasks k' t = Some T" "state T \<noteq> TASK_RUNNING"
    then have "d \<noteq> c" using k'(4) by auto
    then have cd: "cpus k' d = cpus k d" using schedule_cpus [OF k'(1), of d] by simp
    obtain S where S: "tasks k t = Some S" "same_but_run S T" by (rule quiet_task [OF k'(3) a(2)])
    have own: "on_cpu S = d" using cpu_okD(3) [OF tasks_okD(1) [OF ok(1)], of d t] a(1) cd S by auto
    have own': "on_cpu T = d" using cpu_okD(3) [OF k'(2), of d t] a by auto
    have "cur k c \<noteq> Some t" using cpu_okD(3) [OF tasks_okD(1) [OF ok(1)], of c t] own S \<open>d \<noteq> c\<close> by auto
    moreover have "cur k' c \<noteq> Some t" using cpu_okD(3) [OF k'(2), of c t] own' a \<open>d \<noteq> c\<close> by auto
    ultimately have "tasks k' t = tasks k t" by (rule schedule_other [OF k'(1)])
    then have "state S \<noteq> TASK_RUNNING" using a S by simp
    then show "sched_req (cpus k' d)" using ok(3) a(1) cd S unfolding sched_ok_def by auto
  next
    fix d show "\<not> idling (cpus k' d)"
      using ok(3) by (subst schedule_cpus [OF k'(1)]) (simp add: sched_ok_def)
  qed
  then show ?thesis using k' t p by (auto simp: kinv_def)
qed

lemma expired_task:
  assumes tok: "tasks_ok k" and k': "k' = expired c ds is k" and ds: "set ds \<subseteq> set (timer_list k)" and T': "tasks k' t = Some T'"
  obtains T where "tasks k t = Some T" "fam_view T' = fam_view T" "pid T' = pid T" "parent T' = parent T"
    "state T' = TASK_EXIT_DEAD \<longleftrightarrow> state T = TASK_EXIT_DEAD" "state T' = TASK_RUNNING \<or> state T \<noteq> TASK_RUNNING"
    "wfe T' = wfe T \<or> wfe T' = WFE_NONE"
proof (cases "t \<in> set ds")
  case True
  note ok = tasks_okD [OF tok]
  have tl: "t \<in> set (timer_list k)" using True ds by blast
  obtain T where T: "tasks k t = Some T" "is_timer (wfe T)" "live (state T)" "timer_task k t"
    by (rule timer_list_tasks [OF ok(2,3) tl])
  have w: "wfe_ok T" by (rule events_okD [OF ok(3) T(1)])
  have e: "T' = expire c T" using T' T(1) True by (simp add: k' expired_tasks)
  note x = expire_props [OF T(4,1) w, of c]
  have "state T \<noteq> TASK_RUNNING \<or> ttype T = GRINCH_VMACHINE" using T(1,4) by (auto simp: timer_task_def)
  then have r: "state T' = TASK_RUNNING \<or> state T \<noteq> TASK_RUNNING" unfolding e x(10) by blast
  have v: "fam_view T' = fam_view T" unfolding fam_view_def e x(2,7,8,13) ..
  have w: "wfe T' = wfe T \<or> wfe T' = WFE_NONE" unfolding e x(5) by simp
  show thesis by (rule that [OF T(1) v _ _ _ r w]) (simp_all add: e x)
next
  case False
  then show thesis using that [of T'] T' by (simp add: k' expired_tasks)
qed

lemma expired_kinv:
  assumes inv: "kinv k" and k': "k' = expired c ds is k" and ds: "set ds \<subseteq> set (timer_list k)"
  shows "kinv k'"
proof -
  note tok = kinvD(1) [OF inv]
  note ok = tasks_okD [OF tok]
  have o: "init_task k' = init_task k" "cpus k' = cpus k" "next_pid k' = next_pid k" by (simp_all add: k' expired_def)
  have "map_option fam_view (tasks k' t) = map_option fam_view (tasks k t)" for t
  proof (cases "tasks k' t")
    case None
    then show ?thesis by (auto simp: k' expired_tasks split: if_splits)
  next
    case (Some T')
    obtain T where "tasks k t = Some T" "fam_view T' = fam_view T" by (rule expired_task [OF tok k' ds Some])
    then show ?thesis using Some by simp
  qed
  then have f: "fam_ok k'" by (rule fam_ok_cong [OF _ o(1) ok(4)])
  have w: "wait_ok k'"
  proof (rule wait_ok_mono [OF ok(5) o(1)])
    fix t T' assume T': "tasks k' t = Some T'"
    obtain T where T: "tasks k t = Some T" "pid T' = pid T" "parent T' = parent T"
        "state T' = TASK_EXIT_DEAD \<longleftrightarrow> state T = TASK_EXIT_DEAD" "wfe T' = wfe T \<or> wfe T' = WFE_NONE"
      by (rule expired_task [OF tok k' ds T'])
    then show "\<exists>T. tasks k t = Some T \<and> pid T' = pid T \<and> (parent T' = parent T \<or> parent T' = Some (init_task k)) \<and>
        (state T' = TASK_EXIT_DEAD \<longrightarrow> state T = TASK_EXIT_DEAD) \<and> (wfe T' = wfe T \<or> (\<forall>C. \<not> awaits T' C))"
      by (auto simp: awaits_def)
  qed
  have "shrinks k k'" unfolding shrinks_def
  proof (intro conjI allI impI)
    fix t T' assume T': "tasks k' t = Some T'"
    obtain T where "tasks k t = Some T" "pid T' = pid T" by (rule expired_task [OF tok k' ds T'])
    then show "\<exists>T. tasks k t = Some T \<and> pid T' = pid T" by blast
  qed (simp_all add: o)
  then have p: "pid_ok k'" by (rule pid_ok_shrinks [OF kinvD(2) [OF inv]])
  have "sched_ok k'"
  proof (rule sched_okI [OF kinvD(3) [OF inv]])
    fix d t T' assume "cur k' d = Some t" and T': "tasks k' t = Some T'" and n: "state T' \<noteq> TASK_RUNNING"
    obtain T where "tasks k t = Some T" "state T' = TASK_RUNNING \<or> state T \<noteq> TASK_RUNNING" by (rule expired_task [OF tok k' ds T'])
    then show "cur k d = Some t \<and> sched_req (cpus k d) = sched_req (cpus k' d) \<and> (\<exists>T. tasks k t = Some T \<and> state T \<noteq> TASK_RUNNING)"
      using n o \<open>cur k' d = Some t\<close> by auto
  qed (simp add: o)
  then show ?thesis using expired_ok [OF ok(1-3) k' ds] f w p by (simp add: kinv_def tasks_ok_def)
qed

lemma task_handle_events_kinv:
  assumes "kinv k"
  shows "\<exists>k'. task_handle_events c clk k = Ok k' \<and> kinv k' \<and> (\<forall>d. cur k' d = cur k d)"
proof -
  let ?now = "\<lambda>i. timer_get_wall_ns (tconf k) (clk i)"
  define ds where "ds = due ?now k (timer_list k)"
  define k1 where "k1 = expired c ds (kicks c k ds @ ipis k) k"
  note ok = tasks_okD [OF kinvD(1) [OF assms]]
  have e: "task_handle_events c clk k =
      Ok (upd_cpu c (timer_update (tconf k) (map_option (expiration k) (first_pending ?now k (timer_list k)))) k1)"
    unfolding k1_def by (rule task_handle_events_eq [OF ok(1-3) refl ds_def])
  have "set ds \<subseteq> set (timer_list k)" unfolding ds_def by (rule due_subset)
  then have "kinv k1" by (rule expired_kinv [OF assms k1_def])
  then have "kinv (upd_cpu c (timer_update (tconf k) (map_option (expiration k) (first_pending ?now k (timer_list k)))) k1)"
    by (rule kinv_upd_cpu) simp_all
  then show ?thesis using e by (auto simp: upd_cpu_def k1_def)
qed

lemma prepare_user_return_kinv:
  assumes "kinv k" "c \<noteq> TASK_NO_CPU"
  shows "\<exists>k' r. prepare_user_return c clk k = Ok (k', r) \<and> kinv k' \<and>
    (if r then \<exists>t T. cur k' c = Some t \<and> tasks k' t = Some T \<and> state T = TASK_RUNNING else cur k' c = None)"
proof -
  let ?k = "upd_cpu c (\<lambda>p. p\<lparr>handle_events := False\<rparr>) k"
  have "kinv ?k" by (rule kinv_upd_cpu [OF assms(1)]) simp_all
  then obtain k1 where k1: "(if handle_events (cpus k c) then task_handle_events c clk ?k else Ok k) = Ok k1" "kinv k1"
    using task_handle_events_kinv assms(1) by metis
  obtain k2 where k2: "(if sched_req (cpus k1 c) then schedule c k1 else Ok k1) = Ok k2" "kinv k2"
      "\<And>t T. cur k2 c = Some t \<Longrightarrow> tasks k2 t = Some T \<Longrightarrow> state T = TASK_RUNNING"
  proof (cases "sched_req (cpus k1 c)")
    case True
    then show thesis using that schedule_kinv [OF k1(2) assms(2)] by force
  next
    case False
    then show thesis using that k1(2) kinvD(3) [OF k1(2)] unfolding sched_ok_def by auto
  qed
  note ok = kinvD [OF k2(2)]
  have id: "\<not> idling (cpus k2 c)" using ok(3) by (simp add: sched_ok_def)
  have e: "prepare_user_return c clk k = (case cur k2 c of
      None \<Rightarrow> if task_list k2 \<noteq> [] \<and> idling (cpus k2 c) then Panic else Ok (k2, False)
    | Some t \<Rightarrow> with_task k2 t (\<lambda>T. if state T \<noteq> TASK_RUNNING then Panic else Ok (k2, True)))"
    using k1(1) k2(1) by (simp add: prepare_user_return_def)
  show ?thesis
  proof (cases "cur k2 c")
    case None
    then show ?thesis using e id k2(2) by (intro exI [of _ k2] exI [of _ False]) simp
  next
    case (Some t)
    then obtain T where "tasks k2 t = Some T" using cpu_okD(3) [OF tasks_okD(1) [OF ok(1)], of c t] by auto
    then show ?thesis using Some e k2 by (intro exI [of _ k2] exI [of _ True]) (simp add: with_task_def)
  qed
qed

section \<open>Operations of a task on itself\<close>

text \<open>One task changes what it waits for; the timer list follows.\<close>

lemma kinv_change:
  assumes inv: "kinv k" and T: "tasks k t = Some T" "live (state T)"
    and k': "tasks k' = (tasks k)(t \<mapsto> T')" "task_list k' = task_list k" "init_task k' = init_task k" "next_pid k' = next_pid k"
      "\<And>d. cur k' d = cur k d" "\<And>d. idling (cpus k' d) = idling (cpus k d)" "\<And>d. sched_req (cpus k d) \<Longrightarrow> sched_req (cpus k' d)"
    and T': "pid T' = pid T" "parent T' = parent T" "children T' = children T" "on_cpu T' = on_cpu T" "live (state T')"
      "task_ok T'" "wfe_ok T'" "wfe T' = wfe T \<or> (\<forall>C. \<not> awaits T' C)"
    and tm: "timers_ok k'"
    and sr: "state T' = TASK_RUNNING \<or> state T \<noteq> TASK_RUNNING \<or> (\<forall>d. cur k d = Some t \<longrightarrow> sched_req (cpus k' d))"
  shows "kinv k'"
proof -
  note tok = kinvD(1) [OF inv]
  note ok = tasks_okD [OF tok]
  have "cpu_ok k'"
    by (rule cpu_ok_frame [OF ok(1) k'(2,5)]) (use T T' in \<open>simp add: k'(1) option.rel_refl\<close>)
  moreover have "events_ok k'" using ok(3) T'(7) by (auto simp: events_ok_def k'(1))
  moreover have "fam_ok k'"
    by (rule fam_ok_cong [OF _ k'(3) ok(4)]) (use T T' in \<open>auto simp: k'(1) fam_view_def live_alt\<close>)
  moreover have "wait_ok k'"
  proof (rule wait_ok_mono [OF ok(5) k'(3)])
    fix x X' assume "tasks k' x = Some X'"
    then show "\<exists>X. tasks k x = Some X \<and> pid X' = pid X \<and> (parent X' = parent X \<or> parent X' = Some (init_task k)) \<and>
        (state X' = TASK_EXIT_DEAD \<longrightarrow> state X = TASK_EXIT_DEAD) \<and> (wfe X' = wfe X \<or> (\<forall>C. \<not> awaits X' C))"
      using T T' by (cases "x = t") (auto simp: k'(1) live_alt)
  qed
  moreover have "pid_ok k'"
    by (rule pid_ok_shrinks [OF kinvD(2) [OF inv]]) (use T T' in \<open>auto simp: shrinks_def k'(1,3,4) split: if_splits\<close>)
  moreover have "sched_ok k'"
    unfolding sched_ok_def k'(5,6)
  proof (intro conjI allI impI, elim conjE)
    fix d x X' assume a: "cur k d = Some x" "tasks k' x = Some X'" "state X' \<noteq> TASK_RUNNING"
    show "sched_req (cpus k' d)"
    proof (cases "x = t")
      case True
      then have "X' = T'" using a by (simp add: k'(1))
      then have "state T \<noteq> TASK_RUNNING \<or> sched_req (cpus k' d)" using sr a True by blast
      then show ?thesis using kinvD(3) [OF inv] a(1) T(1) True k'(7) unfolding sched_ok_def by blast
    next
      case False
      then have "tasks k x = Some X'" using a by (simp add: k'(1))
      then show ?thesis using kinvD(3) [OF inv] a(1,3) k'(7) unfolding sched_ok_def by blast
    qed
  qed (use kinvD(3) [OF inv] in \<open>auto simp: sched_ok_def\<close>)
  ultimately show ?thesis using tm by (simp add: kinv_def tasks_ok_def)
qed

lemma timers_ok_untimed:
  assumes ok: "timers_ok k" and T: "tasks k t = Some T" "\<not> is_timer (wfe T)" "\<not> is_timer (wfe T')"
    and k': "tasks k' = (tasks k)(t \<mapsto> T')" "timer_list k' = timer_list k"
  shows "timers_ok k'"
proof -
  have n: "t \<notin> set (timer_list k)" using timers_okD(3) [OF ok, of t] T by simp
  have "timers_ok (upd t (\<lambda>_. T') (k\<lparr>timer_list := remove1 t (timer_list k)\<rparr>))"
    by (rule timers_ok_remove [OF ok]) (simp add: T)
  then show ?thesis
    using timers_ok_cong [of k' "upd t (\<lambda>_. T') (k\<lparr>timer_list := remove1 t (timer_list k)\<rparr>)"] k' T
    by (simp add: upd_def remove1_idem n)
qed

lemma not_awaits [simp]: "wfe T = WFE_NONE \<Longrightarrow> \<not> awaits T C" "wfe T = WFE_READ \<Longrightarrow> \<not> awaits T C" "is_timer (wfe T) \<Longrightarrow> \<not> awaits T C"
  by (auto simp: awaits_def is_timer_def split: task_wfe.splits)

lemma block_reader_kinv:
  assumes inv: "kinv k" and cu: "cur k c = Some t" and T: "tasks k t = Some T" "state T = TASK_RUNNING" "ttype T = GRINCH_PROCESS"
  shows "\<exists>k'. block_reader c k = Ok k' \<and> kinv k'"
proof -
  note ok = tasks_okD [OF kinvD(1) [OF inv]]
  note r = running_task [OF kinvD(1) [OF inv] cu T(1,2)]
  define T' where "T' = T\<lparr>wfe := WFE_READ, state := TASK_WFE\<rparr>"
  define k' where "k' = upd_cpu c (\<lambda>p. p\<lparr>sched_req := True\<rparr>) (k\<lparr>tasks := (tasks k)(t \<mapsto> T')\<rparr>)"
  have e: "block_reader c k = Ok k'"
    using cu T r(5) by (simp add: block_reader_def task_set_wfe_def with_task_def upd_def k'_def T'_def)
  have "kinv k'"
  proof (rule kinv_change [OF inv T(1)])
    show "tasks k' = (tasks k)(t \<mapsto> T')" by (simp add: k'_def upd_cpu_def)
    show "timers_ok k'"
      by (rule timers_ok_untimed [OF ok(2) T(1), of T']) (use r(5) T in \<open>simp_all add: k'_def upd_cpu_def T'_def\<close>)
    show "task_ok T'" using T(3) by (simp add: T'_def task_ok_def)
    show "state T' = TASK_RUNNING \<or> state T \<noteq> TASK_RUNNING \<or> (\<forall>d. cur k d = Some t \<longrightarrow> sched_req (cpus k' d))"
      using cpu_okD(3) [OF ok(1), of _ t] T(1) r(3) by (auto simp: k'_def upd_cpu_def)
  qed (use T in \<open>simp_all add: k'_def upd_cpu_def T'_def wfe_ok_def\<close>)
  then show ?thesis using e by blast
qed

lemma wake_reader_kinv:
  assumes inv: "kinv k" and T: "tasks k t = Some T" "wfe T = WFE_READ"
  shows "\<exists>k'. wake_reader c t ret k = Ok k' \<and> kinv k'"
proof -
  note ok = tasks_okD [OF kinvD(1) [OF inv]]
  have w: "wfe_ok T" by (rule events_okD [OF ok(3) T(1)])
  have p: "ttype T = GRINCH_PROCESS" using w T(2) unfolding wfe_ok_def by (cases "ttype T") auto
  have s: "state T = TASK_WFE" using w T(2) p unfolding wfe_ok_def by simp
  define T' where "T' = T\<lparr>retval := ret, wfe := WFE_NONE, state := TASK_RUNNABLE\<rparr>"
  define k' where "k' = upd_cpu c (\<lambda>p. p\<lparr>sched_req := True\<rparr>) (k\<lparr>tasks := (tasks k)(t \<mapsto> T')\<rparr>)"
  have e: "wake_reader c t ret k = Ok k'" using T by (simp add: wake_reader_def with_task_def upd_def k'_def T'_def)
  have "kinv k'"
  proof (rule kinv_change [OF inv T(1)])
    show "tasks k' = (tasks k)(t \<mapsto> T')" by (simp add: k'_def upd_cpu_def)
    show "timers_ok k'"
      by (rule timers_ok_untimed [OF ok(2) T(1), of T']) (use T in \<open>simp_all add: k'_def upd_cpu_def T'_def\<close>)
    show "task_ok T'" using p by (simp add: T'_def task_ok_def)
  qed (use s p in \<open>simp_all add: k'_def upd_cpu_def T'_def wfe_ok_def\<close>)
  then show ?thesis using e by blast
qed

lemma kinv_arm:
  assumes inv: "kinv k" and cu: "cur k c = Some t" and T: "tasks k t = Some T" "state T = TASK_RUNNING"
    and T': "T' = T\<lparr>wfe := WFE_TIMER x, state := s\<rparr>" "s = (if ttype T = GRINCH_PROCESS then TASK_WFE else TASK_RUNNING)"
    and k1: "k1 = upd t (\<lambda>_. T') k"
    and k': "k' = upd_cpu c (\<lambda>p. p\<lparr>handle_events := True, sched_req := sr \<or> sched_req p\<rparr>)
      (k1\<lparr>timer_list := list_add_sorted (timer_comp k1) t (remove1 t (timer_list k))\<rparr>)"
    and sr: "sr \<or> ttype T \<noteq> GRINCH_PROCESS"
  shows "kinv k'"
proof -
  note ok = tasks_okD [OF kinvD(1) [OF inv]]
  note r = running_task [OF kinvD(1) [OF inv] cu T(1,2)]
  show ?thesis
  proof (rule kinv_change [OF inv T(1)])
    show "tasks k' = (tasks k)(t \<mapsto> T')" using T by (simp add: k' k1 upd_cpu_def upd_def)
    have "timers_ok (k1\<lparr>timer_list := list_add_sorted (timer_comp k1) t (remove1 t (timer_list k))\<rparr>)"
      by (rule timers_ok_add [OF ok(2) T(1) _ k1]) (simp add: T')
    then show "timers_ok k'" unfolding k' by (subst upd_cpu_oks(2)) simp_all
    show "task_ok T'" using r(1-3) by (simp add: T' task_ok_def)
    show "wfe_ok T'" using r(1) by (cases "ttype T") (simp_all add: T' wfe_ok_def)
    show "state T' = TASK_RUNNING \<or> state T \<noteq> TASK_RUNNING \<or> (\<forall>d. cur k d = Some t \<longrightarrow> sched_req (cpus k' d))"
      using cpu_okD(3) [OF ok(1), of _ t] T(1) r(3) sr by (auto simp: k' T' upd_cpu_def)
  qed (use T in \<open>auto simp: k' k1 upd_def upd_cpu_def T' split: if_splits\<close>)
qed

lemma task_sleep_until_eq:
  assumes T: "tasks k t = Some T" "state T = TASK_RUNNING" "wfe T = WFE_NONE \<or> ttype T = GRINCH_VMACHINE \<and> is_timer (wfe T)"
    and k1: "k1 = upd t (\<lambda>_. T\<lparr>wfe := WFE_TIMER (word_of_int (ts_to_ns ts)),
      state := (if ttype T = GRINCH_PROCESS then TASK_WFE else TASK_RUNNING)\<rparr>) k"
  shows "task_sleep_until c t ts k = Ok (upd_cpu c (\<lambda>p. p\<lparr>handle_events := True\<rparr>)
    (k1\<lparr>timer_list := list_add_sorted (timer_comp k1) t (remove1 t (timer_list k))\<rparr>))"
proof -
  have s: "T\<lparr>wfe := w, state := TASK_RUNNING\<rparr> = T\<lparr>wfe := w\<rparr>" for w using T(2) by simp
  show ?thesis using T
    by (cases "ttype T = GRINCH_PROCESS")
      (auto simp: task_sleep_until_def task_set_wfe_def with_task_def upd_def k1 s Let_def)
qed

lemma sys_nanosleep_kinv:
  assumes inv: "kinv k" and cu: "cur k c = Some t" and T: "tasks k t = Some T" "state T = TASK_RUNNING" "ttype T = GRINCH_PROCESS"
  shows "if req = None \<or> req \<noteq> Some None \<and> rf = None then sys_nanosleep c req rf clk k = Panic
    else \<exists>k' r. sys_nanosleep c req rf clk k = Ok (k', r) \<and> kinv k'"
proof (cases "req = None \<or> req = Some None")
  case True
  then show ?thesis using inv cu by (auto simp: sys_nanosleep_def)
next
  case False
  then obtain ts where ts: "req = Some (Some ts)" by (cases req; cases "the req") auto
  note r = running_task [OF kinvD(1) [OF inv] cu T(1,2)]
  let ?ts = "timespec_add (timer_get_wall (tconf k) clk) ts"
  let ?T = "T\<lparr>wfe := WFE_TIMER (word_of_int (ts_to_ns ?ts)), state := TASK_WFE\<rparr>"
  let ?k1 = "upd t (\<lambda>_. ?T) k"
  let ?k' = "upd_cpu c (\<lambda>p. p\<lparr>handle_events := True, sched_req := True \<or> sched_req p\<rparr>)
      (?k1\<lparr>timer_list := list_add_sorted (timer_comp ?k1) t (remove1 t (timer_list k))\<rparr>)"
  have "task_sleep_until c t ?ts k = Ok (upd_cpu c (\<lambda>p. p\<lparr>handle_events := True\<rparr>)
      (?k1\<lparr>timer_list := list_add_sorted (timer_comp ?k1) t (remove1 t (timer_list k))\<rparr>))"
    by (rule task_sleep_until_eq [OF T(1,2)]) (simp_all add: T r(5))
  then have "sys_nanosleep c req rf clk k = (case rf of None \<Rightarrow> Panic | Some f \<Rightarrow> Ok (?k', if f then - errno_num EFAULT else 0))"
    using cu by (cases rf) (simp_all add: ts sys_nanosleep_def task_sleep_for_def upd_cpu_def Let_def)
  moreover have "kinv ?k'" by (rule kinv_arm [OF inv cu T(1,2) refl _ refl refl]) (use T in simp_all)
  ultimately show ?thesis by (cases rf) (auto simp: ts)
qed

lemma sbi_set_timer_kinv:
  assumes inv: "kinv k" and cu: "cur k c = Some t" and T: "tasks k t = Some T" "state T = TASK_RUNNING" "ttype T = GRINCH_VMACHINE"
  shows "\<exists>k'. sbi_set_timer c a0 ts k = Ok k' \<and> kinv k'"
proof (cases "a0 = -1")
  case False
  note r = running_task [OF kinvD(1) [OF inv] cu T(1,2)]
  let ?T = "T\<lparr>wfe := WFE_TIMER (word_of_int (ts_to_ns ts)), state := TASK_RUNNING\<rparr>"
  let ?k1 = "upd t (\<lambda>_. ?T) k"
  let ?k' = "upd_cpu c (\<lambda>p. p\<lparr>handle_events := True, sched_req := False \<or> sched_req p\<rparr>)
      (?k1\<lparr>timer_list := list_add_sorted (timer_comp ?k1) t (remove1 t (timer_list k))\<rparr>)"
  have "task_sleep_until c t ts k = Ok (upd_cpu c (\<lambda>p. p\<lparr>handle_events := True\<rparr>)
      (?k1\<lparr>timer_list := list_add_sorted (timer_comp ?k1) t (remove1 t (timer_list k))\<rparr>))"
    by (rule task_sleep_until_eq [OF T(1,2)]) (use r(4) T(3) in auto)
  then have "sbi_set_timer c a0 ts k = Ok ?k'"
    using cu False by (simp add: sbi_set_timer_def upd_cpu_def)
  moreover have "kinv ?k'" by (rule kinv_arm [OF inv cu T(1,2) refl _ refl refl]) (use T in simp_all)
  ultimately show ?thesis by blast
next
  case True
  note ok = tasks_okD [OF kinvD(1) [OF inv]]
  note r = running_task [OF kinvD(1) [OF inv] cu T(1,2)]
  define T' where "T' = T\<lparr>wfe := WFE_NONE\<rparr>"
  have u: "(case wfe T of WFE_TIMER _ \<Rightarrow> T\<lparr>wfe := WFE_NONE\<rparr> | _ \<Rightarrow> T) = T'"
    using r(4) unfolding T'_def is_timer_ex by auto
  let ?k = "upd t (\<lambda>_. T') (k\<lparr>timer_list := remove1 t (timer_list k)\<rparr>)"
  have e: "sbi_set_timer c a0 ts k = Ok ?k"
    using cu True T(1) u by (simp add: sbi_set_timer_def task_cancel_timer_def upd_def)
  have "timers_ok ?k" by (rule timers_ok_remove [OF ok(2)]) (simp add: T'_def)
  then have "kinv ?k"
    by (intro kinv_change [OF inv T(1), of ?k T'])
      (use T r in \<open>auto simp: upd_def T'_def wfe_ok_def task_ok_def\<close>)
  then show ?thesis using e by blast
qed

lemma vm_wfi_kinv:
  assumes inv: "kinv k" and cu: "cur k c = Some t" and T: "tasks k t = Some T" "state T = TASK_RUNNING" "ttype T = GRINCH_VMACHINE"
    and h: "hvip \<or> is_timer (wfe T)"
  shows "\<exists>k'. vm_wfi c hvip k = Ok k' \<and> kinv k'"
proof (cases hvip)
  case True
  have "kinv (upd_cpu c (\<lambda>p. p\<lparr>sched_req := True\<rparr>) k)" by (rule kinv_upd_cpu [OF inv]) simp_all
  then show ?thesis using True cu by (simp add: vm_wfi_def)
next
  case False
  note ok = tasks_okD [OF kinvD(1) [OF inv]]
  note r = running_task [OF kinvD(1) [OF inv] cu T(1,2)]
  have tm: "is_timer (wfe T)" "wfe T \<noteq> WFE_NONE" using h False by auto
  define T' where "T' = T\<lparr>state := TASK_WFE\<rparr>"
  define k' where "k' = upd_cpu c (\<lambda>p. p\<lparr>sched_req := True\<rparr>) (k\<lparr>tasks := (tasks k)(t \<mapsto> T')\<rparr>)"
  have e: "vm_wfi c hvip k = Ok k'"
    using cu T False tm by (simp add: vm_wfi_def task_set_wfe_def with_task_def upd_def k'_def T'_def)
  have "kinv k'"
  proof (rule kinv_change [OF inv T(1)])
    show "tasks k' = (tasks k)(t \<mapsto> T')" by (simp add: k'_def upd_cpu_def)
    have "timers_ok (upd t (\<lambda>_. T') k)" by (rule timers_ok_upd [OF ok(2)]) (simp add: T T'_def)
    then show "timers_ok k'" using T(1) by (simp add: k'_def upd_def upd_cpu_oks)
    show "state T' = TASK_RUNNING \<or> state T \<noteq> TASK_RUNNING \<or> (\<forall>d. cur k d = Some t \<longrightarrow> sched_req (cpus k' d))"
      using cpu_okD(3) [OF ok(1), of _ t] T(1) r(3) by (auto simp: k'_def upd_cpu_def)
    show "wfe_ok T'" using tm T(3) by (simp add: T'_def wfe_ok_def)
    show "task_ok T'" using T(3) by (simp add: T'_def task_ok_def)
  qed (use T tm in \<open>simp_all add: k'_def upd_cpu_def T'_def\<close>)
  then show ?thesis using e by blast
qed

section \<open>Exit, fork and wait\<close>

lemma task_exit_kinv:
  assumes inv: "kinv k" and cu: "cur k c = Some t" and T: "tasks k t = Some T" "state T = TASK_RUNNING" and ni: "t \<noteq> init_task k"
    and nf: "\<not> (status_due k T \<and> cp = None)"
  shows "\<exists>k'. task_exit c t code cp k = Ok k' \<and> kinv k'"
proof -
  obtain k' where k': "task_exit c t code cp k = Ok k'" "tasks_ok k'" "init_task k' = init_task k" "next_pid k' = next_pid k"
    and cs: "\<forall>d. cpus k' d = (if d = c then (cpus k c)\<lparr>sched_req := True, current_task := None\<rparr> else cpus k d)"
    and tk: "\<forall>x X'. tasks k' x = Some X' \<longrightarrow>
       (\<exists>X. tasks k x = Some X \<and> pid X' = pid X \<and> (x = t \<or> state X' = TASK_RUNNING \<or> state X \<noteq> TASK_RUNNING))"
    using task_exit_ok [OF kinvD(1) [OF inv] cu T ni nf, of code] by blast
  have "shrinks k k'" unfolding shrinks_def using k' tk by auto
  then have "pid_ok k'" by (rule pid_ok_shrinks [OF kinvD(2) [OF inv]])
  moreover have "sched_ok k'"
  proof (rule sched_okI [OF kinvD(3) [OF inv]])
    fix d x X' assume a: "cur k' d = Some x" "tasks k' x = Some X'" "state X' \<noteq> TASK_RUNNING"
    have d: "d \<noteq> c" "cur k d = Some x" using a(1) cs by (auto split: if_splits)
    have "on_cpu T = c" by (rule running_task(3) [OF kinvD(1) [OF inv] cu T])
    then have "x \<noteq> t" using d T cpu_okD(3) [OF tasks_okD(1) [OF kinvD(1) [OF inv]], of d x] by auto
    then show "cur k d = Some x \<and> sched_req (cpus k d) = sched_req (cpus k' d) \<and> (\<exists>X. tasks k x = Some X \<and> state X \<noteq> TASK_RUNNING)"
      using tk a(2,3) d cs by fastforce
  next
    show "idling (cpus k' d) = idling (cpus k d)" for d using cs by auto
  qed
  ultimately show ?thesis using k' by (auto simp: kinv_def)
qed

text \<open>A new runnable child \<open>N\<close> of \<open>this\<close>, at a fresh address.\<close>

definition adds :: "kstate \<Rightarrow> nat \<Rightarrow> task \<Rightarrow> nat \<Rightarrow> task \<Rightarrow> kstate \<Rightarrow> bool" where
  "adds k this P addr N k' \<longleftrightarrow> tasks k this = Some P \<and> live (state P) \<and> tasks k addr = None \<and>
     pid N = next_pid k \<and> parent N = Some this \<and> children N = [] \<and> state N = TASK_RUNNABLE \<and> on_cpu N = TASK_NO_CPU \<and>
     wfe N = WFE_NONE \<and> ttype N \<noteq> GRINCH_UNDEF \<and>
     tasks k' = (tasks k)(this \<mapsto> P\<lparr>children := addr # children P\<rparr>, addr \<mapsto> N) \<and> task_list k' = addr # task_list k \<and>
     timer_list k' = timer_list k \<and> init_task k' = init_task k \<and> next_pid k' = next_pid k + 1 \<and>
     (\<forall>d. cur k' d = cur k d \<and> idling (cpus k' d) = idling (cpus k d) \<and> (sched_req (cpus k d) \<longrightarrow> sched_req (cpus k' d)))"

lemma addsD:
  assumes "adds k this P addr N k'"
  shows "tasks k this = Some P" "live (state P)" "tasks k addr = None" "pid N = next_pid k" "parent N = Some this"
    "children N = []" "state N = TASK_RUNNABLE" "on_cpu N = TASK_NO_CPU" "wfe N = WFE_NONE" "ttype N \<noteq> GRINCH_UNDEF"
    "tasks k' x = (if x = addr then Some N else if x = this then Some (P\<lparr>children := addr # children P\<rparr>) else tasks k x)"
    "task_list k' = addr # task_list k" "timer_list k' = timer_list k" "init_task k' = init_task k" "next_pid k' = next_pid k + 1"
    "cur k' d = cur k d" "idling (cpus k' d) = idling (cpus k d)" "sched_req (cpus k d) \<longrightarrow> sched_req (cpus k' d)" "this \<noteq> addr"
  using assms unfolding adds_def by auto

lemma adds_cpu_ok:
  assumes a: "adds k this P addr N k'" and ok: "cpu_ok k"
  shows "cpu_ok k'"
proof -
  note d = addsD [OF a]
  have "addr \<notin> set (task_list k)" using cpu_okD(2) [OF ok, of addr] d(3) by simp
  moreover have "x \<in> set (task_list k') \<longleftrightarrow> (\<exists>X. tasks k' x = Some X \<and> live (state X))" for x
    using cpu_okD(2) [OF ok, of x] d(1,2,7) by (auto simp: d(11,12))
  moreover have "cur k e = Some x \<longleftrightarrow> e \<noteq> TASK_NO_CPU \<and> (\<exists>X. tasks k' x = Some X \<and> on_cpu X = e)" for e x
    using cpu_okD(3) [OF ok, of e x] d(1,3,8) by (auto simp: d(11))
  moreover have "task_ok X" if "tasks k' x = Some X" for x X
    using that cpu_okD(4) [OF ok] d(1,7,8,10) by (auto simp: d(11) task_ok_def split: if_splits)
  ultimately show ?thesis using cpu_okD(1) [OF ok] unfolding cpu_ok_def d(16) by (simp add: d(12))
qed

lemma adds_timers_ok:
  assumes a: "adds k this P addr N k'" and ok: "timers_ok k"
  shows "timers_ok k'"
proof -
  note d = addsD [OF a]
  have na: "addr \<notin> set (timer_list k)" using timers_okD(3) [OF ok, of addr] d(3) by simp
  have e: "expiration k' x = expiration k x" if "x \<in> set (timer_list k)" for x
    using that na d(1) by (auto simp: expiration_def d(11))
  have "sorted_wrt (\<lambda>a b. expiration k' a \<le> expiration k' b) (timer_list k)"
    using timers_okD(2) [OF ok] by (rule sorted_wrt_mono_rel [rotated]) (simp add: e)
  moreover have "x \<in> set (timer_list k) \<longleftrightarrow> (\<exists>X. tasks k' x = Some X \<and> is_timer (wfe X))" for x
    using timers_okD(3) [OF ok, of x] d(1,3,9) by (auto simp: d(11))
  ultimately show ?thesis using timers_okD(1) [OF ok] unfolding timers_ok_def by (simp add: d(13))
qed

lemma adds_events_ok:
  assumes a: "adds k this P addr N k'" and ok: "events_ok k"
  shows "events_ok k'"
proof -
  note d = addsD [OF a]
  let ?P = "P\<lparr>children := addr # children P\<rparr>"
  have s: "state ?P = state P" "wfe ?P = wfe P" "ttype ?P = ttype P" by simp_all
  have "wfe_ok P" by (rule events_okD [OF ok d(1)])
  then have "wfe_ok ?P" unfolding wfe_ok_def s .
  moreover have "wfe_ok N" using d by (simp add: wfe_ok_def)
  ultimately show ?thesis using ok by (auto simp: events_ok_def d(11))
qed

lemma adds_fam_ok:
  assumes a: "adds k this P addr N k'" and ok: "fam_ok k"
  shows "fam_ok k'"
proof -
  note d = addsD [OF a]
  obtain I where I: "tasks k (init_task k) = Some I" "live (state I)" using fam_okD(1) [OF ok] by blast
  have orphan: "parent X \<noteq> Some addr" if "tasks k x = Some X" for x X using fam_okD(7) [OF ok that] d(3) by auto
  have nc: "addr \<notin> set (children X)" if "tasks k x = Some X" for x X using fam_okD(5) [OF ok that, of addr] d(3) by simp
  have par: "(\<exists>C. tasks k' x = Some C \<and> parent C = Some q) \<longleftrightarrow>
      (if x = addr then q = this else \<exists>C. tasks k x = Some C \<and> parent C = Some q)" for x q
    using d(1,5) by (auto simp: d(11))
  have lv: "\<exists>C. tasks k' x = Some C \<and> live (state C)" if "\<exists>C. tasks k x = Some C \<and> live (state C)" for x
    using that d(1-3) by (auto simp: d(11))
  obtain I' where I': "tasks k' (init_task k') = Some I'" "live (state I')" using lv I unfolding d(14) by blast
  show ?thesis
  proof (rule fam_okI [OF I'])
    fix x X assume "tasks k' x = Some X"
    then show "distinct (children X) \<and> state X \<noteq> TASK_INIT \<and> (parent X = None) = (x = init_task k')"
      using fam_okD(2,3,4) [OF ok] d(1,3,5-7) nc [OF d(1)] I by (auto simp: d(11,14) split: if_splits)
  next
    fix q Q x assume "tasks k' q = Some Q"
    then show "(x \<in> set (children Q)) = (\<exists>C. tasks k' x = Some C \<and> parent C = Some q)"
      unfolding par using fam_okD(5) [OF ok] d(1,5,6,19) orphan nc by (fastforce simp: d(11) split: if_splits)
  next
    fix x X q assume "tasks k' x = Some X" "parent X = Some q"
    then have "if x = addr then q = this else \<exists>C. tasks k x = Some C \<and> parent C = Some q" using par by blast
    then show "q \<noteq> x \<and> (\<exists>D. tasks k' q = Some D \<and> live (state D))"
      using fam_okD(6,7) [OF ok] d(1,2,19) lv by (auto split: if_splits)
  qed
qed

lemma adds_wait_ok:
  assumes a: "adds k this P addr N k'" and ok: "fam_ok k" "wait_ok k"
  shows "wait_ok k'"
  unfolding wait_ok_def
proof (intro allI impI, elim conjE)
  note d = addsD [OF a]
  fix q Q x X assume a: "tasks k' q = Some Q" "tasks k' x = Some X" "parent X = Some q" "awaits Q X"
  show "q = init_task k' \<or> state X \<noteq> TASK_EXIT_DEAD"
  proof (cases "x = addr")
    case True
    then show ?thesis using a(2) d(7) by (simp add: d(11))
  next
    case False
    then obtain X0 where X0: "tasks k x = Some X0" "parent X0 = parent X" "pid X0 = pid X" "state X0 = state X"
      using a(2) d(1) by (auto simp: d(11) split: if_splits)
    have "q \<noteq> addr" using fam_okD(7) [OF ok(1) X0(1)] X0(2) a(3) d(3) by auto
    then obtain Q0 where Q0: "tasks k q = Some Q0" "wfe Q0 = wfe Q" using a(1) d(1) by (auto simp: d(11) split: if_splits)
    have "awaits Q0 X0" using a(4) unfolding awaits_def Q0(2) X0(3) .
    then show ?thesis using wait_okD [OF ok(2) Q0(1) X0(1)] X0 a(3) by (simp add: d(14))
  qed
qed

lemma adds_pid_ok:
  assumes a: "adds k this P addr N k'" and ok: "pid_ok k"
  shows "pid_ok k'"
proof -
  note d = addsD [OF a]
  have b: "\<exists>X0. tasks k x = Some X0 \<and> pid X = pid X0" if "tasks k' x = Some X" "x \<noteq> addr" for x X
    using that d(1) by (auto simp: d(11) split: if_splits)
  have lt: "pid X < next_pid k" if "tasks k' x = Some X" "x \<noteq> addr" for x X
    using b [OF that] ok unfolding pid_ok_def by auto
  have "pid X < next_pid k'" if "tasks k' x = Some X" for x X
    using lt [OF that] that d(4) by (cases "x = addr") (auto simp: d(11,15))
  moreover have "0 < next_pid k'" using ok by (simp add: d(15) pid_ok_def)
  moreover have "x = y" if "tasks k' x = Some X" "tasks k' y = Some Y" "pid X = pid Y" for x y X Y
  proof (cases "x = addr \<or> y = addr")
    case True
    then show ?thesis using lt [OF that(1)] lt [OF that(2)] that d(4)
      by (cases "x = addr"; cases "y = addr") (auto simp: d(11))
  next
    case False
    then show ?thesis using b [OF that(1)] b [OF that(2)] that(3) ok unfolding pid_ok_def by metis
  qed
  ultimately show ?thesis unfolding pid_ok_def by blast
qed

lemma kinv_add:
  assumes a: "adds k this P addr N k'" and inv: "kinv k"
  shows "kinv k'"
proof -
  note d = addsD [OF a] and ok = tasks_okD [OF kinvD(1) [OF inv]]
  have "sched_ok k'"
    unfolding sched_ok_def d(16,17)
  proof (intro conjI allI impI, elim conjE)
    fix e x X assume h: "cur k e = Some x" "tasks k' x = Some X" "state X \<noteq> TASK_RUNNING"
    have "x \<noteq> addr" using cpu_okD(3) [OF ok(1), of e x] h(1) d(3) by auto
    then have "\<exists>X0. tasks k x = Some X0 \<and> state X0 \<noteq> TASK_RUNNING" using h d(1) by (auto simp: d(11) split: if_splits)
    then show "sched_req (cpus k' e)" using d(18) h(1) kinvD(3) [OF inv] unfolding sched_ok_def by blast
  qed (use kinvD(3) [OF inv] in \<open>auto simp: sched_ok_def\<close>)
  then show ?thesis
    using adds_cpu_ok [OF a ok(1)] adds_timers_ok [OF a ok(2)] adds_events_ok [OF a ok(3)] adds_fam_ok [OF a ok(4)]
      adds_wait_ok [OF a ok(4,5)] adds_pid_ok [OF a kinvD(2) [OF inv]] by (simp add: kinv_def tasks_ok_def)
qed

text \<open>A task that was never started leaves no trace but its identifier.\<close>

lemma exit_put_unborn:
  assumes N: "tasks k addr = Some N" "parent N = Some this" "ttype N \<noteq> GRINCH_UNDEF" "children N = []" "wfe N = WFE_NONE"
    and out: "addr \<notin> set (task_list k)" "addr \<notin> set (timer_list k)" "cur k c \<noteq> Some addr"
    and P: "tasks k this = Some P" "wfe P = WFE_NONE" "this \<noteq> addr"
  shows "and_then (task_exit c addr err cp k) (task_put addr) =
    Ok (forget addr (upd this (\<lambda>P. P\<lparr>children := remove1 addr (children P)\<rparr>) k))"
proof -
  have c: "task_cancel_timer addr k = k" using N out by (simp add: task_cancel_timer_def upd_def remove1_idem map_upd_triv)
  have "task_exit c addr err cp k = Ok (upd addr (\<lambda>T. T\<lparr>state := TASK_EXIT_DEAD, exit_code := err\<rparr>) k)"
    using N out P by (simp add: task_exit_def task_exit_begin_def task_exit_end_def with_task_def c upd_def task_notify_wait_def)
  then show ?thesis using N P
    by (simp add: task_put_def with_task_def list_del_sibling_def upd_def fun_upd_twist)
qed

lemma kinv_next_pid: "kinv k \<Longrightarrow> kinv (k\<lparr>next_pid := next_pid k + 1\<rparr>)"
proof -
  assume inv: "kinv k"
  have "tasks_ok (k\<lparr>next_pid := next_pid k + 1\<rparr>) = tasks_ok k" by (rule tasks_ok_cong) simp_all
  moreover have "pid_ok (k\<lparr>next_pid := next_pid k + 1\<rparr>)"
    by (rule pid_ok_shrinks [OF kinvD(2) [OF inv]]) (simp add: shrinks_def)
  ultimately show ?thesis using inv by (simp add: kinv_def sched_ok_def)
qed

lemma fresh_task:
  assumes "tasks_ok k" "tasks k addr = None"
  shows "addr \<notin> set (task_list k)" "addr \<notin> set (timer_list k)" "cur k c \<noteq> Some addr" "tasks k t = Some T \<Longrightarrow> addr \<notin> set (children T)"
  using assms cpu_okD(2) [OF tasks_okD(1) [OF assms(1)], of addr] cpu_okD(3) [OF tasks_okD(1) [OF assms(1)], of c addr]
    timers_okD(3) [OF tasks_okD(2) [OF assms(1)], of addr]
    fam_okD(5) [OF tasks_okD(4) [OF assms(1)], of t T addr] by auto

lemma sys_fork_kinv:
  assumes inv: "kinv k" and cu: "cur k c = Some this" and P: "tasks k this = Some P" "state P = TASK_RUNNING" "ttype P = GRINCH_PROCESS"
    and fresh: "addr = 0 \<or> tasks k addr = None" and pf: "pid_free k"
  shows "\<exists>k' r. sys_fork c addr dup k = Ok (k', r) \<and> kinv k' \<and>
    (if addr = 0 then k' = k \<and> r = - errno_num ENOMEM
     else if dup \<noteq> 0 then k' = k\<lparr>next_pid := next_pid k + 1\<rparr> \<and> r = dup
     else r = next_pid k \<and> (\<exists>N. adds k this P addr N k' \<and> retval N = 0 \<and> ttype N = GRINCH_PROCESS))"
proof (cases "addr = 0")
  case True
  then show ?thesis using inv cu P by (simp add: sys_fork_def with_task_def task_alloc_new_def)
next
  case False
  then have fr: "tasks k addr = None" using fresh by simp
  note r = running_task [OF kinvD(1) [OF inv] cu P(1,2)] and f = fresh_task [OF kinvD(1) [OF inv] fr]
  have ne: "this \<noteq> addr" using P fr by auto
  note np = next_pid_exact [OF kinvD(2) [OF inv] pf]
  define N where "N = (new_task (next_pid k))\<lparr>ttype := GRINCH_PROCESS, parent := Some this, retval := 0\<rparr>"
  define k1 where "k1 = k\<lparr>next_pid := next_pid k + 1, tasks := (tasks k)(addr \<mapsto> N)\<rparr>"
  have N: "pid N = next_pid k" "parent N = Some this" "children N = []" "on_cpu N = TASK_NO_CPU" "wfe N = WFE_NONE"
    "ttype N = GRINCH_PROCESS" "retval N = 0" by (simp_all add: N_def new_task_def)
  have e: "sys_fork c addr dup k =
      (if dup \<noteq> 0 then and_then (task_exit c addr dup None k1) (\<lambda>k. and_then (task_put addr k) (\<lambda>k. Ok (k, dup)))
       else Ok (sched_all (task_enqueue addr (upd this (\<lambda>T. T\<lparr>children := addr # children T\<rparr>)
              (upd addr (\<lambda>N. N\<lparr>state := TASK_RUNNABLE\<rparr>) k1))), pid N))"
    using cu P False by (simp add: sys_fork_def with_task_def task_alloc_new_def get_new_pid_def np Let_def upd_def k1_def N_def)
  show ?thesis
  proof (cases "dup = 0")
    case True
    let ?k = "sched_all (task_enqueue addr (upd this (\<lambda>T. T\<lparr>children := addr # children T\<rparr>)
              (upd addr (\<lambda>N. N\<lparr>state := TASK_RUNNABLE\<rparr>) k1)))"
    have "adds k this P addr (N\<lparr>state := TASK_RUNNABLE\<rparr>) ?k"
      using P N fr ne r by (auto simp: adds_def sched_all_def task_enqueue_def upd_def k1_def fun_upd_twist)
    then show ?thesis using e True False N kinv_add [OF _ inv] by (intro exI [of _ ?k] exI [of _ "next_pid k"]) auto
  next
    case d: False
    have "and_then (task_exit c addr dup None k1) (task_put addr) =
        Ok (forget addr (upd this (\<lambda>P. P\<lparr>children := remove1 addr (children P)\<rparr>) k1))"
      by (rule exit_put_unborn [of _ _ N this _ P]) (use f N P r ne in \<open>simp_all add: k1_def\<close>)
    moreover have "forget addr (upd this (\<lambda>P. P\<lparr>children := remove1 addr (children P)\<rparr>) k1) = k\<lparr>next_pid := next_pid k + 1\<rparr>"
      using P fr ne f(4) [OF P(1)] by (auto simp: upd_def k1_def remove1_idem fun_upd_twist fun_upd_idem)
    ultimately have "sys_fork c addr dup k = Ok (k\<lparr>next_pid := next_pid k + 1\<rparr>, dup)"
      using e d by (cases "task_exit c addr dup None k1") auto
    then show ?thesis using d False kinv_next_pid [OF inv] by auto
  qed
qed

lemma create_grinch_vm_kinv:
  assumes inv: "kinv k" and cu: "cur k c = Some this" and P: "tasks k this = Some P" "state P = TASK_RUNNING" "ttype P = GRINCH_PROCESS"
    and fresh: "addr = 0 \<or> tasks k addr = None" and pf: "pid_free k"
  shows "\<exists>k' r. create_grinch_vm c addr err k = Ok (k', r) \<and> kinv k'"
proof (cases "addr = 0")
  case True
  then show ?thesis using inv cu P by (simp add: create_grinch_vm_def task_alloc_new_def)
next
  case False
  then have fr: "tasks k addr = None" using fresh by simp
  note r = running_task [OF kinvD(1) [OF inv] cu P(1,2)] and f = fresh_task [OF kinvD(1) [OF inv] fr]
  have ne: "this \<noteq> addr" using P fr by auto
  note np = next_pid_exact [OF kinvD(2) [OF inv] pf]
  define N where "N = (new_task (next_pid k))\<lparr>parent := Some this, ttype := GRINCH_VMACHINE\<rparr>"
  define k1 where "k1 = k\<lparr>next_pid := next_pid k + 1, tasks := (tasks k)(this \<mapsto> P\<lparr>children := addr # children P\<rparr>, addr \<mapsto> N)\<rparr>"
  have N: "pid N = next_pid k" "parent N = Some this" "children N = []" "on_cpu N = TASK_NO_CPU" "wfe N = WFE_NONE"
    "ttype N = GRINCH_VMACHINE" by (simp_all add: N_def new_task_def)
  have e: "create_grinch_vm c addr err k =
      (if err \<noteq> 0 then and_then (task_exit c addr err None k1) (\<lambda>k. and_then (task_put addr k) (\<lambda>k. Ok (k, err)))
       else Ok (task_enqueue addr (upd addr (\<lambda>N. N\<lparr>state := TASK_RUNNABLE\<rparr>) k1), pid N))"
    using cu P False ne
    by (simp add: create_grinch_vm_def task_alloc_new_def get_new_pid_def np Let_def upd_def k1_def N_def task_enqueue_def fun_upd_twist)
  show ?thesis
  proof (cases "err = 0")
    case True
    let ?k = "task_enqueue addr (upd addr (\<lambda>N. N\<lparr>state := TASK_RUNNABLE\<rparr>) k1)"
    have "adds k this P addr (N\<lparr>state := TASK_RUNNABLE\<rparr>) ?k"
      using P N fr ne r by (auto simp: adds_def task_enqueue_def upd_def k1_def)
    then show ?thesis using e True kinv_add [OF _ inv] by auto
  next
    case d: False
    let ?P = "P\<lparr>children := addr # children P\<rparr>"
    have "and_then (task_exit c addr err None k1) (task_put addr) =
        Ok (forget addr (upd this (\<lambda>P. P\<lparr>children := remove1 addr (children P)\<rparr>) k1))"
      by (rule exit_put_unborn [of _ _ N this _ ?P]) (use f N P r ne in \<open>simp_all add: k1_def\<close>)
    moreover have "forget addr (upd this (\<lambda>P. P\<lparr>children := remove1 addr (children P)\<rparr>) k1) = k\<lparr>next_pid := next_pid k + 1\<rparr>"
      using P fr ne by (auto simp: upd_def k1_def fun_upd_twist fun_upd_idem)
    ultimately have "create_grinch_vm c addr err k = Ok (k\<lparr>next_pid := next_pid k + 1\<rparr>, err)"
      using e d by (cases "task_exit c addr err None k1") auto
    then show ?thesis using kinv_next_pid [OF inv] by auto
  qed
qed

text \<open>Reaping a dead child, and going to sleep for a living one.\<close>

lemma kinv_reap:
  assumes inv: "kinv k" and P: "tasks k p = Some P" "\<not> is_timer (wfe P)"
    and C: "tasks k ch = Some C" "parent C = Some p" "state C = TASK_EXIT_DEAD"
  shows "kinv (reap p ch C (k\<lparr>ustatus := us\<rparr>))"
proof -
  note ok = tasks_okD [OF kinvD(1) [OF inv]]
  let ?k = "reap p ch C (k\<lparr>ustatus := us\<rparr>)"
  have "wait_but p k" using ok(5) by (auto simp: wait_ok_def wait_but_def)
  then have "tasks_ok ?k" using ok P C by (intro reap_ok [of _ _ P]) simp_all
  moreover have sh: "shrinks k ?k" using P by (auto simp: shrinks_def reap_def upd_def reaped_def split: if_splits)
  moreover have "sched_ok ?k"
    by (rule sched_okI [OF kinvD(3) [OF inv]]) (use P in \<open>auto simp: reap_def upd_def reaped_def split: if_splits\<close>)
  ultimately show ?thesis using pid_ok_shrinks [OF kinvD(2) [OF inv]] by (simp add: kinv_def)
qed

lemma find_child_SomeD: "find_child Q cs k = Some ch \<Longrightarrow> ch \<in> set cs \<and> (\<exists>C. tasks k ch = Some C \<and> Q C)"
  by (auto simp: find_child_def dest!: find_SomeD split: option.splits)

lemma find_child_NoneD: "find_child Q cs k = None \<Longrightarrow> ch \<in> set cs \<Longrightarrow> tasks k ch = Some C \<Longrightarrow> \<not> Q C"
  by (auto simp: find_child_def find_None_iff)

definition waits :: "nat \<Rightarrow> nat \<Rightarrow> int \<Rightarrow> nat \<Rightarrow> kstate \<Rightarrow> kstate" where
  "waits c t w st k = upd_cpu c (\<lambda>p. p\<lparr>sched_req := True, current_task := None\<rparr>)
     (upd t (\<lambda>T. T\<lparr>wfe := WFE_CHILD w st, state := TASK_WFE, on_cpu := TASK_NO_CPU\<rparr>) k)"

lemma kinv_waits:
  assumes inv: "kinv k" and cu: "cur k c = Some t" and T: "tasks k t = Some T" "state T = TASK_RUNNING" "ttype T = GRINCH_PROCESS"
    and alive: "\<And>ch C. tasks k ch = Some C \<Longrightarrow> parent C = Some t \<Longrightarrow> w = -1 \<or> w = pid C \<Longrightarrow> state C \<noteq> TASK_EXIT_DEAD"
  shows "kinv (waits c t w st k)"
proof -
  note ok = tasks_okD [OF kinvD(1) [OF inv]]
  note r = running_task [OF kinvD(1) [OF inv] cu T(1,2)]
  let ?T = "T\<lparr>wfe := WFE_CHILD w st, state := TASK_WFE, on_cpu := TASK_NO_CPU\<rparr>"
  let ?k = "waits c t w st k"
  have tk: "tasks ?k = (tasks k)(t \<mapsto> ?T)" using T by (simp add: waits_def upd_def upd_cpu_def)
  have o: "task_list ?k = task_list k" "timer_list ?k = timer_list k" "init_task ?k = init_task k" "next_pid ?k = next_pid k"
    "cpus ?k d = (if d = c then (cpus k c)\<lparr>sched_req := True, current_task := None\<rparr> else cpus k d)" for d
    by (simp_all add: waits_def upd_def upd_cpu_def)
  have "cpu_ok ?k" unfolding waits_def by (rule cpu_ok_release [OF ok(1) cu T(1)]) simp_all
  moreover have "timers_ok ?k" by (rule timers_ok_untimed [OF ok(2) T(1) _ _ tk o(2)]) (simp_all add: r(5) T(3))
  moreover have "events_ok ?k"
  proof -
    have "wfe_ok ?T" using T(3) by (simp add: wfe_ok_def)
    then show ?thesis using ok(3) by (simp add: events_ok_def tk)
  qed
  moreover have "fam_ok ?k" by (rule fam_ok_cong [OF _ o(3) ok(4)]) (use T in \<open>auto simp: tk fam_view_def\<close>)
  moreover have "wait_ok ?k"
    unfolding wait_ok_def
  proof (intro allI impI, elim conjE)
    fix q Q x X assume a: "tasks ?k q = Some Q" "tasks ?k x = Some X" "parent X = Some q" "awaits Q X"
    show "q = init_task ?k \<or> state X \<noteq> TASK_EXIT_DEAD"
    proof (cases "x = t")
      case True
      then show ?thesis using a(2) by (auto simp: tk)
    next
      case x: False
      then have X: "tasks k x = Some X" using a(2) by (simp add: tk)
      show ?thesis
      proof (cases "q = t")
        case True
        then have "Q = ?T" using a(1) by (simp add: tk)
        then have "w = -1 \<or> w = pid X" using a(4) by (simp add: awaits_def)
        then show ?thesis using alive [OF X] a(3) True by simp
      next
        case False
        then show ?thesis using wait_okD [OF ok(5) _ X a(3,4)] a(1) by (simp add: tk o(3))
      qed
    qed
  qed
  moreover have "pid_ok ?k"
    by (rule pid_ok_shrinks [OF kinvD(2) [OF inv]]) (use T in \<open>auto simp: shrinks_def tk o split: if_splits\<close>)
  moreover have "sched_ok ?k"
  proof (rule sched_okI [OF kinvD(3) [OF inv]])
    fix d x X assume a: "cur ?k d = Some x" "tasks ?k x = Some X" "state X \<noteq> TASK_RUNNING"
    have d: "d \<noteq> c" "cur k d = Some x" using a(1) by (auto simp: o split: if_splits)
    have "x \<noteq> t" using d T r(3) cpu_okD(3) [OF ok(1), of d x] by auto
    then show "cur k d = Some x \<and> sched_req (cpus k d) = sched_req (cpus ?k d) \<and> (\<exists>X. tasks k x = Some X \<and> state X \<noteq> TASK_RUNNING)"
      using a d by (auto simp: tk o)
  qed (simp add: o)
  ultimately show ?thesis by (simp add: kinv_def tasks_ok_def)
qed

text \<open>A dead child the call would take.\<close>

definition reaps :: "kstate \<Rightarrow> int \<Rightarrow> task \<Rightarrow> bool" where
  "reaps k w T \<longleftrightarrow> (\<exists>ch \<in> set (children T).
     case tasks k ch of Some C \<Rightarrow> state C = TASK_EXIT_DEAD \<and> (w = -1 \<or> w = pid C) | None \<Rightarrow> False)"

lemma sys_wait_kinv:
  assumes inv: "kinv k" and cu: "cur k c = Some t" and T: "tasks k t = Some T" "state T = TASK_RUNNING" "ttype T = GRINCH_PROCESS"
  shows "if st \<noteq> 0 \<and> cp = None \<and> opt = 0 \<and> (w = -1 \<or> w > 0) \<and> reaps k w T then sys_wait c w st opt cp k = Panic
    else \<exists>k' r. sys_wait c w st opt cp k = Ok (k', r) \<and> kinv k'"
proof -
  note ok = tasks_okD [OF kinvD(1) [OF inv]]
  have wf: "wfe T = WFE_NONE" by (rule running_task(5) [OF kinvD(1) [OF inv] cu T])
  define child where "child = (if w = -1 then find_child (\<lambda>C. state C = TASK_EXIT_DEAD) (children T) k
    else find_child (\<lambda>C. pid C = w) (children T) k)"
  let ?k = "upd t (\<lambda>T. T\<lparr>wfe := WFE_CHILD w st\<rparr>) k"
  consider "opt \<noteq> 0 \<or> w = 0 \<or> w < -1 \<or> children T = [] \<or> w \<noteq> -1 \<and> child = None"
    | (dead) ch C where "opt = 0" "w = -1 \<or> w > 0" "children T \<noteq> []" "child = Some ch" "tasks k ch = Some C" "state C = TASK_EXIT_DEAD"
    | (alive) "opt = 0" "w = -1 \<or> w > 0" "children T \<noteq> []" "w = -1 \<and> child = None \<or>
        (\<exists>ch C. child = Some ch \<and> tasks k ch = Some C \<and> state C \<noteq> TASK_EXIT_DEAD)"
  proof -
    have fc: "\<exists>C. tasks k ch = Some C" if "child = Some ch" for ch
      using that unfolding child_def by (metis find_child_SomeD)
    have "w = 0 \<or> w < -1 \<or> w = -1 \<or> w > 0" by linarith
    then show thesis using that fc by (cases child) blast+
  qed
  then show ?thesis
  proof cases
    case 1
    have "\<not> reaps k w T" if "w \<noteq> -1" "child = None"
      using that find_child_NoneD [of "\<lambda>C. pid C = w" "children T" k] by (auto simp: reaps_def child_def split: option.splits)
    moreover have "\<not> reaps k w T" if "children T = []" using that by (simp add: reaps_def)
    moreover have "\<exists>k' r. sys_wait c w st opt cp k = Ok (k', r) \<and> kinv k'"
      using 1 inv cu T by (auto simp: sys_wait_def with_task_def child_def Let_def)
    ultimately show ?thesis using 1 by auto
  next
    case dead
    have ch: "ch \<in> set (children T)" and aw: "w = -1 \<or> w = pid C"
      using dead(2,4,5) by (auto simp: child_def dest!: find_child_SomeD split: if_splits)
    have par: "parent C = Some t" using fam_okD(5) [OF ok(4) T(1), of ch] ch dead(5) by simp
    have ne: "t \<noteq> ch" by (rule fam_okD(6) [OF ok(4) dead(5) par])
    have u: "tasks ?k t = Some (T\<lparr>wfe := WFE_CHILD w st\<rparr>)" "tasks ?k ch = Some C" using T dead(5) ne by (simp_all add: upd_def)
    have "awaits (T\<lparr>wfe := WFE_CHILD w st\<rparr>) C" using aw by (simp add: awaits_def)
    moreover have "wants_status (T\<lparr>wfe := WFE_CHILD w st\<rparr>) = (st \<noteq> 0)" by (simp add: wants_status_def)
    moreover obtain us where "us = reported t (T\<lparr>wfe := WFE_CHILD w st\<rparr>) (exit_code C) cp ?k" by simp
    ultimately have n: "task_notify_wait t ch cp ?k =
        (if st \<noteq> 0 \<and> cp = None then Panic else Ok (reap t ch C (?k\<lparr>ustatus := us\<rparr>), 0))"
      using task_notify_wait_eq [OF u par ne dead(6)] by simp
    have "reap t ch C (?k\<lparr>ustatus := us\<rparr>) = reap t ch C (k\<lparr>ustatus := us\<rparr>)" using T by (simp add: reap_def upd_def reaped_def)
    then have "sys_wait c w st opt cp k = (if st \<noteq> 0 \<and> cp = None then Panic else Ok (reap t ch C (k\<lparr>ustatus := us\<rparr>), 0))"
      using dead n cu T wf u by (auto simp: sys_wait_def with_task_def child_def Let_def)
    moreover have "kinv (reap t ch C (k\<lparr>ustatus := us\<rparr>))" by (rule kinv_reap [OF inv T(1) _ dead(5) par dead(6)]) (simp add: wf)
    moreover have "reaps k w T" using ch dead(5,6) aw by (auto simp: reaps_def intro!: bexI [of _ ch])
    ultimately show ?thesis using dead(1,2) by auto
  next
    case alive
    have nd: "state C \<noteq> TASK_EXIT_DEAD" if C: "tasks k ch = Some C" "parent C = Some t" "w = -1 \<or> w = pid C" for ch C
    proof (cases "w = -1 \<and> child = None")
      case True
      have "ch \<in> set (children T)" using fam_okD(5) [OF ok(4) T(1), of ch] C by simp
      then show ?thesis using True find_child_NoneD [of "\<lambda>C. state C = TASK_EXIT_DEAD" "children T" k ch C] C(1)
        by (auto simp: child_def)
    next
      case False
      then obtain ch' C' where C': "child = Some ch'" "tasks k ch' = Some C'" "state C' \<noteq> TASK_EXIT_DEAD" using alive(4) by blast
      then have "w \<noteq> -1" "pid C' = w" by (auto simp: child_def dest!: find_child_SomeD split: if_splits)
      then have "pid C = pid C'" using C(3) by auto
      then have "ch = ch'" using kinvD(2) [OF inv] C(1) C'(2) unfolding pid_ok_def by blast
      then show ?thesis using C(1) C' by simp
    qed
    then have "kinv (waits c t w st k)" by (rule kinv_waits [OF inv cu T])
    moreover have "\<not> reaps k w T"
      using nd fam_okD(5) [OF ok(4) T(1)] by (auto simp: reaps_def split: option.splits)
    moreover have "sys_wait c w st opt cp k = Ok (waits c t w st k, 0)"
    proof -
      have d: "(case child of None \<Rightarrow> False | Some ch \<Rightarrow> (case tasks ?k ch of Some C \<Rightarrow> state C = TASK_EXIT_DEAD | None \<Rightarrow> False)) = False"
        using alive(4) T by (auto simp: upd_def split: if_splits)
      have n: "\<not> (w \<noteq> -1 \<and> child = None)" using alive(4) by auto
      have "sys_wait c w st opt cp k = and_then (task_set_wfe t ?k) (\<lambda>k.
          Ok (task_release_cpu t (upd_cpu c (\<lambda>p. p\<lparr>sched_req := True, current_task := None\<rparr>) k), 0))"
      proof (cases "w = -1")
        case True
        show ?thesis using alive(1-3) cu T wf d [unfolded child_def] n [unfolded child_def] unfolding True
          by (simp add: sys_wait_def with_task_def Let_def)
      next
        case False
        then show ?thesis using alive(1-3) cu T wf d [unfolded child_def] n [unfolded child_def]
          by (auto simp: sys_wait_def with_task_def Let_def)
      qed
      then show ?thesis
        using T by (simp add: task_set_wfe_def with_task_def upd_def upd_cpu_def waits_def task_release_cpu_def)
    qed
    ultimately show ?thesis by auto
  qed
qed

section \<open>Runs\<close>

text \<open>
  The operations: the return to user mode, the interrupts, the wake-up of a reader, and what
  a running process or virtual machine can ask for. The arguments are what the environment
  chooses: clock values, addresses from the heap, results of user copies.
\<close>

datatype kop =
    Op_return "nat \<Rightarrow> u64"
  | Op_timer u64
  | Op_ipi
  | Op_ready nat int
  | Op_yield
  | Op_wait int nat int "nat ucopy"
  | Op_fork nat int
  | Op_exit int "nat ucopy"
  | Op_sleep "timespec option ucopy" "bool ucopy" u64
  | Op_read
  | Op_create_vm nat int
  | Op_vm_timer u64 timespec
  | Op_vm_wfi bool

definition only_state :: "(kstate \<times> 'a) result \<Rightarrow> kstate result" where
  "only_state r = and_then r (\<lambda>(k, _). Ok k)"

fun kexec :: "nat \<Rightarrow> kop \<Rightarrow> kstate \<Rightarrow> kstate result" where
  "kexec c (Op_return clk) k = only_state (prepare_user_return c clk k)"
| "kexec c (Op_timer clk) k = Ok (upd_cpu c (handle_timer (tconf k) clk) k)"
| "kexec c Op_ipi k = Ok (upd_cpu c (\<lambda>p. p\<lparr>handle_events := True\<rparr>) k)"
| "kexec c (Op_ready t ret) k = wake_reader c t ret k"
| "kexec c Op_yield k = only_state (sys_sched_yield c k)"
| "kexec c (Op_wait w st opt cp) k = only_state (sys_wait c w st opt cp k)"
| "kexec c (Op_fork addr dup) k = only_state (sys_fork c addr dup k)"
| "kexec c (Op_exit code cp) k = only_state (sys_exit c code cp k)"
| "kexec c (Op_sleep req rf clk) k = only_state (sys_nanosleep c req rf clk k)"
| "kexec c Op_read k = block_reader c k"
| "kexec c (Op_create_vm addr err) k = only_state (create_grinch_vm c addr err k)"
| "kexec c (Op_vm_timer a0 ts) k = sbi_set_timer c a0 ts k"
| "kexec c (Op_vm_wfi hvip) k = vm_wfi c hvip k"

definition runs :: "nat \<Rightarrow> (nat \<Rightarrow> task \<Rightarrow> bool) \<Rightarrow> kstate \<Rightarrow> bool" where
  "runs c Q k = (case cur k c of None \<Rightarrow> False | Some t \<Rightarrow>
     (case tasks k t of None \<Rightarrow> False | Some T \<Rightarrow> state T = TASK_RUNNING \<and> Q t T))"

text \<open>
  When an operation can happen: the caller runs and is of the right kind, the heap hands out
  an address that is not in use, and a wake-up goes to a task that waits for input.
\<close>

fun enabled :: "nat \<Rightarrow> kop \<Rightarrow> kstate \<Rightarrow> bool" where
  "enabled c (Op_return clk) k = True"
| "enabled c (Op_timer clk) k = True"
| "enabled c Op_ipi k = True"
| "enabled c (Op_ready t ret) k = (case tasks k t of None \<Rightarrow> False | Some T \<Rightarrow> wfe T = WFE_READ)"
| "enabled c (Op_fork addr dup) k = (runs c (\<lambda>t T. ttype T = GRINCH_PROCESS) k \<and> (addr = 0 \<or> tasks k addr = None))"
| "enabled c (Op_create_vm addr err) k = (runs c (\<lambda>t T. ttype T = GRINCH_PROCESS) k \<and> (addr = 0 \<or> tasks k addr = None))"
| "enabled c (Op_exit code cp) k = runs c (\<lambda>t T. True) k"
| "enabled c (Op_vm_timer a0 ts) k = runs c (\<lambda>t T. ttype T = GRINCH_VMACHINE) k"
| "enabled c (Op_vm_wfi hvip) k = runs c (\<lambda>t T. ttype T = GRINCH_VMACHINE) k"
| "enabled c op k = runs c (\<lambda>t T. ttype T = GRINCH_PROCESS) k"

text \<open>
  The operations that stop the kernel: PID 1 exits; a virtual machine waits for interrupts with
  no timer armed and none pending; a copy to or from user memory runs into the \<^verbatim>\<open>BUG()\<close> of the
  user access code, where an exit, \<^verbatim>\<open>wait\<close> or \<^verbatim>\<open>nanosleep\<close> makes one.
\<close>

fun fatal :: "nat \<Rightarrow> kop \<Rightarrow> kstate \<Rightarrow> bool" where
  "fatal c (Op_exit code cp) k = runs c (\<lambda>t T. t = init_task k \<or> status_due k T \<and> cp = None) k"
| "fatal c (Op_wait w st opt cp) k =
     (st \<noteq> 0 \<and> cp = None \<and> opt = 0 \<and> (w = -1 \<or> w > 0) \<and> runs c (\<lambda>t T. reaps k w T) k)"
| "fatal c (Op_sleep req rf clk) k = (req = None \<or> req \<noteq> Some None \<and> rf = None)"
| "fatal c (Op_vm_wfi hvip) k = runs c (\<lambda>t T. \<not> hvip \<and> wfe T = WFE_NONE) k"
| "fatal c op k = False"

text \<open>The operations that take a new PID find the counter below its end.\<close>

fun pids_left :: "kop \<Rightarrow> kstate \<Rightarrow> bool" where
  "pids_left (Op_fork addr dup) k = pid_free k"
| "pids_left (Op_create_vm addr err) k = pid_free k"
| "pids_left op k = True"

lemma runsD:
  assumes "runs c Q k"
  obtains t T where "cur k c = Some t" "tasks k t = Some T" "state T = TASK_RUNNING" "Q t T"
  using assms by (auto simp: runs_def split: option.splits)

lemma only_state_Ok: "\<exists>k' r. x = Ok (k', r) \<and> P k' \<Longrightarrow> \<exists>k'. only_state x = Ok k' \<and> P k'"
  by (auto simp: only_state_def)

lemma handle_timer_sel [simp]:
  "current_task (handle_timer tc clk p) = current_task p" "idling (handle_timer tc clk p) = idling p" "sched_req (handle_timer tc clk p)"
  by (simp_all add: handle_timer_def Let_def)

lemma runs_at: "cur k c = Some t \<Longrightarrow> tasks k t = Some T \<Longrightarrow> state T = TASK_RUNNING \<Longrightarrow> runs c Q k = Q t T"
  by (simp add: runs_def)

lemma only_state_if:
  assumes "if b then x = Panic else \<exists>k' r. x = Ok (k', r) \<and> P k'"
  shows "if b then only_state x = Panic else \<exists>k'. only_state x = Ok k' \<and> P k'"
  using assms by (auto simp: only_state_def)

lemma sys_exit_kinv:
  assumes inv: "kinv k" and t: "cur k c = Some t" "tasks k t = Some T" "state T = TASK_RUNNING"
  shows "if t = init_task k \<or> status_due k T \<and> cp = None then sys_exit c code cp k = Panic
    else \<exists>k' r. sys_exit c code cp k = Ok (k', r) \<and> kinv k'"
proof -
  have "parent T = None" if "t = init_task k" using fam_okD(4) [OF tasks_okD(4) [OF kinvD(1) [OF inv]] t(2)] that by simp
  then have "task_exit c t code cp k = Panic" if "t = init_task k"
    using that t by (simp add: task_exit_def task_exit_begin_def with_task_def)
  moreover have "task_exit c t code cp k = Panic" if "t \<noteq> init_task k" "status_due k T" "cp = None"
    using task_exit_fatal [OF kinvD(1) [OF inv] t that(1,2)] that(3) by simp
  moreover have "\<exists>k'. task_exit c t code cp k = Ok k' \<and> kinv k'" if "t \<noteq> init_task k" "\<not> (status_due k T \<and> cp = None)"
    by (rule task_exit_kinv [OF inv t that])
  ultimately show ?thesis using t(1) by (fastforce simp: sys_exit_def)
qed

lemma vm_wfi_all:
  assumes inv: "kinv k" and t: "cur k c = Some t" "tasks k t = Some T" "state T = TASK_RUNNING" "ttype T = GRINCH_VMACHINE"
  shows "if \<not> hvip \<and> wfe T = WFE_NONE then vm_wfi c hvip k = Panic else \<exists>k'. vm_wfi c hvip k = Ok k' \<and> kinv k'"
proof (cases "hvip \<or> is_timer (wfe T)")
  case True
  then show ?thesis using vm_wfi_kinv [OF inv t True] by auto
next
  case False
  then have "wfe T = WFE_NONE" using running_task(4) [OF kinvD(1) [OF inv] t(1-3)] by blast
  then show ?thesis using t False by (simp add: vm_wfi_def task_set_wfe_def with_task_def)
qed

lemma kexec_kinv:
  assumes inv: "kinv k" and c: "c \<noteq> TASK_NO_CPU" and en: "enabled c op k" and pl: "pids_left op k"
  shows "if fatal c op k then kexec c op k = Panic else \<exists>k'. kexec c op k = Ok k' \<and> kinv k'"
proof (cases op)
  case (Op_return clk)
  have "\<exists>k' r. prepare_user_return c clk k = Ok (k', r) \<and> kinv k'" using prepare_user_return_kinv [OF inv c] by blast
  then show ?thesis unfolding Op_return kexec.simps fatal.simps if_False by (rule only_state_Ok)
next
  case (Op_timer clk)
  have "kinv (upd_cpu c (handle_timer (tconf k) clk) k)" by (rule kinv_upd_cpu [OF inv]) simp_all
  then show ?thesis by (simp add: Op_timer)
next
  case Op_ipi
  have "kinv (upd_cpu c (\<lambda>p. p\<lparr>handle_events := True\<rparr>) k)" by (rule kinv_upd_cpu [OF inv]) simp_all
  then show ?thesis by (simp add: Op_ipi)
next
  case (Op_ready t ret)
  then obtain T where "tasks k t = Some T" "wfe T = WFE_READ" using en by (auto split: option.splits)
  then show ?thesis unfolding Op_ready kexec.simps fatal.simps if_False by (rule wake_reader_kinv [OF inv])
next
  case Op_yield
  have "kinv (upd_cpu c (\<lambda>p. p\<lparr>sched_req := True\<rparr>) k)" by (rule kinv_upd_cpu [OF inv]) simp_all
  then show ?thesis by (simp add: Op_yield sys_sched_yield_def only_state_def)
next
  case (Op_wait w st opt cp)
  then obtain t T where t: "cur k c = Some t" "tasks k t = Some T" "state T = TASK_RUNNING" "ttype T = GRINCH_PROCESS"
    using en by (auto elim: runsD)
  show ?thesis unfolding Op_wait kexec.simps fatal.simps runs_at [OF t(1-3)]
    by (rule only_state_if [OF sys_wait_kinv [OF inv t]])
next
  case (Op_fork addr dup)
  then obtain t T where t: "cur k c = Some t" "tasks k t = Some T" "state T = TASK_RUNNING" "ttype T = GRINCH_PROCESS"
    and f: "addr = 0 \<or> tasks k addr = None" using en by (auto elim: runsD)
  have "\<exists>k' r. sys_fork c addr dup k = Ok (k', r) \<and> kinv k'" using sys_fork_kinv [OF inv t f, of dup] pl Op_fork by auto
  then show ?thesis unfolding Op_fork kexec.simps fatal.simps if_False by (rule only_state_Ok)
next
  case (Op_exit code cp)
  then obtain t T where t: "cur k c = Some t" "tasks k t = Some T" "state T = TASK_RUNNING" using en by (auto elim: runsD)
  show ?thesis unfolding Op_exit kexec.simps fatal.simps runs_at [OF t]
    by (rule only_state_if [OF sys_exit_kinv [OF inv t]])
next
  case (Op_sleep req rf clk)
  then obtain t T where t: "cur k c = Some t" "tasks k t = Some T" "state T = TASK_RUNNING" "ttype T = GRINCH_PROCESS"
    using en by (auto elim: runsD)
  show ?thesis unfolding Op_sleep kexec.simps fatal.simps by (rule only_state_if [OF sys_nanosleep_kinv [OF inv t]])
next
  case Op_read
  then obtain t T where "cur k c = Some t" "tasks k t = Some T" "state T = TASK_RUNNING" "ttype T = GRINCH_PROCESS"
    using en by (auto elim: runsD)
  then show ?thesis unfolding Op_read kexec.simps fatal.simps if_False by (intro block_reader_kinv [OF inv])
next
  case (Op_create_vm addr err)
  then obtain t T where "cur k c = Some t" "tasks k t = Some T" "state T = TASK_RUNNING" "ttype T = GRINCH_PROCESS"
    and "addr = 0 \<or> tasks k addr = None" and "pid_free k" using en pl by (auto elim: runsD)
  then show ?thesis unfolding Op_create_vm kexec.simps fatal.simps if_False by (intro only_state_Ok create_grinch_vm_kinv [OF inv])
next
  case (Op_vm_timer a0 ts)
  then obtain t T where "cur k c = Some t" "tasks k t = Some T" "state T = TASK_RUNNING" "ttype T = GRINCH_VMACHINE"
    using en by (auto elim: runsD)
  then show ?thesis unfolding Op_vm_timer kexec.simps fatal.simps if_False by (intro sbi_set_timer_kinv [OF inv])
next
  case (Op_vm_wfi hvip)
  then obtain t T where t: "cur k c = Some t" "tasks k t = Some T" "state T = TASK_RUNNING" "ttype T = GRINCH_VMACHINE"
    using en by (auto elim: runsD)
  show ?thesis unfolding Op_vm_wfi kexec.simps fatal.simps runs_at [OF t(1-3)] by (rule vm_wfi_all [OF inv t])
qed

end
