(* ===== verification/Task_Safety.thy ===== *)
theory Task_Safety
  imports Task_Run
begin

text \<open>
  What holds in every run of the task system from the state \<^verbatim>\<open>init()\<close> of \<^verbatim>\<open>kernel/main.c\<close>
  leaves behind: one runnable process, PID 1, and CPUs without a task. A run is a sequence of
  whole operations that hands out fewer than \<open>2 ^ 31\<close> PIDs. What can go wrong inside an
  exit, which does not hold its locks throughout, is shown for its two parts.
\<close>

section \<open>Boot\<close>

definition boot :: "nat \<Rightarrow> timer_conf \<Rightarrow> nat list \<Rightarrow> (nat \<Rightarrow> percpu) \<Rightarrow> kstate" where
  "boot addr tc on ps =
     task_enqueue addr
       \<lparr> tasks = [addr \<mapsto> (new_task 1)\<lparr>ttype := GRINCH_PROCESS, state := TASK_RUNNABLE\<rparr>], task_list = [], timer_list = [],
         cpus = ps, online = on, next_pid = 2, init_task = addr, tconf = tc, ustatus = [], ipis = [] \<rparr>"

definition cpus_fresh :: "(nat \<Rightarrow> percpu) \<Rightarrow> bool" where
  "cpus_fresh ps \<longleftrightarrow> (\<forall>c. current_task (ps c) = None \<and> \<not> idling (ps c))"

lemma boot_kinv:
  assumes "cpus_fresh ps"
  shows "kinv (boot addr tc on ps)"
proof -
  let ?k = "boot addr tc on ps" and ?I = "(new_task 1)\<lparr>ttype := GRINCH_PROCESS, state := TASK_RUNNABLE\<rparr>"
  have tk: "tasks ?k = [addr \<mapsto> ?I]" and l: "task_list ?k = [addr]" "timer_list ?k = []" "init_task ?k = addr" "next_pid ?k = 2" "cpus ?k = ps"
    by (simp_all add: boot_def task_enqueue_def)
  have ex: "(\<exists>T. tasks ?k t = Some T \<and> P T) \<longleftrightarrow> t = addr \<and> P ?I" for t P by (auto simp: tk)
  have "cpu_ok ?k" unfolding cpu_ok_def ex using assms by (auto simp: l tk cpus_fresh_def task_ok_def new_task_def)
  moreover have "timers_ok ?k" unfolding timers_ok_def ex by (simp add: l new_task_def)
  moreover have "events_ok ?k" by (auto simp: events_ok_def tk wfe_ok_def new_task_def)
  moreover have "fam_ok ?k" unfolding fam_ok_def ex by (auto simp: l tk new_task_def)
  moreover have "wait_ok ?k" by (auto simp: wait_ok_def tk new_task_def)
  moreover have "pid_ok ?k" by (auto simp: pid_ok_def tk l new_task_def)
  moreover have "sched_ok ?k" using assms by (auto simp: sched_ok_def cpus_fresh_def l)
  ultimately show ?thesis by (simp add: kinv_def tasks_ok_def)
qed

section \<open>Reachable states\<close>

inductive kreach :: "kstate \<Rightarrow> kstate \<Rightarrow> bool" for k0 where
  kreach_start: "kreach k0 k0"
| kreach_step: "kreach k0 k \<Longrightarrow> c \<noteq> TASK_NO_CPU \<Longrightarrow> enabled c op k \<Longrightarrow> pids_left op k \<Longrightarrow> kexec c op k = Ok k' \<Longrightarrow>
    kreach k0 k'"

lemma kreach_kinv: "kreach k0 k \<Longrightarrow> kinv k0 \<Longrightarrow> kinv k"
proof (induction rule: kreach.induct)
  case (kreach_step k c op k')
  then show ?case using kexec_kinv [of k c op] by (auto split: if_splits)
qed

text \<open>Runs as lists of operations, each on its CPU; an operation that cannot happen ends the run.\<close>

fun krun :: "(nat \<times> kop) list \<Rightarrow> kstate \<Rightarrow> kstate result" where
  "krun [] k = Ok k"
| "krun ((c, op) # ops) k = (if c \<noteq> TASK_NO_CPU \<and> enabled c op k \<and> pids_left op k then and_then (kexec c op k) (krun ops) else Err EPERM)"

lemma krun_kreach: "krun ops k = Ok k' \<Longrightarrow> kreach k0 k \<Longrightarrow> kreach k0 k'"
proof (induction ops arbitrary: k)
  case (Cons a ops)
  obtain c op where a: "a = (c, op)" by (rule prod.exhaust)
  then have g: "c \<noteq> TASK_NO_CPU" "enabled c op k" "pids_left op k" using Cons.prems(1) by (auto split: if_splits)
  then obtain k1 where k1: "kexec c op k = Ok k1" "krun ops k1 = Ok k'"
    using Cons.prems(1) a by (cases "kexec c op k") auto
  have "kreach k0 k1" by (rule kreach_step [OF Cons.prems(2) g k1(1)])
  then show ?case by (rule Cons.IH [OF k1(2)])
qed simp

definition demo_boot :: kstate where
  "demo_boot = boot 8 \<lparr>timer_hz = 100, wall_base = 0\<rparr> [0, 1, 2, 3] (\<lambda>_. demo_cpu None)"

lemma demo_fresh: "cpus_fresh (\<lambda>_. demo_cpu None)"
  by (simp add: cpus_fresh_def demo_cpu_def)

text \<open>A machine with two running tasks: PID 1 on CPU 0, its child on CPU 1.\<close>

definition demo_ops :: "(nat \<times> kop) list" where
  "demo_ops = [(0, Op_timer 0), (0, Op_return (\<lambda>_. 0)), (0, Op_fork 16 0), (1, Op_timer 0), (1, Op_return (\<lambda>_. 0))]"

definition res_holds :: "('a \<Rightarrow> bool) \<Rightarrow> 'a result \<Rightarrow> bool" where
  "res_holds P r = (case r of Ok a \<Rightarrow> P a | _ \<Rightarrow> False)"

lemma res_holdsD: "res_holds P r \<Longrightarrow> \<exists>a. r = Ok a \<and> P a"
  by (cases r) (simp_all add: res_holds_def)

lemmas boot_eval = boot_def res_holds_def demo_cpu_def task_enqueue_def new_task_def TASK_NO_CPU_def upd_cpu_def upd_def with_task_def
  handle_timer_def timer_update_def Let_def HZ_TO_NS_def timer_get_wall_ns_def only_state_def prepare_user_return_def
  task_handle_events_def schedule_def pick_task_def pick_begin_def pickable_def task_claimable_def task_activate_def
  task_release_cpu_def runs_def sys_fork_def task_alloc_new_def get_new_pid_def s32_of_def sched_all_def pid_free_def

lemma demo_ops_eval: "res_holds (\<lambda>k. cur k 0 = Some 8 \<and> cur k 1 = Some 16) (krun demo_ops demo_boot)"
  by (simp add: demo_ops_def demo_boot_def boot_eval)

text \<open>The child that no one waits for: dead, with its code, still linked to its parent.\<close>

definition stays_dead :: "nat \<Rightarrow> int \<Rightarrow> nat \<Rightarrow> kstate \<Rightarrow> kstate \<Rightarrow> bool" where
  "stays_dead t code p k k' \<longleftrightarrow> ustatus k' = ustatus k \<and>
     (\<exists>T'. tasks k' t = Some T' \<and> state T' = TASK_EXIT_DEAD \<and> exit_code T' = code \<and> parent T' = Some p)"

lemma exit_status_mod: "exit_status code = code mod 256 * 256"
proof -
  have "code AND 0xff = code mod 256" using take_bit_eq_mask [of 8 code] by (simp add: take_bit_eq_mod mask_eq_exp_minus_1)
  then show ?thesis by (simp add: exit_status_def push_bit_eq_mult)
qed

text \<open>
  PID 1 waits for any child; its child runs on CPU 1, the grandchild on CPU 0 and has a dead
  child of its own.
\<close>

definition demo_orphan :: kstate where
  "demo_orphan = demo_state\<lparr>tasks :=
     [8 \<mapsto> (demo_task 1 TASK_WFE TASK_NO_CPU None [16])\<lparr>wfe := WFE_CHILD (-1) 0\<rparr>,
      16 \<mapsto> demo_task 2 TASK_RUNNING 1 (Some 8) [24],
      24 \<mapsto> demo_task 3 TASK_RUNNING 0 (Some 16) [32],
      32 \<mapsto> demo_task 4 TASK_EXIT_DEAD TASK_NO_CPU (Some 24) []],
     task_list := [24, 16, 8], next_pid := 5, cpus := (\<lambda>c. demo_cpu (if c = 0 then Some 24 else if c = 1 then Some 16 else None))\<rparr>"

lemma demo_orphan_ex:
  "(\<exists>T. tasks demo_orphan t = Some T \<and> Q T) \<longleftrightarrow>
     t = 8 \<and> Q ((demo_task 1 TASK_WFE TASK_NO_CPU None [16])\<lparr>wfe := WFE_CHILD (-1) 0\<rparr>) \<or>
     t = 16 \<and> Q (demo_task 2 TASK_RUNNING 1 (Some 8) [24]) \<or>
     t = 24 \<and> Q (demo_task 3 TASK_RUNNING 0 (Some 16) [32]) \<or>
     t = 32 \<and> Q (demo_task 4 TASK_EXIT_DEAD TASK_NO_CPU (Some 24) [])"
  by (auto simp: demo_orphan_def)

lemma demo_orphan_all:
  "tasks demo_orphan t = Some T \<Longrightarrow>
     t = 8 \<and> T = (demo_task 1 TASK_WFE TASK_NO_CPU None [16])\<lparr>wfe := WFE_CHILD (-1) 0\<rparr> \<or>
     t = 16 \<and> T = demo_task 2 TASK_RUNNING 1 (Some 8) [24] \<or>
     t = 24 \<and> T = demo_task 3 TASK_RUNNING 0 (Some 16) [32] \<or>
     t = 32 \<and> T = demo_task 4 TASK_EXIT_DEAD TASK_NO_CPU (Some 24) []"
  using demo_orphan_ex [of t "\<lambda>S. S = T"] by auto

lemma demo_orphan_kinv: "kinv demo_orphan"
proof -
  let ?k = demo_orphan
  have l: "task_list ?k = [24, 16, 8]" "timer_list ?k = []" "init_task ?k = 8" "next_pid ?k = 5"
    by (simp_all add: demo_orphan_def demo_state_def)
  have cu: "cur ?k c = (if c = 0 then Some 24 else if c = 1 then Some 16 else None)" and id: "\<not> idling (cpus ?k c)" for c
    by (simp_all add: demo_orphan_def demo_cpu_def)
  have a: "t \<in> set (task_list ?k) \<longleftrightarrow> (\<exists>T. tasks ?k t = Some T \<and> live (state T))" for t unfolding demo_orphan_ex l by auto
  have b: "cur ?k c = Some t \<longleftrightarrow> c \<noteq> TASK_NO_CPU \<and> (\<exists>T. tasks ?k t = Some T \<and> on_cpu T = c)" for c t
    unfolding demo_orphan_ex cu by (auto simp: TASK_NO_CPU_def)
  have ok: "task_ok T" "wfe_ok T" if "tasks ?k t = Some T" for t T
    using demo_orphan_all [OF that] by (auto simp: TASK_NO_CPU_def task_ok_def wfe_ok_def)
  have "cpu_ok ?k" unfolding cpu_ok_def using a b ok(1) by (simp add: l)
  moreover have "events_ok ?k" unfolding events_ok_def using ok(2) by blast
  moreover have "timers_ok ?k" unfolding timers_ok_def demo_orphan_ex by (simp add: l)
  moreover have "fam_ok ?k"
  proof (rule fam_okI [of _ "(demo_task 1 TASK_WFE TASK_NO_CPU None [16])\<lparr>wfe := WFE_CHILD (-1) 0\<rparr>"])
    show "tasks ?k (init_task ?k) = Some ((demo_task 1 TASK_WFE TASK_NO_CPU None [16])\<lparr>wfe := WFE_CHILD (-1) 0\<rparr>)"
      unfolding l by (simp add: demo_orphan_def)
  next
    fix t T assume "tasks ?k t = Some T"
    then show "distinct (children T) \<and> state T \<noteq> TASK_INIT \<and> (parent T = None) = (t = init_task ?k)"
      by (auto dest!: demo_orphan_all simp: l)
  next
    fix p P ch assume "tasks ?k p = Some P"
    then show "(ch \<in> set (children P)) = (\<exists>C. tasks ?k ch = Some C \<and> parent C = Some p)"
      unfolding demo_orphan_ex by (auto dest!: demo_orphan_all)
  next
    fix t T p assume "tasks ?k t = Some T" "parent T = Some p"
    then show "p \<noteq> t \<and> (\<exists>P. tasks ?k p = Some P \<and> live (state P))"
      unfolding demo_orphan_ex by (auto dest!: demo_orphan_all)
  qed simp
  moreover have "wait_ok ?k" unfolding wait_ok_def by (auto dest!: demo_orphan_all simp: l)
  moreover have "pid_ok ?k" unfolding pid_ok_def by (auto dest!: demo_orphan_all simp: l)
  moreover have "sched_ok ?k" unfolding sched_ok_def cu using id by (auto dest!: demo_orphan_all split: if_splits)
  ultimately show ?thesis by (simp add: kinv_def tasks_ok_def)
qed

section \<open>Properties\<close>





text \<open>
  C7. \<^verbatim>\<open>task_exit\<close> reads the parent before it takes a lock. Let a task and its parent exit on two
  CPUs, while the grandparent waits for the parent. If the parent's exit falls between the
  reading and the lock, the parent is reaped and freed, the task has PID 1 for its parent,
  and the rest of the task's exit locks the freed parent. Were the exits not to overlap, both
  would return.
\<close>

theorem exit_parent_race:
  assumes "kinv k" "cur k c = Some t" "tasks k t = Some T" "state T = TASK_RUNNING" "parent T = Some p"
    and "cur k d = Some p" "tasks k p = Some P" "state P = TASK_RUNNING" "parent P = Some q"
    and "tasks k q = Some Q" "awaits Q P"
  shows "\<exists>k1 k2 T'. task_exit_begin t k = Ok (k1, p) \<and> task_exit d p code (Some n) k1 = Ok k2 \<and>
    tasks k2 p = None \<and> tasks k2 t = Some T' \<and> parent T' = Some (init_task k) \<and>
    task_exit_end c t p code' cp k2 = Panic \<and> (\<exists>k3. task_exit c t code' (Some n) k = Ok k3)"
proof -
  note tok = kinvD(1) [OF assms(1)] and ok = tasks_okD [OF kinvD(1) [OF assms(1)]]
  have ni: "t \<noteq> init_task k" "p \<noteq> init_task k" using fam_okD(4) [OF ok(4) assms(3)] fam_okD(4) [OF ok(4) assms(7)] assms(5,9) by auto
  have ne: "p \<noteq> t" "q \<noteq> p" using fam_okD(6) [OF ok(4)] assms(3,5,7,9) by blast+
  have qt: "q \<noteq> t" using assms(3,4,10,11) running_task(4) [OF tok assms(2-4)] by (auto simp: awaits_def is_timer_ex)
  define k1 where "k1 = upd t (\<lambda>_. case wfe T of WFE_TIMER _ \<Rightarrow> T\<lparr>wfe := WFE_NONE\<rparr> | _ \<Rightarrow> T)
    (k\<lparr>timer_list := remove1 t (timer_list k), task_list := remove1 t (task_list k)\<rparr>)"
  have b: "task_exit_begin t k = Ok (k1, p)"
    using assms(3,5) by (simp add: task_exit_begin_def with_task_def task_cancel_timer_def task_dequeue_def upd_def Let_def
      k1_def remove1_idem)
  have k1: "tasks k1 x = (if x = t then Some (case wfe T of WFE_TIMER _ \<Rightarrow> T\<lparr>wfe := WFE_NONE\<rparr> | _ \<Rightarrow> T) else tasks k x)"
    "init_task k1 = init_task k" "cpus k1 = cpus k" for x using assms(3) by (simp_all add: k1_def upd_def)
  have cs: "ch \<in> set (children P) \<longleftrightarrow> (\<exists>C. tasks k ch = Some C \<and> parent C = Some p)" for ch by (rule fam_okD(5) [OF ok(4) assms(7)])
  have ic: "p \<notin> set (children P)" "init_task k \<notin> set (children P)" "t \<in> set (children P)"
    using cs [of p] cs [of "init_task k"] cs [of t] fam_okD(4) [OF ok(4)] assms(3,5,7,9) ne by fastforce+
  let ?K = "exiting d p P code k1"
  have "task_exit d p code (Some n) k1 = and_then (task_notify_wait q p (Some n) ?K) (\<lambda>(k, _). Ok k)"
    by (rule task_exit_eq) (use assms ne qt ic ni running_task(1) [OF tok assms(6-8)] fam_okD(2) [OF ok(4) assms(7)] in \<open>simp_all add: k1\<close>)
  moreover have Kp: "tasks ?K p = Some (dead code P)" and Kq: "tasks ?K q = Some (adopt (children P) (init_task k) p q Q)"
    using assms(10) ne qt by (simp_all add: exiting_tasks k1)
  moreover have "awaits (adopt (children P) (init_task k) p q Q) (dead code P)"
    using assms(11) unfolding awaits_def adopt_sel dead_sel .
  ultimately obtain us where e: "task_exit d p code (Some n) k1 = Ok (reap q p (dead code P) (?K\<lparr>ustatus := us\<rparr>))"
    using task_notify_wait_eq [OF Kq Kp, of "Some n"] assms(9) ne by auto
  let ?k2 = "reap q p (dead code P) (?K\<lparr>ustatus := us\<rparr>)"
  have p2: "tasks ?k2 p = None" by (simp add: reap_def)
  have "\<exists>T'. tasks ?k2 t = Some T' \<and> parent T' = Some (init_task k)"
    using ne qt ic(3) by (simp add: reap_def upd_def exiting_tasks k1 adopt_parent)
  moreover have "task_exit_end c t p code' cp ?k2 = Panic" by (simp add: task_exit_end_def with_task_def p2)
  moreover have "\<exists>k3. task_exit c t code' (Some n) k = Ok k3"
    using task_exit_kinv [OF assms(1-4) ni(1), of "Some n"] by auto
  ultimately show ?thesis using b e p2 by blast
qed

theorem exit_parent_race_witness:
  "\<exists>k1 k2. task_exit_begin 24 demo_orphan = Ok (k1, 16) \<and> task_exit 1 16 0 (Some 0) k1 = Ok k2 \<and> tasks k2 16 = None \<and>
     task_exit_end 0 24 16 0 None k2 = Panic"
proof -
  have "cur demo_orphan 0 = Some 24" "tasks demo_orphan 24 = Some (demo_task 3 TASK_RUNNING 0 (Some 16) [32])"
    "cur demo_orphan 1 = Some 16" "tasks demo_orphan 16 = Some (demo_task 2 TASK_RUNNING 1 (Some 8) [24])"
    "tasks demo_orphan 8 = Some ((demo_task 1 TASK_WFE TASK_NO_CPU None [16])\<lparr>wfe := WFE_CHILD (-1) 0\<rparr>)"
    by (simp_all add: demo_orphan_def demo_cpu_def)
  from exit_parent_race [OF demo_orphan_kinv this(1,2) _ _ this(3,4) _ _ this(5), of 0 0 0 None]
  show ?thesis by (auto simp: awaits_def)
qed

text \<open>
  C26. When a running task other than PID 1 exits, its parent either gets the status at once, if
  it waits for this child: the low byte of the exit code, shifted by eight, is copied to the
  address the parent gave, if any, the parent becomes runnable with the child's PID for
  result, and the child is gone. Or the child stays, dead, with its exit code, and nothing is
  copied. All children of the exiting task move to PID 1. The CPU is left without a task and
  asks for the scheduler. This supposes that the copy itself returns.
\<close>

theorem task_exit_behaviour:
  assumes "kinv k" "cur k c = Some t" "tasks k t = Some T" "state T = TASK_RUNNING" "t \<noteq> init_task k"
  shows "\<exists>k' p P. parent T = Some p \<and> tasks k p = Some P \<and> task_exit c t code (Some n) k = Ok k' \<and> kinv k' \<and>
    cur k' c = None \<and> sched_req (cpus k' c) \<and>
    (\<forall>ch \<in> set (children T). \<exists>C. tasks k' ch = Some C \<and> parent C = Some (init_task k)) \<and>
    (case wfe P of
       WFE_CHILD w st \<Rightarrow>
         if w = -1 \<or> w = pid T then
           tasks k' t = None \<and>
           (\<exists>P'. tasks k' p = Some P' \<and> state P' = TASK_RUNNABLE \<and> retval P' = pid T \<and> wfe P' = WFE_NONE) \<and>
           ustatus k' = (if st = 0 then [] else [(p, st, code mod 256 * 256, n)]) @ ustatus k
         else stays_dead t code p k k'
     | _ \<Rightarrow> stays_dead t code p k k')"
proof -
  note ok = tasks_okD [OF kinvD(1) [OF assms(1)]]
  obtain k' p P where k': "parent T = Some p" "tasks k p = Some P" "task_exit c t code (Some n) k = Ok k'"
    and eq: "k' = (if awaits P T then reap p t (dead code T) ((exiting c t T code k)\<lparr>ustatus := reported p P code (Some n) k\<rparr>)
      else exiting c t T code k)"
    and cp: "\<forall>d. cpus k' d = (if d = c then (cpus k c)\<lparr>sched_req := True, current_task := None\<rparr> else cpus k d)"
    and ch: "\<forall>x. x \<in> set (children T) \<longrightarrow> (\<exists>C. tasks k' x = Some C \<and> parent C = Some (init_task k))"
    using task_exit_ok [OF kinvD(1) [OF assms(1)] assms(2-5), of "Some n" code] by blast
  have inv: "kinv k'" using task_exit_kinv [OF assms, of "Some n" code] k'(3) by auto
  have pt: "p \<noteq> t" by (rule fam_okD(6) [OF ok(4) assms(3) k'(1)])
  have us: "ustatus (exiting c t T code k) = ustatus k" by (simp add: exiting_def upd_cpu_def)
  have d: "stays_dead t code p k k'" if "\<not> awaits P T"
    using that k'(1) us by (simp add: eq stays_dead_def exiting_tasks dead_def)
  have w: "wfe_ok P" by (rule events_okD [OF ok(3) k'(2)])
  have a: "tasks k' t = None" "\<exists>P'. tasks k' p = Some P' \<and> state P' = TASK_RUNNABLE \<and> retval P' = pid T \<and> wfe P' = WFE_NONE"
      "ustatus k' = (if st = 0 then [] else [(p, st, code mod 256 * 256, n)]) @ ustatus k"
    if "wfe P = WFE_CHILD w st" "w = -1 \<or> w = pid T" for w st
  proof -
    have aw: "awaits P T" using that by (simp add: awaits_def)
    have "state P = TASK_WFE" using w that(1) unfolding wfe_ok_def by (cases "ttype P") auto
    then show "\<exists>P'. tasks k' p = Some P' \<and> state P' = TASK_RUNNABLE \<and> retval P' = pid T \<and> wfe P' = WFE_NONE"
      using aw k'(2) pt by (simp add: eq reap_def upd_def exiting_tasks reaped_def)
    show "tasks k' t = None" using aw by (simp add: eq reap_def)
    show "ustatus k' = (if st = 0 then [] else [(p, st, code mod 256 * 256, n)]) @ ustatus k"
      using aw that(1) by (simp add: eq reap_def upd_def reported_def exit_status_mod)
  qed
  have "case wfe P of
       WFE_CHILD w st \<Rightarrow>
         if w = -1 \<or> w = pid T then
           tasks k' t = None \<and>
           (\<exists>P'. tasks k' p = Some P' \<and> state P' = TASK_RUNNABLE \<and> retval P' = pid T \<and> wfe P' = WFE_NONE) \<and>
           ustatus k' = (if st = 0 then [] else [(p, st, code mod 256 * 256, n)]) @ ustatus k
         else stays_dead t code p k k'
     | _ \<Rightarrow> stays_dead t code p k k'"
    using a d by (cases "wfe P") (auto simp: awaits_def)
  then show ?thesis using k' cp ch inv by (intro exI [of _ k'] exI [of _ p] exI [of _ P]) auto
qed

text \<open>As above, with PID 1 waiting and a place for the status at \<open>0x1000\<close>.\<close>

definition wait_ops :: "(nat \<times> kop) list" where
  "wait_ops = demo_ops @ [(0, Op_wait (-1) 0x1000 0 None)]"

theorem task_exit_behaviour_witness:
  "\<exists>k k'. krun wait_ops demo_boot = Ok k \<and> task_exit 1 16 0x103 (Some 4) k = Ok k' \<and> cur k' 1 = None \<and>
     tasks k' 16 = None \<and> ustatus k' = [(8, 0x1000, 0x300, 4)]"
proof -
  have "res_holds (\<lambda>k. cur k 1 = Some 16 \<and> init_task k = 8 \<and> ustatus k = [] \<and> (\<exists>T P. tasks k 16 = Some T \<and> state T = TASK_RUNNING \<and>
      parent T = Some 8 \<and> tasks k 8 = Some P \<and> wfe P = WFE_CHILD (-1) 0x1000)) (krun wait_ops demo_boot)"
    by (simp add: wait_ops_def demo_ops_def demo_boot_def boot_eval sys_wait_def find_child_def task_set_wfe_def)
  then obtain k T P where k: "krun wait_ops demo_boot = Ok k" "cur k 1 = Some 16" "init_task k = 8" "ustatus k = []" "tasks k 16 = Some T"
      "state T = TASK_RUNNING" "parent T = Some 8" "tasks k 8 = Some P" "wfe P = WFE_CHILD (-1) 0x1000"
    using res_holdsD by blast
  have "kinv k"
    by (rule kreach_kinv [OF krun_kreach [OF k(1) kreach_start]]) (simp add: demo_boot_def boot_kinv demo_fresh)
  from task_exit_behaviour [OF this k(2,5,6), of "0x103" 4] show ?thesis using k by auto
qed

text \<open>
  C27. A dead child stays in the list of a parent that does not wait for it. If that parent
  then exits while PID 1 sleeps in \<^verbatim>\<open>wait(-1)\<close>, the dead child moves to PID 1 without a wake-up,
  unless PID 1 is the parent itself: PID 1 sleeps on although a child it waits for is dead.
\<close>

theorem init_lost_wakeup:
  assumes "kinv k" "cur k c = Some t" "tasks k t = Some T" "state T = TASK_RUNNING" "parent T = Some p" "p \<noteq> init_task k"
    and "tasks k (init_task k) = Some I" "wfe I = WFE_CHILD (-1) st"
    and "z \<in> set (children T)" "tasks k z = Some Z" "state Z = TASK_EXIT_DEAD"
  shows "\<exists>k' I' Z'. task_exit c t code (Some n) k = Ok k' \<and> tasks k' (init_task k) = Some I' \<and> state I' = TASK_WFE \<and>
    tasks k' z = Some Z' \<and> state Z' = TASK_EXIT_DEAD \<and> parent Z' = Some (init_task k) \<and> awaits I' Z'"
proof -
  note ok = tasks_okD [OF kinvD(1) [OF assms(1)]]
  have pI: "parent I = None" using fam_okD(4) [OF ok(4) assms(7)] by simp
  have ti: "t \<noteq> init_task k" using assms(3,5,7) pI by auto
  obtain P where P: "tasks k p = Some P" "live (state P)" using fam_okD(7) [OF ok(4) assms(3,5)] by blast
  obtain k' where e: "task_exit c t code (Some n) k = Ok k'"
    and k': "k' = (if awaits P T then reap p t (dead code T) ((exiting c t T code k)\<lparr>ustatus := reported p P code (Some n) k\<rparr>)
      else exiting c t T code k)"
    using task_exit_ok [OF kinvD(1) [OF assms(1)] assms(2-4) ti, of "Some n" code] assms(5) P(1) by auto
  have pz: "parent Z = Some t" using fam_okD(5) [OF ok(4) assms(3), of z] assms(9,10) by simp
  have zt: "z \<noteq> t" using fam_okD(6) [OF ok(4) assms(10) pz] by simp
  have zp: "z \<noteq> p" using P assms(10,11) by auto
  have same: "tasks k' x = tasks (exiting c t T code k) x" if "x \<noteq> t" "x \<noteq> p" for x
    using that by (simp add: k' reap_def upd_def)
  let ?a = "adopt (children T) (init_task k) t"
  have I': "tasks k' (init_task k) = Some (?a (init_task k) I)" using ti assms(6,7) same [of "init_task k"] by (simp add: exiting_tasks)
  have Z': "tasks k' z = Some (?a z Z)" using zt zp assms(10) same [of z] by (simp add: exiting_tasks)
  have w: "wfe_ok I" by (rule events_okD [OF ok(3) assms(7)])
  then have "ttype I = GRINCH_PROCESS" using assms(8) unfolding wfe_ok_def by (cases "ttype I") auto
  then have "state I = TASK_WFE" using w assms(8) unfolding wfe_ok_def by simp
  moreover have "parent (?a z Z) = Some (init_task k)" using assms(9) zt by (simp add: adopt_parent)
  moreover have "awaits (?a (init_task k) I) (?a z Z)" using assms(8) by (simp add: awaits_def)
  ultimately show ?thesis using e I' Z' assms(11) by auto
qed

theorem init_lost_wakeup_witness:
  "\<exists>k' I' Z'. task_exit 0 24 0 (Some 4) demo_orphan = Ok k' \<and> tasks k' 8 = Some I' \<and> state I' = TASK_WFE \<and>
     tasks k' 32 = Some Z' \<and> state Z' = TASK_EXIT_DEAD \<and> parent Z' = Some 8 \<and> awaits I' Z'"
proof -
  have i: "init_task demo_orphan = 8" by (simp add: demo_orphan_def demo_state_def)
  have "cur demo_orphan 0 = Some 24" "tasks demo_orphan 24 = Some (demo_task 3 TASK_RUNNING 0 (Some 16) [32])"
    "tasks demo_orphan (init_task demo_orphan) = Some ((demo_task 1 TASK_WFE TASK_NO_CPU None [16])\<lparr>wfe := WFE_CHILD (-1) 0\<rparr>)"
    "tasks demo_orphan 32 = Some (demo_task 4 TASK_EXIT_DEAD TASK_NO_CPU (Some 24) [])"
    unfolding i by (simp_all add: demo_orphan_def demo_cpu_def)
  from init_lost_wakeup [OF demo_orphan_kinv this(1,2) _ _ _ this(3) _ _ this(4), of 16 0 0 4] show ?thesis by (simp add: i)
qed

text \<open>
  C30. A virtual machine that executes the wait-for-interrupt instruction with no timer armed
  and no interrupt pending stops the whole kernel: there is no event to wait for, which the
  task code takes for a bug.
\<close>

theorem vm_wfi_without_timer_panics:
  assumes "kinv k" "cur k c = Some t" "tasks k t = Some T" "ttype T = GRINCH_VMACHINE" "state T = TASK_RUNNING"
  shows "vm_wfi c hvip k = Panic \<longleftrightarrow> \<not> hvip \<and> wfe T = WFE_NONE"
proof -
  have "hvip \<or> is_timer (wfe T) \<Longrightarrow> \<exists>k'. vm_wfi c hvip k = Ok k'"
    using vm_wfi_kinv [OF assms(1-3,5,4)] by blast
  moreover have "wfe T = WFE_NONE \<or> is_timer (wfe T)" by (rule running_task(4) [OF kinvD(1) [OF assms(1)] assms(2,3,5)])
  ultimately show ?thesis using assms(2,3,5) by (cases hvip) (auto simp: vm_wfi_def task_set_wfe_def with_task_def)
qed

definition vm_ops :: "(nat \<times> kop) list" where
  "vm_ops = [(0, Op_timer 0), (0, Op_return (\<lambda>_. 0)), (0, Op_create_vm 16 0), (1, Op_timer 0), (1, Op_return (\<lambda>_. 0))]"

theorem vm_wfi_without_timer_panics_witness:
  "\<exists>k. krun vm_ops demo_boot = Ok k \<and> vm_wfi 1 False k = Panic"
proof -
  have "res_holds (\<lambda>k. cur k 1 = Some 16 \<and> (\<exists>T. tasks k 16 = Some T \<and> ttype T = GRINCH_VMACHINE \<and> state T = TASK_RUNNING \<and>
      wfe T = WFE_NONE)) (krun vm_ops demo_boot)"
    by (simp add: vm_ops_def demo_boot_def boot_eval create_grinch_vm_def)
  then obtain k T where k: "krun vm_ops demo_boot = Ok k" "cur k 1 = Some 16" "tasks k 16 = Some T" "ttype T = GRINCH_VMACHINE"
      "state T = TASK_RUNNING" "wfe T = WFE_NONE"
    using res_holdsD by blast
  have "kinv k"
    by (rule kreach_kinv [OF krun_kreach [OF k(1) kreach_start]]) (simp add: demo_boot_def boot_kinv demo_fresh)
  from vm_wfi_without_timer_panics [OF this k(2-5), of False] show ?thesis using k by auto
qed

end
