(* ===== verification/Page_Pool.thy ===== *)
theory Page_Pool
  imports Page_Ownership
begin

text \<open>
  What the page-table code relies on when it takes single pages from the page-frame allocator
  and translates between their two addresses: a page that is handed out was not held before,
  releasing a held page succeeds and affects no other page, and \<^verbatim>\<open>p2v\<close> undoes \<^verbatim>\<open>v2p\<close> on
  held pages. The locale states the contract, the interpretation \<open>pp\<close> discharges it for
  \<open>alloc_pages\<close>, \<open>free_pages\<close>, \<open>v2p\<close> and \<open>p2v\<close> of \<^verbatim>\<open>mm/gfp.c\<close>.
\<close>

section \<open>The contract\<close>

locale page_pool =
  fixes ok :: "'s \<Rightarrow> bool" and held :: "'s \<Rightarrow> u64 set"
    and alloc :: "'s \<Rightarrow> ('s \<times> u64) result" and release :: "'s \<Rightarrow> u64 \<Rightarrow> 's \<times> int"
    and to_phys :: "'s \<Rightarrow> 'w \<Rightarrow> u64 \<Rightarrow> u64 result" and to_virt :: "'s \<Rightarrow> u64 \<Rightarrow> u64 result"
  assumes alloc_law: "ok s \<Longrightarrow> \<exists>s' v. alloc s = Ok (s', v) \<and> ok s' \<and> to_virt s' = to_virt s \<and>
      (v = 0 \<and> s' = s \<or> v \<noteq> 0 \<and> v \<notin> held s \<and> held s' = insert v (held s))"
    and release_law: "ok s \<Longrightarrow> v \<in> held s \<Longrightarrow>
      \<exists>s'. release s v = (s', 0) \<and> ok s' \<and> to_virt s' = to_virt s \<and> held s' = held s - {v}"
    and phys_law: "ok s \<Longrightarrow> v \<in> held s \<Longrightarrow>
      \<exists>p. to_phys s w v = Ok p \<and> to_virt s p = Ok v \<and> unat p mod 0x1000 = 0"
begin

lemma alloc_cases:
  assumes "ok s"
  obtains (full) "alloc s = Ok (s, 0)"
  | (page) s' v p where "alloc s = Ok (s', v)" "v \<noteq> 0" "ok s'" "to_virt s' = to_virt s" "v \<notin> held s"
      "held s' = insert v (held s)" "to_phys s' w v = Ok p" "to_virt s p = Ok v" "unat p mod 0x1000 = 0"
proof -
  from alloc_law [OF assms] obtain s' v where s': "alloc s = Ok (s', v)" "ok s'" "to_virt s' = to_virt s"
    and v: "v = 0 \<and> s' = s \<or> v \<noteq> 0 \<and> v \<notin> held s \<and> held s' = insert v (held s)" by blast
  show thesis
  proof (cases "v = 0")
    case True
    then show thesis using full s' v by simp
  next
    case False
    then have h: "v \<notin> held s" "held s' = insert v (held s)" using v by simp_all
    from phys_law [OF s'(2), of v w] h(2) obtain p
      where "to_phys s' w v = Ok p" "to_virt s' p = Ok v" "unat p mod 0x1000 = 0" by auto
    then show thesis using page [OF s'(1) False s'(2,3) h] s'(3) by simp
  qed
qed

lemma phys_inj:
  assumes "ok s" and "v \<in> held s" and "v' \<in> held s" and "to_phys s w v = to_phys s w' v'"
  shows "v = v'"
  using phys_law [OF assms(1,2), of w] phys_law [OF assms(1,3), of w'] assms(4) by auto

end

section \<open>The page-frame allocator meets it\<close>

text \<open>The page-aligned virtual addresses of the frames in use that lie in a virtual window.\<close>

definition held :: "areas \<Rightarrow> u64 set" where
  "held st = {v. \<exists>i s. grant_at st (Virt v 1) i s \<and> pfn0 (st ! i) + s \<in> busy st}"

definition free_page :: "areas \<Rightarrow> u64 \<Rightarrow> areas \<times> int" where
  "free_page st v = free_pages st v 1"

lemma p2v_geom: "map geom st' = map geom st \<Longrightarrow> p2v st' = p2v st"
proof (rule ext)
  fix p
  assume "map geom st' = map geom st"
  then show "p2v st' p = p2v st p"
  proof (induction st arbitrary: st')
    case (Cons a as)
    then obtain b bs where b: "st' = b # bs" "geom b = geom a" "map geom bs = map geom as" by auto
    note eq = geom_eqD [OF b(2)]
    have "p_in_area b p 0 = p_in_area a p 0" by (simp add: p_in_area_def eq)
    then show ?case using Cons.IH [OF b(3)] by (simp add: b(1) eq)
  qed simp
qed

lemma grant_at_geom:
  assumes "map geom st' = map geom st" and "grant_at st (Virt v n) i s"
  shows "grant_at st' (Virt v n) i s \<and> pfn0 (st' ! i) = pfn0 (st ! i)"
proof -
  have il: "i < length (live st)" using assms(2) by (simp add: owned_run_def)
  then have i: "i < length st" using live_nth by blast
  have g: "geom (st' ! j) = geom (st ! j)" if "j \<le> i" for j
    using geom_nth [OF assms(1), of j] that i by simp
  note gi = geom_eqD [OF g [OF order_refl]]
  have "area_pfns (st' ! j) = area_pfns (st ! j)" if "j < i" for j
    using geom_eqD(2) [OF g [of j]] that by simp
  moreover have "pfn0 (st' ! i) = pfn0 (st ! i)" by (simp add: pfn0_def gi)
  ultimately have "owned_run st' i s n = owned_run st i s n"
    using live_geom [OF assms(1)] by (simp add: owned_run_def gi)
  then show ?thesis
    using assms(2) unfolding grant_at.simps find_area_geom [OF assms(1)] gi pfn0_def by blast
qed

lemma held_geom:
  assumes "map geom st' = map geom st"
  shows "v \<in> held st' \<longleftrightarrow> (\<exists>i s. grant_at st (Virt v 1) i s \<and> pfn0 (st ! i) + s \<in> busy st')"
proof -
  have "grant_at st' (Virt v 1) i s \<and> pfn0 (st' ! i) = pfn0 (st ! i)"
    if "grant_at st (Virt v 1) i s" for i s using grant_at_geom [OF assms that] .
  moreover have "grant_at st (Virt v 1) i s \<and> pfn0 (st ! i) = pfn0 (st' ! i)"
    if "grant_at st' (Virt v 1) i s" for i s using grant_at_geom [OF assms [symmetric] that] .
  ultimately show ?thesis unfolding held_def mem_Collect_eq by metis
qed

lemma grant_frame:
  assumes "grant_at st (Virt v 1) i s"
  shows "pfn0 (st ! i) + s \<in> area_pfns (st ! i)" and "j < i \<Longrightarrow> pfn0 (st ! i) + s \<notin> area_pfns (st ! j)"
  using assms by (auto simp: owned_run_def area_pfns_def)

lemma grant_unique:
  assumes "grant_at st (Virt v 1) i s" and "grant_at st (Virt w 1) j t"
    and "pfn0 (st ! i) + s = pfn0 (st ! j) + t"
  shows "v = w"
proof -
  have "i = j"
    using grant_frame [OF assms(1)] grant_frame [OF assms(2)] assms(3)
    by (metis linorder_neqE_nat)
  then show ?thesis using assms by simp
qed

lemma p_in_area_frame:
  assumes "area_ok a" and "unat p = 0x1000 * f"
  shows "p_in_area a p 0 \<longleftrightarrow> f \<in> area_pfns a"
proof -
  have "unat (p_end a) = 0x1000 * (pfn0 a + a_bit_max a)"
    using assms(1) area_bounds(2) [OF assms(1)] by (simp add: area_ok_def)
  then show ?thesis
    using area_bounds(2) [OF assms(1)] assms(2)
    by (auto simp: p_in_area_def area_pfns_def word_less_nat_alt word_le_nat_alt)
qed

lemma p2v_skip:
  assumes "i < length (live st)" and "\<And>j. j < i \<Longrightarrow> \<not> p_in_area (st ! j) p 0"
    and "p_in_area (st ! i) p 0" and "v_base (st ! i) \<noteq> 0"
  shows "p2v st p = Ok (v_base (st ! i) + (p - p_base (st ! i)))"
  using assms
proof (induction st arbitrary: i)
  case (Cons a as)
  then have a: "valid a" by (simp add: live_Cons split: if_splits)
  show ?case
  proof (cases i)
    case (Suc j)
    have "\<not> p_in_area (as ! l) p 0" if "l < j" for l using Cons.prems(2) [of "Suc l"] Suc that by simp
    moreover have "\<not> p_in_area a p 0" using Cons.prems(2) [of 0] Suc by simp
    ultimately show ?thesis using Cons.IH [of j] Cons.prems a Suc by (simp add: live_Cons)
  qed (use Cons.prems a in simp)
qed (simp add: live_def)

lemma grant_phys:
  assumes "gfp_ok st" and at: "grant_at st (Virt v 1) i s"
  defines "p \<equiv> memory_area_v2p (st ! i) v"
  shows "v2p st ptw v = Ok p" and "p2v st p = Ok v" and "unat p = 0x1000 * (pfn0 (st ! i) + s)"
proof -
  have f: "find_area st v = Some i" and vb: "v_base (st ! i) \<noteq> 0" and own: "owned_run st i s 1"
    and v: "v = v_base (st ! i) + of_nat s * PAGE_SIZE" using at unfolding grant_at.simps by blast+
  show "v2p st ptw v = Ok p" using f by (simp add: v2p_def p_def)
  have p: "p = p_base (st ! i) + of_nat s * PAGE_SIZE" unfolding p_def v by (rule v2p_slot)
  then show up: "unat p = 0x1000 * (pfn0 (st ! i) + s)"
    using owned_run_bounds(1) [OF assms(1) own] by simp
  have il: "i < length (live st)" using own by (simp add: owned_run_def)
  have pin: "p_in_area (st ! j) p 0 \<longleftrightarrow> pfn0 (st ! i) + s \<in> area_pfns (st ! j)"
    if "j \<le> i" for j
    using p_in_area_frame [OF gfp_ok_live [OF assms(1)] up, of j] that il by simp
  have "p2v st p = Ok (v_base (st ! i) + (p - p_base (st ! i)))"
    by (rule p2v_skip [OF il]) (use pin grant_frame [OF at] vb in auto)
  then show "p2v st p = Ok v" using p v by simp
qed

lemma grant_frame_iff:
  assumes "gfp_ok st" and "grant_at st (Virt v 1) i s" and "grant_at st (Virt w 1) j t"
  shows "pfn0 (st ! j) + t = pfn0 (st ! i) + s \<longleftrightarrow> w = v"
proof
  assume "w = v"
  moreover from this have "j = i" using assms(2,3) unfolding grant_at.simps by (metis option.inject)
  ultimately show "pfn0 (st ! j) + t = pfn0 (st ! i) + s"
    using grant_phys(3) [OF assms(1,2)] grant_phys(3) [OF assms(1,3)] by simp
qed (use grant_unique [OF assms(3,2)] in simp)

lemma alloc_page_law:
  assumes ok: "gfp_ok st"
  shows "\<exists>st' v. alloc_pages st 1 = Ok (st', v) \<and> gfp_ok st' \<and> p2v st' = p2v st \<and>
    (v = 0 \<and> st' = st \<or> v \<noteq> 0 \<and> v \<notin> held st \<and> held st' = insert v (held st))"
  using alloc_pages_loop_spec [OF ok zero_less_numeral zero_less_one EINVAL_nonzero]
proof (elim disjE exE conjE)
  fix st' v i s
  assume *: "alloc_pages_loop st (- errno_num EINVAL) 1 (unat PAGE_SIZE * 2 ^ 0) 0 = Ok (st', 0, Some v)"
    "virt_grant st st' 0 1 v i s"
  have eff: "alloc_effect st st' (memory_area_v2p (st ! i) v) 1" using *(2) unfolding virt_grant_def by blast
  note at = virt_grant_at [OF ok zero_less_one *(2)]
  let ?f = "pfn0 (st ! i) + s"
  have "unat (memory_area_v2p (st ! i) v) = 0x1000 * ?f" by (rule grant_phys(3) [OF ok at(1)])
  then have fr: "frames (memory_area_v2p (st ! i) v) 1 = {?f}" by (auto simp: frames_def)
  have geo: "map geom st' = map geom st"
    using eff unfolding alloc_effect_def grown_def list_all2_conv_all_nth by (auto intro: nth_equalityI)
  have new: "?f \<notin> busy st" and busy: "busy st' = insert ?f (busy st)"
    using eff avail_not_busy [OF ok] unfolding alloc_effect_def fr by auto
  note same = grant_frame_iff [OF ok at(1)]
  have "v \<notin> held st" using same new unfolding held_def by fastforce
  moreover have "w \<in> held st' \<longleftrightarrow> w \<in> insert v (held st)" for w
    unfolding held_geom [OF geo] busy using same at(1) unfolding held_def by blast
  then have "held st' = insert v (held st)" by blast
  ultimately show ?thesis
    using * eff at(3) p2v_geom [OF geo]
    by (simp add: alloc_pages_def alloc_pages_aligned_def alloc_pages_aligned_hint_def alloc_effect_def)
next
  fix e
  assume "alloc_pages_loop st (- errno_num EINVAL) 1 (unat PAGE_SIZE * 2 ^ 0) 0 = Ok (st, e, None)" "e \<noteq> 0"
  then show ?thesis using ok
    by (simp add: alloc_pages_def alloc_pages_aligned_def alloc_pages_aligned_hint_def)
qed

lemma free_page_law:
  assumes ok: "gfp_ok st" and "v \<in> held st"
  shows "\<exists>st'. free_page st v = (st', 0) \<and> gfp_ok st' \<and> p2v st' = p2v st \<and> held st' = held st - {v}"
proof -
  from assms(2) obtain i s where at: "grant_at st (Virt v 1) i s" "pfn0 (st ! i) + s \<in> busy st"
    by (auto simp: held_def)
  let ?st' = "st[i := release_run (st ! i) s 1]"
  have "free_page st v = (?st', 0)" using free_grant_succeeds [OF ok at(1)] by (simp add: free_page_def)
  moreover have eff: "gfp_ok ?st'" "busy ?st' = busy st - {pfn0 (st ! i) + s}" "map geom ?st' = map geom st"
    using release_effect [OF ok, of i s 1] at(1) by auto
  moreover have "w \<in> held ?st' \<longleftrightarrow> w \<in> held st - {v}" for w
    unfolding held_geom [OF eff(3)] eff(2) using grant_frame_iff [OF ok at(1)] unfolding held_def by blast
  then have "held ?st' = held st - {v}" by blast
  ultimately show ?thesis using p2v_geom [OF eff(3)] by blast
qed

interpretation pp: page_pool gfp_ok held "\<lambda>st. alloc_pages st 1" free_page v2p p2v
proof unfold_locales
  fix st v
  fix w :: "u64 \<Rightarrow> u64"
  assume "gfp_ok st" "v \<in> held st"
  then obtain i s where "grant_at st (Virt v 1) i s" by (auto simp: held_def)
  from grant_phys [OF \<open>gfp_ok st\<close> this]
  show "\<exists>p. v2p st w v = Ok p \<and> p2v st p = Ok v \<and> unat p mod 0x1000 = 0" by auto
qed (use alloc_page_law free_page_law in auto)

end
