(* ===== verification/Frame_Pool.thy ===== *)
theory Frame_Pool
  imports Page_Pool
begin

text \<open>
  What the users of physical page runs rely on: \<^verbatim>\<open>phys_pages_alloc\<close> hands out a run of
  frames that nobody holds, contiguous in physical memory and in the kernel's direct mapping,
  and \<^verbatim>\<open>phys_free_pages\<close> returns exactly such a run. The locale extends the contract of
  single pages, the interpretation \<open>fp\<close> is for \<^verbatim>\<open>mm/gfp.c\<close>, under the condition that every
  area has a direct mapping and lies below the limit of page-table entries.
\<close>

section \<open>The contract\<close>

definition run :: "u64 \<Rightarrow> nat \<Rightarrow> u64 set" where
  "run v n = (\<lambda>i. v + of_nat i * PAGE_SIZE) ` {..<n}"

locale frame_pool = page_pool ok held alloc release to_phys to_virt
  for ok :: "'s \<Rightarrow> bool" and held :: "'s \<Rightarrow> u64 set" and alloc release and to_phys :: "'s \<Rightarrow> 'w \<Rightarrow> u64 \<Rightarrow> u64 result"
    and to_virt +
  fixes direct :: "'s \<Rightarrow> bool" and is_run :: "'s \<Rightarrow> u64 \<Rightarrow> nat \<Rightarrow> u64 \<Rightarrow> bool"
    and palloc :: "'s \<Rightarrow> nat \<Rightarrow> ('s \<times> int \<times> u64 option) result" and pfree :: "'s \<Rightarrow> u64 \<Rightarrow> nat \<Rightarrow> 's \<times> int"
  assumes palloc_law: "ok s \<Longrightarrow> direct s \<Longrightarrow> 0 < n \<Longrightarrow> n < 2 ^ 32 \<Longrightarrow>
      (\<exists>e. palloc s n = Ok (s, e, None) \<and> e \<noteq> 0) \<or>
      (\<exists>s' p v. palloc s n = Ok (s', 0, Some p) \<and> ok s' \<and> direct s' \<and> is_run s' = is_run s \<and> to_virt s' = to_virt s \<and>
         is_run s p n v \<and> run v n \<inter> held s = {} \<and> held s' = held s \<union> run v n)"
    and pfree_law: "ok s \<Longrightarrow> is_run s p n v \<Longrightarrow> 0 < n \<Longrightarrow>
      \<exists>s'. pfree s p n = (s', 0) \<and> ok s' \<and> (direct s \<longrightarrow> direct s') \<and> is_run s' = is_run s \<and> to_virt s' = to_virt s \<and>
         held s' = held s - run v n"
    and run_virt: "ok s \<Longrightarrow> is_run s p n v \<Longrightarrow> x < 0x1000 * n \<Longrightarrow> to_virt s (p + of_nat x) = Ok (v + of_nat x)"
    and run_sub: "is_run s p n v \<Longrightarrow> i + m \<le> n \<Longrightarrow> is_run s (p + of_nat i * PAGE_SIZE) m (v + of_nat i * PAGE_SIZE)"
    and run_bound: "ok s \<Longrightarrow> direct s \<Longrightarrow> is_run s p n v \<Longrightarrow>
      unat p mod 0x1000 = 0 \<and> unat v mod 0x1000 = 0 \<and> v \<noteq> 0 \<and> unat p + 0x1000 * n \<le> 2 ^ 56 \<and> unat v + 0x1000 * n < 2 ^ 64"
begin

lemma palloc_pfree:
  assumes "ok s" and "direct s" and "0 < n" and "n < 2 ^ 32" and "palloc s n = Ok (s', e, Some p)"
  shows "\<exists>s''. pfree s' p n = (s'', 0) \<and> ok s'' \<and> direct s'' \<and> to_virt s'' = to_virt s \<and> held s'' = held s"
proof -
  from palloc_law [OF assms(1-4)] assms(5) obtain v where
    a: "ok s'" "direct s'" "is_run s' = is_run s" "to_virt s' = to_virt s" "is_run s p n v"
      "run v n \<inter> held s = {}" "held s' = held s \<union> run v n" by auto
  from pfree_law [OF a(1), of p n v] a assms(3) show ?thesis by fastforce
qed

end

section \<open>The page-frame allocator meets it\<close>

definition areas_direct :: "areas \<Rightarrow> bool" where
  "areas_direct st \<longleftrightarrow> (\<forall>a \<in> set (live st). v_base a \<noteq> 0 \<and> unat (p_end a) \<le> 2 ^ 56)"

definition frame_run :: "areas \<Rightarrow> u64 \<Rightarrow> nat \<Rightarrow> u64 \<Rightarrow> bool" where
  "frame_run st p n v \<longleftrightarrow> (\<exists>i s. owned_run st i s n \<and> v_base (st ! i) \<noteq> 0 \<and>
     p = p_base (st ! i) + of_nat s * PAGE_SIZE \<and> v = v_base (st ! i) + of_nat s * PAGE_SIZE)"

lemma find_area_run:
  "gfp_ok st \<Longrightarrow> i < length (live st) \<Longrightarrow> v_base (st ! i) \<noteq> 0 \<Longrightarrow> s < a_bit_max (st ! i) \<Longrightarrow>
   find_area st (v_base (st ! i) + of_nat s * PAGE_SIZE) = Some i"
proof (induction st arbitrary: i)
  case (Cons a as)
  then have a: "valid a" "area_ok a" by (auto simp: live_Cons split: if_splits)
  show ?case
  proof (cases i)
    case 0
    then show ?thesis using in_area_slot [OF a(2)] Cons.prems a by simp
  next
    case (Suc j)
    then have j: "j < length (live as)" using Cons.prems a by (simp add: live_Cons)
    have "find_area as (v_base (as ! j) + of_nat s * PAGE_SIZE) = Some j" using Cons Suc j a by simp
    moreover from find_area_Some [OF this] have "\<not> in_area a (v_base (as ! j) + of_nat s * PAGE_SIZE)"
      using Cons.prems(1) a by (auto simp: windows_disjoint_def)
    ultimately show ?thesis using a Suc by simp
  qed
qed (simp add: live_def)

lemma owned_run_sub: "owned_run st i s n \<Longrightarrow> k + m \<le> n \<Longrightarrow> owned_run st i (s + k) m"
proof -
  assume o: "owned_run st i s n" and k: "k + m \<le> n"
  have "{pfn0 (st ! i) + (s + k) ..< pfn0 (st ! i) + (s + k) + m} \<subseteq> {pfn0 (st ! i) + s ..< pfn0 (st ! i) + s + n}"
    using k by auto
  then have "{pfn0 (st ! i) + (s + k) ..< pfn0 (st ! i) + (s + k) + m} \<inter> area_pfns (st ! j) = {}" if "j < i" for j
    using o that unfolding owned_run_def by blast
  then show ?thesis using o k by (simp add: owned_run_def)
qed

lemma frame_run_sub:
  assumes "frame_run st p n v" and "i + m \<le> n"
  shows "frame_run st (p + of_nat i * PAGE_SIZE) m (v + of_nat i * PAGE_SIZE)"
proof -
  from assms(1) obtain j s where j: "owned_run st j s n" "v_base (st ! j) \<noteq> 0"
    "p = p_base (st ! j) + of_nat s * PAGE_SIZE" "v = v_base (st ! j) + of_nat s * PAGE_SIZE"
    unfolding frame_run_def by blast
  then show ?thesis
    unfolding frame_run_def using owned_run_sub [OF j(1) assms(2)]
    by (intro exI [of _ j] exI [of _ "s + i"]) (simp add: algebra_simps)
qed

lemma grant_run: "gfp_ok st \<Longrightarrow> owned_run st i s 1 \<Longrightarrow> v_base (st ! i) \<noteq> 0 \<Longrightarrow>
   grant_at st (Virt (v_base (st ! i) + of_nat s * PAGE_SIZE) 1) i s"
  using find_area_run [of st i s] by (auto simp: owned_run_def)

lemma frame_run_geom:
  assumes g: "map geom st' = map geom st"
  shows "frame_run st' = frame_run st" and "areas_direct st' = areas_direct st"
proof -
  have o: "owned_run bs i s n \<and> v_base (bs ! i) = v_base (as ! i) \<and> p_base (bs ! i) = p_base (as ! i)"
    if "map geom bs = map geom as" "owned_run as i s n" for as bs i s n
  proof -
    have "i < length (live as)" using that(2) by (simp add: owned_run_def)
    then have i: "i < length as" using live_nth by blast
    have e: "geom (bs ! j) = geom (as ! j)" if "j \<le> i" for j using geom_nth [OF \<open>map geom bs = map geom as\<close>] that i by simp
    have "area_pfns (bs ! j) = area_pfns (as ! j)" if "j < i" for j using geom_eqD(2) [OF e] that by simp
    then show ?thesis
      using that geom_eqD [OF e [OF order_refl]] live_geom [OF that(1)] by (simp add: owned_run_def pfn0_def)
  qed
  have "frame_run as p n v \<Longrightarrow> frame_run bs p n v" if "map geom bs = map geom as" for as bs p n v
  proof -
    assume "frame_run as p n v"
    then obtain i s where i: "owned_run as i s n" "v_base (as ! i) \<noteq> 0" "p = p_base (as ! i) + of_nat s * PAGE_SIZE"
      "v = v_base (as ! i) + of_nat s * PAGE_SIZE" unfolding frame_run_def by blast
    then show ?thesis unfolding frame_run_def using o [OF that i(1)] by (intro exI [of _ i] exI [of _ s]) simp
  qed
  from this [OF g] this [OF g [symmetric]] show "frame_run st' = frame_run st" by (intro ext) blast
  have "areas_direct bs" if "map geom bs = map geom as" "areas_direct as" for as bs
    using that
  proof (induction as arbitrary: bs)
    case (Cons a as)
    then obtain b bs' where b: "bs = b # bs'" "geom b = geom a" "map geom bs' = map geom as" by auto
    note eq = geom_eqD(1,6,8,9) [OF b(2)]
    show ?case
    proof (cases "valid a")
      case True
      then have "areas_direct as" using Cons.prems(2) by (simp add: areas_direct_def live_Cons)
      from Cons.IH [OF b(3) this] show ?thesis
        using Cons.prems(2) True unfolding areas_direct_def b(1) live_Cons eq by (simp add: eq)
    qed (simp add: areas_direct_def b(1) live_Cons eq)
  qed (simp add: areas_direct_def live_def)
  from this [OF g] this [OF g [symmetric]] show "areas_direct st' = areas_direct st" by blast
qed

lemma p_in_area_byte:
  assumes "area_ok a"
  shows "p_in_area a q 0 \<longleftrightarrow> unat q div 0x1000 \<in> area_pfns a"
proof -
  have e: "unat (p_end a) = 0x1000 * (pfn0 a + a_bit_max a)"
    using assms area_bounds(2) [OF assms] by (simp add: area_ok_def)
  show ?thesis
    using area_bounds(2) [OF assms] e
    by (auto simp: p_in_area_def area_pfns_def word_less_nat_alt word_le_nat_alt less_mult_imp_div_less div_less_iff_less_mult mult.commute
        less_eq_div_iff_mult_less_eq not_less)
qed

lemma frame_run_p2v:
  assumes ok: "gfp_ok st" and fr: "frame_run st p n v" and x: "x < 0x1000 * n"
  shows "p2v st (p + of_nat x) = Ok (v + of_nat x)"
proof -
  from fr obtain i s where own: "owned_run st i s n" and vb: "v_base (st ! i) \<noteq> 0"
    and p: "p = p_base (st ! i) + of_nat s * PAGE_SIZE" and v: "v = v_base (st ! i) + of_nat s * PAGE_SIZE"
    unfolding frame_run_def by blast
  have il: "i < length (live st)" and sn: "s + n \<le> a_bit_max (st ! i)" using own by (simp_all add: owned_run_def)
  note b = owned_run_bounds [OF ok own]
  have "0x1000 * (pfn0 (st ! i) + s) + x < 2 ^ 64" using b(2) x by simp
  then have u: "unat (p + of_nat x) = 0x1000 * (pfn0 (st ! i) + s) + x"
    using b(1) p by (simp add: unat_word_ariths(1) unat_of_nat take_bit_nat_eq_self)
  then have f: "unat (p + of_nat x) div 0x1000 = pfn0 (st ! i) + s + x div 0x1000" by simp
  have d: "x div 0x1000 < n" using x by (simp add: less_mult_imp_div_less mult.commute)
  have "p2v st (p + of_nat x) = Ok (v_base (st ! i) + (p + of_nat x - p_base (st ! i)))"
  proof (rule p2v_skip [OF il _ _ vb])
    show "p_in_area (st ! i) (p + of_nat x) 0"
      using p_in_area_byte [OF gfp_ok_live [OF ok il]] f d sn by (simp add: area_pfns_def)
    fix j assume j: "j < i"
    have "pfn0 (st ! i) + s + x div 0x1000 \<in> {pfn0 (st ! i) + s ..< pfn0 (st ! i) + s + n}" using d by simp
    then have "pfn0 (st ! i) + s + x div 0x1000 \<notin> area_pfns (st ! j)"
      using own j unfolding owned_run_def by blast
    then show "\<not> p_in_area (st ! j) (p + of_nat x) 0"
      using p_in_area_byte [OF gfp_ok_live [OF ok, of j]] f j il by simp
  qed
  then show ?thesis by (simp add: p v)
qed

lemma frame_run_bound:
  assumes ok: "gfp_ok st" and d: "areas_direct st" and fr: "frame_run st p n v"
  shows "unat p mod 0x1000 = 0 \<and> unat v mod 0x1000 = 0 \<and> v \<noteq> 0 \<and> unat p + 0x1000 * n \<le> 2 ^ 56 \<and> unat v + 0x1000 * n < 2 ^ 64"
proof -
  from fr obtain i s where own: "owned_run st i s n" and vb: "v_base (st ! i) \<noteq> 0"
    and p: "p = p_base (st ! i) + of_nat s * PAGE_SIZE" and v: "v = v_base (st ! i) + of_nat s * PAGE_SIZE"
    unfolding frame_run_def by blast
  have il: "i < length (live st)" and sn: "s + n \<le> a_bit_max (st ! i)" using own by (simp_all add: owned_run_def)
  note a = gfp_ok_live [OF ok il]
  have "st ! i \<in> set (live st)" using live_nth [OF il] nth_mem [OF il] by simp
  then have m: "unat (p_end (st ! i)) \<le> 2 ^ 56" using d by (auto simp: areas_direct_def)
  have pe: "unat (p_base (st ! i)) + 0x1000 * a_bit_max (st ! i) = unat (p_end (st ! i))"
    "unat (v_base (st ! i)) mod 0x1000 = 0" "unat (v_base (st ! i)) + 0x1000 * a_bit_max (st ! i) < 2 ^ 64"
    using a vb unsigned_less [of "v_end (st ! i)"] by (simp_all add: area_ok_def)
  have up: "unat p = 0x1000 * (pfn0 (st ! i) + s)" using owned_run_bounds(1) [OF ok own] p by simp
  have uv: "unat v = unat (v_base (st ! i)) + 0x1000 * s" using area_bounds(4) [OF a vb, of s] sn v by simp
  have "v \<noteq> 0" using uv vb by (metis add_is_0 unat_eq_zero)
  moreover have "unat p + 0x1000 * n \<le> 2 ^ 56" using up area_bounds(2) [OF a] pe(1) m sn by simp
  ultimately show ?thesis using up uv pe(2,3) sn by auto
qed

text \<open>The pages of a run are held exactly if their frames are in use.\<close>

lemma run_frames:
  assumes ok: "gfp_ok st" and own: "owned_run st i s n" and vb: "v_base (st ! i) \<noteq> 0"
    and g: "grant_at st (Virt w 1) j t"
  shows "w \<in> run (v_base (st ! i) + of_nat s * PAGE_SIZE) n \<longleftrightarrow>
    pfn0 (st ! j) + t \<in> {pfn0 (st ! i) + s ..< pfn0 (st ! i) + s + n}"
proof
  assume "w \<in> run (v_base (st ! i) + of_nat s * PAGE_SIZE) n"
  then obtain k where k: "k < n" "w = v_base (st ! i) + of_nat (s + k) * PAGE_SIZE"
    by (auto simp: run_def algebra_simps)
  from owned_run_sub [OF own, of k 1] k(1) have "owned_run st i (s + k) 1" by simp
  from grant_run [OF ok this vb] have "grant_at st (Virt w 1) i (s + k)" using k(2) by simp
  from grant_frame_iff [OF ok this g] show "pfn0 (st ! j) + t \<in> {pfn0 (st ! i) + s ..< pfn0 (st ! i) + s + n}"
    using k(1) by auto
next
  assume "pfn0 (st ! j) + t \<in> {pfn0 (st ! i) + s ..< pfn0 (st ! i) + s + n}"
  then obtain k where k: "k < n" "pfn0 (st ! j) + t = pfn0 (st ! i) + (s + k)"
    by (metis add.assoc atLeastLessThan_iff le_Suc_ex nat_add_left_cancel_less)
  from owned_run_sub [OF own, of k 1] k(1) have "owned_run st i (s + k) 1" by simp
  from grant_run [OF ok this vb] grant_unique [OF _ g] k(2)
  have "v_base (st ! i) + of_nat (s + k) * PAGE_SIZE = w" by metis
  then show "w \<in> run (v_base (st ! i) + of_nat s * PAGE_SIZE) n" using k(1) by (auto simp: run_def algebra_simps)
qed

lemma phys_alloc_law:
  assumes ok: "gfp_ok st" and d: "areas_direct st" and n: "0 < n" "n < 2 ^ 32"
  shows "(\<exists>e. phys_pages_alloc st n (unat PAGE_SIZE) = Ok (st, e, None) \<and> e \<noteq> 0) \<or>
    (\<exists>st' p v. phys_pages_alloc st n (unat PAGE_SIZE) = Ok (st', 0, Some p) \<and> gfp_ok st' \<and> map geom st' = map geom st \<and>
       frame_run st p n v \<and> run v n \<inter> held st = {} \<and> held st' = held st \<union> run v n)"
proof -
  have u: "u32_of n = n" using n by (simp add: u32_of_def)
  have k: "(0::nat) < 20" by simp
  have e: "- errno_num EINVAL \<noteq> 0" by (rule EINVAL_nonzero)
  have n0: "0 < u32_of n" using n u by simp
  note spec = phys_pages_loop_spec [OF ok k n0 e, unfolded u power_0 mult_1_right, folded phys_pages_alloc_hint_def phys_pages_alloc_def]
  from spec show ?thesis
  proof (elim disjE exE conjE)
    fix st' p i s
    assume a: "phys_pages_alloc st n (unat PAGE_SIZE) = Ok (st', 0, Some p)" and g: "phys_grant st st' 0 n p i s"
    have il: "i < length (live st)" and r: "aligned_run (st ! i) 0 n s" and p: "p = p_base (st ! i) + of_nat s * PAGE_SIZE"
      and eff: "alloc_effect st st' p n" using g unfolding phys_grant_def by blast+
    have own: "owned_run st i s n" by (rule aligned_run_owned [OF ok il r])
    have vb: "v_base (st ! i) \<noteq> 0" using d live_nth [OF il] nth_mem [OF il] by (auto simp: areas_direct_def)
    let ?v = "v_base (st ! i) + of_nat s * PAGE_SIZE" and ?F = "{pfn0 (st ! i) + s ..< pfn0 (st ! i) + s + n}"
    have fr: "frames p n = ?F" using owned_run_bounds(1) [OF ok own] p by (simp add: frames_def)
    have geo: "map geom st' = map geom st"
      using eff unfolding alloc_effect_def grown_def list_all2_conv_all_nth by (auto intro: nth_equalityI)
    have new: "?F \<inter> busy st = {}" and busy: "busy st' = busy st \<union> ?F"
      using eff avail_not_busy [OF ok] unfolding alloc_effect_def fr by auto
    note rf = run_frames [OF ok own vb]
    have "run ?v n \<inter> held st = {}" using rf new unfolding held_def by blast
    moreover have "w \<in> held st' \<longleftrightarrow> w \<in> held st \<union> run ?v n" for w
    proof -
      have "\<exists>j t. grant_at st (Virt w 1) j t" if w: "w \<in> run ?v n"
      proof -
        from w obtain k where k: "k < n" "w = v_base (st ! i) + of_nat (s + k) * PAGE_SIZE"
          by (auto simp: run_def algebra_simps)
        from owned_run_sub [OF own, of k 1] k(1) have "owned_run st i (s + k) 1" by simp
        from grant_run [OF ok this vb] k(2) show ?thesis by metis
      qed
      then show ?thesis unfolding held_geom [OF geo] busy Un_iff held_def [of st] mem_Collect_eq using rf by blast
    qed
    then have "held st' = held st \<union> run ?v n" by blast
    moreover have "frame_run st p n ?v" unfolding frame_run_def using own vb p by blast
    ultimately show ?thesis using a eff geo unfolding alloc_effect_def by blast
  qed blast
qed

lemma phys_free_law:
  assumes ok: "gfp_ok st" and fr: "frame_run st p n v" and n: "0 < n"
  shows "\<exists>st'. phys_free_pages st p n = (st', 0) \<and> gfp_ok st' \<and> map geom st' = map geom st \<and> held st' = held st - run v n"
proof -
  from fr obtain i s where own: "owned_run st i s n" and vb: "v_base (st ! i) \<noteq> 0"
    and p: "p = p_base (st ! i) + of_nat s * PAGE_SIZE" and v: "v = v_base (st ! i) + of_nat s * PAGE_SIZE"
    unfolding frame_run_def by blast
  let ?st' = "st[i := release_run (st ! i) s n]"
  have eff: "gfp_ok ?st'" "busy ?st' = busy st - {pfn0 (st ! i) + s ..< pfn0 (st ! i) + s + n}" "map geom ?st' = map geom st"
    using release_effect [OF ok own] by auto
  have "w \<in> held ?st' \<longleftrightarrow> w \<in> held st - run v n" for w
    unfolding held_geom [OF eff(3)] eff(2) v Diff_iff held_def [of st] mem_Collect_eq using run_frames [OF ok own vb] by blast
  then have "held ?st' = held st - run v n" by blast
  then show ?thesis using eff phys_free_pages_owned [OF ok own n] p by blast
qed

interpretation fp: frame_pool gfp_ok held "\<lambda>st. alloc_pages st 1" free_page v2p p2v
  areas_direct frame_run "\<lambda>st n. phys_pages_alloc st n (unat PAGE_SIZE)" phys_free_pages
proof unfold_locales
  fix st :: areas and n :: nat
  assume a: "gfp_ok st" "areas_direct st" "0 < n" "n < 2 ^ 32"
  show "(\<exists>e. phys_pages_alloc st n (unat PAGE_SIZE) = Ok (st, e, None) \<and> e \<noteq> 0) \<or>
    (\<exists>s' p v. phys_pages_alloc st n (unat PAGE_SIZE) = Ok (s', 0, Some p) \<and> gfp_ok s' \<and> areas_direct s' \<and>
       frame_run s' = frame_run st \<and> p2v s' = p2v st \<and> frame_run st p n v \<and> run v n \<inter> held st = {} \<and>
       held s' = held st \<union> run v n)"
    using phys_alloc_law [OF a]
  proof (elim disjE exE conjE)
    fix s' p v
    assume "map geom s' = map geom st"
    note g = frame_run_geom [OF this] p2v_geom [OF this]
    assume "phys_pages_alloc st n (unat PAGE_SIZE) = Ok (s', 0, Some p)" "gfp_ok s'" "frame_run st p n v"
      "run v n \<inter> held st = {}" "held s' = held st \<union> run v n"
    then show ?thesis using g a(2) by blast
  qed blast
next
  fix st :: areas and p n v
  assume a: "gfp_ok st" "frame_run st p n v" "0 < n"
  from phys_free_law [OF this] obtain s' where s': "phys_free_pages st p n = (s', 0)" "gfp_ok s'"
    "map geom s' = map geom st" "held s' = held st - run v n" by blast
  then show "\<exists>s'. phys_free_pages st p n = (s', 0) \<and> gfp_ok s' \<and> (areas_direct st \<longrightarrow> areas_direct s') \<and>
      frame_run s' = frame_run st \<and> p2v s' = p2v st \<and> held s' = held st - run v n"
    using frame_run_geom [OF s'(3)] p2v_geom [OF s'(3)] by blast
qed (use frame_run_p2v frame_run_sub frame_run_bound in auto)

section \<open>How many frames are left\<close>

definition frames_left :: "areas \<Rightarrow> nat" where
  "frames_left st = card (avail st)"

lemma finite_avail: "finite (avail st)"
  by (induction st) (simp_all add: area_pfns_def)

lemma none_left:
  assumes "\<And>b s. b \<in> set (live st) \<Longrightarrow> \<not> aligned_run b 0 1 s"
  shows "frames_left st = 0"
proof -
  have "area_pfns b - used_pfns b = {}" if b: "b \<in> set (live st)" for b
  proof (rule equals0I)
    fix f assume f: "f \<in> area_pfns b - used_pfns b"
    then obtain i where i: "f = pfn0 b + i" "i < a_bit_max b" by (auto simp: area_pfns_def dest: le_Suc_ex)
    then have "\<not> bm_bit (a_bitmap b) i" using f by (auto simp: used_pfns_def)
    then show False using assms [OF b, of i] i(2) by (auto simp: le_less_Suc_eq Suc_le_eq)
  qed
  then have "avail st = {}" unfolding avail_live by blast
  then show ?thesis by (simp add: frames_left_def)
qed

lemma effect_left:
  assumes "alloc_effect st st' p 1"
  shows "frames_left st = frames_left st' + 1" and "map geom st' = map geom st"
proof -
  have "frames p 1 \<subseteq> avail st" "avail st' = avail st - frames p 1" "card (frames p 1) = 1"
    using assms by (simp_all add: alloc_effect_def frames_def)
  moreover from this have "card (avail st) \<ge> 1" using card_mono [OF finite_avail, of "frames p 1" st] by simp
  ultimately show "frames_left st = frames_left st' + 1"
    by (simp add: frames_left_def card_Diff_subset finite_subset [OF _ finite_avail])
  show "map geom st' = map geom st"
    using assms unfolding alloc_effect_def grown_def list_all2_conv_all_nth by (auto intro: nth_equalityI)
qed

lemma alloc_left:
  assumes ok: "gfp_ok st" and d: "areas_direct st" and a: "alloc_pages st 1 = Ok (st', v)"
  shows "if v = 0 then frames_left st = 0 else frames_left st = frames_left st' + 1 \<and> areas_direct st'"
proof -
  have k: "(0::nat) < 20" "(0::nat) < 1" by simp_all
  note spec = alloc_pages_loop_spec [OF ok k EINVAL_nonzero]
  from spec show ?thesis
  proof (elim disjE exE conjE)
    fix st1 w i s
    assume *: "alloc_pages_loop st (- errno_num EINVAL) 1 (unat PAGE_SIZE * 2 ^ 0) 0 = Ok (st1, 0, Some w)" "virt_grant st st1 0 1 w i s"
    have "w \<noteq> 0" by (rule virt_grant_at(3) [OF ok k(2) *(2)])
    moreover have "st1 = st'" "w = v" using a *(1) by (simp_all add: alloc_pages_def alloc_pages_aligned_def alloc_pages_aligned_hint_def)
    moreover have "alloc_effect st st1 (memory_area_v2p (st ! i) w) 1" using *(2) unfolding virt_grant_def by (elim conjE)
    ultimately show ?thesis using effect_left d frame_run_geom(2) by metis
  next
    fix e
    assume *: "alloc_pages_loop st (- errno_num EINVAL) 1 (unat PAGE_SIZE * 2 ^ 0) 0 = Ok (st, e, None)" "e \<noteq> 0"
      "\<forall>b \<in> set (live st). v_base b \<noteq> 0 \<longrightarrow> (\<forall>s. \<not> aligned_run b 0 1 s)"
    have "v = 0" using a *(1,2) by (simp add: alloc_pages_def alloc_pages_aligned_def alloc_pages_aligned_hint_def)
    moreover have "frames_left st = 0" by (rule none_left) (use *(3) d in \<open>auto simp: areas_direct_def\<close>)
    ultimately show ?thesis by simp
  qed
qed

lemma palloc_left:
  assumes ok: "gfp_ok st" and a: "phys_pages_alloc st 1 (unat PAGE_SIZE) = Ok (st', e, r)"
  shows "case r of None \<Rightarrow> frames_left st = 0 | Some p \<Rightarrow> frames_left st = frames_left st' + 1"
proof -
  have u: "u32_of 1 = 1" by (simp add: u32_of_def)
  have k: "(0::nat) < 20" and n0: "0 < u32_of 1" and e: "- errno_num EINVAL \<noteq> 0" using u EINVAL_nonzero by simp_all
  note spec = phys_pages_loop_spec [OF ok k n0 e, unfolded u]
  from spec show ?thesis
  proof (elim disjE exE conjE)
    fix st1 p i s
    assume "phys_pages_loop st (- errno_num EINVAL) 1 (unat PAGE_SIZE * 2 ^ 0) INVALID_PHYS_ADDR = Ok (st1, 0, Some p)" "phys_grant st st1 0 1 p i s"
    then show ?thesis using a effect_left(1) by (auto simp: phys_grant_def phys_pages_alloc_def phys_pages_alloc_hint_def)
  next
    fix e'
    assume *: "phys_pages_loop st (- errno_num EINVAL) 1 (unat PAGE_SIZE * 2 ^ 0) INVALID_PHYS_ADDR = Ok (st, e', None)"
      "\<forall>b \<in> set (live st). \<forall>s. \<not> aligned_run b 0 1 s"
    have "frames_left st = 0" by (rule none_left) (use *(2) in auto)
    then show ?thesis using a *(1) by (simp add: phys_pages_alloc_def phys_pages_alloc_hint_def)
  qed
qed

end
