(* ===== verification/Paging.thy ===== *)
theory Paging
  imports Page_Pool
begin

text \<open>
  The page-table code of \<^verbatim>\<open>mm/paging.c\<close> with the RISC-V entry format and level tables of
  \<^verbatim>\<open>arch/riscv/paging.c\<close> and \<^verbatim>\<open>asm/paging.h\<close>. A table is named by its virtual address and is
  read and written entry by entry; virtual and physical addresses and sizes are natural
  numbers below $2^{64}$ with the wrap-around of the C sums written out, entries are 64-bit
  words. Tables come from and go back to the page-frame allocator; TLB maintenance and table
  releases are recorded in the order in which they happen.
\<close>

section \<open>Entries\<close>

definition PTE_V :: u64 where "PTE_V = 1"
definition PTE_R :: u64 where "PTE_R = 2"
definition PTE_W :: u64 where "PTE_W = 4"
definition PTE_X :: u64 where "PTE_X = 8"
definition PTE_U :: u64 where "PTE_U = 16"
definition PTE_G :: u64 where "PTE_G = 32"
definition PTE_A :: u64 where "PTE_A = 64"
definition PTE_D :: u64 where "PTE_D = 128"

definition FLAG_MASK :: u64 where "FLAG_MASK = 0x3FF"

definition PAGE_TERMINAL_FLAGS :: u64 where
  "PAGE_TERMINAL_FLAGS = PTE_R OR PTE_W OR PTE_X"

definition GRINCH_MEM_R :: u8 where "GRINCH_MEM_R = 1"
definition GRINCH_MEM_W :: u8 where "GRINCH_MEM_W = 2"
definition GRINCH_MEM_X :: u8 where "GRINCH_MEM_X = 4"
definition GRINCH_MEM_U :: u8 where "GRINCH_MEM_U = 8"
definition GRINCH_MEM_DEVICE :: u8 where "GRINCH_MEM_DEVICE = 16"

definition arch_paging_access_flags :: "u8 \<Rightarrow> u64" where
  "arch_paging_access_flags flags =
     (let ret = PTE_V OR
            (if flags AND GRINCH_MEM_R \<noteq> 0 then PTE_R else 0) OR
            (if flags AND GRINCH_MEM_W \<noteq> 0 then PTE_W else 0) OR
            (if flags AND GRINCH_MEM_U \<noteq> 0 then PTE_U else PTE_G) OR
            (if flags AND GRINCH_MEM_X \<noteq> 0 then PTE_X else 0)
      in ret OR (PTE_A OR PTE_D))"

definition pte2phys :: "u64 \<Rightarrow> nat" where
  "pte2phys pte = unat (push_bit 2 (pte AND NOT FLAG_MASK))"

definition phys2pte :: "nat \<Rightarrow> u64" where
  "phys2pte phys = of_nat (phys div 4)"

section \<open>Levels\<close>

text \<open>
  A level of the translation: its number counted from the leaves, whether it belongs to a
  guest (stage 2) format, and whether its tables have two extra index bits.
\<close>

record paging =
  level :: nat
  guest :: bool
  wide :: bool

definition PAGE_LEVEL_BITS :: nat where "PAGE_LEVEL_BITS = 9"

definition UNTRANSLATED_BITS :: "nat \<Rightarrow> nat" where
  "UNTRANSLATED_BITS l = l * PAGE_LEVEL_BITS + 12"

definition page_size :: "paging \<Rightarrow> nat" where
  "page_size l = 2 ^ UNTRANSLATED_BITS (level l)"

definition nr_entries :: "paging \<Rightarrow> nat" where
  "nr_entries l = 2 ^ (PAGE_LEVEL_BITS + (if wide l then 2 else 0))"

definition get_entry :: "paging \<Rightarrow> nat \<Rightarrow> nat" where
  "get_entry l virt = virt div 2 ^ UNTRANSLATED_BITS (level l) mod nr_entries l"

definition entry_valid :: "u64 \<Rightarrow> bool" where
  "entry_valid pte \<longleftrightarrow> pte AND PTE_V \<noteq> 0"

definition set_terminal :: "paging \<Rightarrow> nat \<Rightarrow> u64 \<Rightarrow> u64" where
  "set_terminal l phys flags = (if guest l then PTE_U else 0) OR flags OR phys2pte phys"

definition get_phys :: "paging \<Rightarrow> u64 \<Rightarrow> nat \<Rightarrow> nat" where
  "get_phys l pte virt =
     (if PTE_V AND pte = 0 \<or> PAGE_TERMINAL_FLAGS AND pte = 0 then unat INVALID_PHYS_ADDR
      else pte2phys pte OR virt mod 2 ^ UNTRANSLATED_BITS (level l))"

definition get_flags :: "u64 \<Rightarrow> u64" where
  "get_flags pte = pte AND FLAG_MASK"

definition set_next_pt :: "paging \<Rightarrow> nat \<Rightarrow> u64" where
  "set_next_pt l next_pt = (if guest l then 0 else PTE_G) OR PTE_V OR phys2pte next_pt"

definition get_next_pt :: "u64 \<Rightarrow> nat" where
  "get_next_pt pte = pte2phys pte"

definition page_table_empty :: "paging \<Rightarrow> (nat \<Rightarrow> u64) \<Rightarrow> bool" where
  "page_table_empty l tbl =
     list_all (\<lambda>i. \<not> entry_valid (tbl i)) [0 ..< (if wide l then 2 * 2 ^ (2 + PAGE_LEVEL_BITS)
                                                else 2 ^ PAGE_LEVEL_BITS)]"

definition sv_level :: "nat \<Rightarrow> paging" where
  "sv_level l = \<lparr>level = l, guest = False, wide = False\<rparr>"

definition svx4_level :: "nat \<Rightarrow> bool \<Rightarrow> paging" where
  "svx4_level l root = \<lparr>level = l, guest = True, wide = root\<rparr>"

definition riscv_Sv39 :: "paging list" where
  "riscv_Sv39 = [sv_level 2, sv_level 1, sv_level 0]"

definition riscv_Sv48 :: "paging list" where
  "riscv_Sv48 = [sv_level 3, sv_level 2, sv_level 1, sv_level 0]"

definition riscv_Sv39x4 :: "paging list" where
  "riscv_Sv39x4 = [svx4_level 2 True, svx4_level 1 False, svx4_level 0 False]"

definition riscv_Sv48x4 :: "paging list" where
  "riscv_Sv48x4 = [svx4_level 3 True, svx4_level 2 False, svx4_level 1 False, svx4_level 0 False]"

definition root_paging :: "paging list" where
  "root_paging = riscv_Sv39"

definition vm_paging :: "paging list" where
  "vm_paging = riscv_Sv39x4"

fun paging_slot_size :: "paging list \<Rightarrow> nat" where
  "paging_slot_size [] = 1"
| "paging_slot_size (l # ls) = (if page_size l = 0 then 2 ^ PAGE_LEVEL_BITS * paging_slot_size ls else page_size l)"

section \<open>State\<close>

datatype tlb_scope = TLB_SCOPE_NONE | TLB_SCOPE_LOCAL | TLB_SCOPE_GUEST

datatype event = Flush_All | Flush_Page nat | Flush_Guest_All | Freed u64

text \<open>
  The tables in memory, the allocator, the address of \<^verbatim>\<open>kernel_root\<close>, the page table of the
  process that is current on this CPU, and the events so far (newest first).
\<close>

record pgs =
  tables :: "u64 \<Rightarrow> nat \<Rightarrow> u64"
  pool :: areas
  kernel_root :: u64
  current_table :: "u64 option"
  events :: "event list"

definition write_entry :: "u64 \<Rightarrow> nat \<Rightarrow> u64 \<Rightarrow> pgs \<Rightarrow> pgs" where
  "write_entry pt i e st = st\<lparr>tables := (tables st)(pt := (tables st pt)(i := e))\<rparr>"

definition zalloc_page :: "pgs \<Rightarrow> (pgs \<times> u64) result" where
  "zalloc_page st =
     (case alloc_pages (pool st) 1 of
        Ok (as, ret) \<Rightarrow>
          if ret = 0 then Ok (st\<lparr>pool := as\<rparr>, 0)
          else Ok (st\<lparr>pool := as, tables := (tables st)(ret := \<lambda>_. 0)\<rparr>, ret)
      | Err e \<Rightarrow> Err e
      | Panic \<Rightarrow> Panic)"

definition note_event :: "event \<Rightarrow> pgs \<Rightarrow> pgs" where
  "note_event ev st = st\<lparr>events := ev # events st\<rparr>"

fun free_tables :: "u64 list \<Rightarrow> pgs \<Rightarrow> pgs \<times> int" where
  "free_tables [] st = (st, 0)"
| "free_tables (pt # pts) st =
     (let (as, err) = free_page (pool st) pt;
          st = note_event (Freed pt) (st\<lparr>pool := as\<rparr>)
      in if err \<noteq> 0 then (st, err) else free_tables pts st)"

definition w64 :: "nat \<Rightarrow> nat" where
  "w64 x = x mod 2 ^ 64"

text \<open>
  The walk of \<^verbatim>\<open>paging_get_phys\<close>. Running past the last level reads behind the level table,
  which has no defined outcome and is \<open>Panic\<close> here.
\<close>

fun walk :: "paging list \<Rightarrow> pgs \<Rightarrow> u64 \<Rightarrow> nat \<Rightarrow> nat result" where
  "walk [] st pt virt = Panic"
| "walk (l # ls) st pt virt =
     (let pte = tables st pt (get_entry l virt)
      in if \<not> entry_valid pte then Ok (unat INVALID_PHYS_ADDR)
         else let phys = get_phys l pte virt
              in if phys \<noteq> unat INVALID_PHYS_ADDR then Ok phys
                 else case p2v (pool st) (of_nat (get_next_pt pte)) of
                        Ok pt' \<Rightarrow> walk ls st pt' virt
                      | _ \<Rightarrow> Panic)"

definition paging_get_phys :: "pgs \<Rightarrow> u64 \<Rightarrow> u64 \<Rightarrow> u64 result" where
  "paging_get_phys st pt virt =
     (case walk root_paging st pt (unat virt) of Ok p \<Rightarrow> Ok (of_nat p) | Err e \<Rightarrow> Err e | Panic \<Rightarrow> Panic)"

text \<open>\<^verbatim>\<open>v2p\<close> falls back to a walk of the kernel's tables outside of the memory areas.\<close>

definition virt_to_phys :: "pgs \<Rightarrow> u64 \<Rightarrow> u64 result" where
  "virt_to_phys st =
     v2p (pool st) (\<lambda>v. case paging_get_phys st (kernel_root st) v of Ok p \<Rightarrow> p | _ \<Rightarrow> INVALID_PHYS_ADDR)"

definition flush_unmapped :: "tlb_scope \<Rightarrow> nat \<Rightarrow> u64 list \<Rightarrow> pgs \<Rightarrow> pgs" where
  "flush_unmapped scope virt dead st =
     (case scope of
        TLB_SCOPE_NONE \<Rightarrow> st
      | TLB_SCOPE_LOCAL \<Rightarrow> note_event (if dead \<noteq> [] then Flush_All else Flush_Page virt) st
      | TLB_SCOPE_GUEST \<Rightarrow> note_event Flush_Guest_All st)"

definition flush_mapped :: "tlb_scope \<Rightarrow> nat \<Rightarrow> pgs \<Rightarrow> pgs" where
  "flush_mapped scope virt st =
     (case scope of
        TLB_SCOPE_NONE \<Rightarrow> st
      | TLB_SCOPE_LOCAL \<Rightarrow> note_event (Flush_Page virt) st
      | TLB_SCOPE_GUEST \<Rightarrow> note_event Flush_Guest_All st)"

section \<open>Mapping and unmapping\<close>

text \<open>
  The way up of \<^verbatim>\<open>paging_destroy\<close>: the entry the walk stopped at is cleared, and as long as
  that empties its table the entry above is cleared as well. The path lists the levels and
  tables of the walk, deepest first; the result is the tables that became empty, in the order
  in which they were collected.
\<close>

fun clear_up :: "u64 \<Rightarrow> nat \<Rightarrow> (paging \<times> u64) list \<Rightarrow> pgs \<Rightarrow> pgs \<times> u64 list" where
  "clear_up root virt [] st = (st, [])"
| "clear_up root virt ((l, pt) # path) st =
     (let st = write_entry pt (get_entry l virt) 0 st
      in if path = [] \<or> \<not> page_table_empty l (tables st pt) then (st, [])
         else if length path = 1 \<and> virt \<ge> unat USER_END \<and> root = kernel_root st then (st, [])
         else let (st, dead) = clear_up root virt path st in (st, pt # dead))"

lemma page_size_pos [simp]: "0 < page_size l"
  by (simp add: page_size_def)

lemma paging_slot_size_pos [simp]: "0 < paging_slot_size ls"
  by (induction ls) simp_all

lemma slot_shrinks:
  "\<not> sz \<le> paging_slot_size ls - virt mod paging_slot_size ls \<Longrightarrow>
   sz + virt mod paging_slot_size ls - paging_slot_size ls < sz"
  using mod_less_divisor [OF paging_slot_size_pos, of virt ls] by linarith

text \<open>
  The loops and walks of \<^verbatim>\<open>split_hugepage\<close>, \<^verbatim>\<open>paging_destroy\<close> and \<^verbatim>\<open>paging_create\<close>, which
  call each other: a huge page is split by creating the finer mapping one level down, and a
  huge page is created after destroying what it replaces. \<open>huge\<close> is the flag
  \<^verbatim>\<open>PAGING_HUGE\<close>.
  They end: a call one level down has a shorter list of levels; on the same level the calls go
  from the creating to the destroying routines; and the loops shrink the remaining size.
\<close>

function
  split_hugepage :: "paging list \<Rightarrow> u64 \<Rightarrow> nat \<Rightarrow> bool \<Rightarrow> tlb_scope \<Rightarrow> pgs \<Rightarrow> (pgs \<times> int) result" and
  destroy_walk :: "paging list \<Rightarrow> u64 \<Rightarrow> nat \<Rightarrow> nat \<Rightarrow> bool \<Rightarrow> tlb_scope \<Rightarrow> (paging \<times> u64) list \<Rightarrow> pgs \<Rightarrow>
    (pgs \<times> int \<times> (paging \<times> u64) list \<times> paging list) result" and
  destroy_loop :: "paging list \<Rightarrow> u64 \<Rightarrow> tlb_scope \<Rightarrow> nat \<Rightarrow> nat \<Rightarrow> bool \<Rightarrow> pgs \<Rightarrow> (pgs \<times> int) result" and
  paging_destroy :: "paging list \<Rightarrow> u64 \<Rightarrow> tlb_scope \<Rightarrow> nat \<Rightarrow> nat \<Rightarrow> bool \<Rightarrow> pgs \<Rightarrow> (pgs \<times> int) result" and
  create_walk :: "paging list \<Rightarrow> u64 \<Rightarrow> tlb_scope \<Rightarrow> nat \<Rightarrow> nat \<Rightarrow> nat \<Rightarrow> u64 \<Rightarrow> bool \<Rightarrow> pgs \<Rightarrow>
    (pgs \<times> int \<times> paging) result" and
  create_loop :: "paging list \<Rightarrow> u64 \<Rightarrow> tlb_scope \<Rightarrow> nat \<Rightarrow> nat \<Rightarrow> nat \<Rightarrow> u64 \<Rightarrow> bool \<Rightarrow> pgs \<Rightarrow> (pgs \<times> int) result" and
  paging_create :: "paging list \<Rightarrow> u64 \<Rightarrow> tlb_scope \<Rightarrow> nat \<Rightarrow> nat \<Rightarrow> nat \<Rightarrow> u64 \<Rightarrow> bool \<Rightarrow> pgs \<Rightarrow> (pgs \<times> int) result"
where
  "split_hugepage ls pt virt huge scope st =
     (case ls of [] \<Rightarrow> Panic
      | l # sub \<Rightarrow>
          let i = get_entry l virt;
              pte = tables st pt i;
              phys = get_phys l pte virt
          in if phys = unat INVALID_PHYS_ADDR then Ok (st, 0)
             else let phys = phys - phys mod page_size l;
                      virt = virt - virt mod page_size l;
                      flags = get_flags pte
                  in (case zalloc_page st of
                       Ok (st, tbl) \<Rightarrow>
                         if tbl = 0 then Ok (st, - errno_num ENOMEM)
                         else (case virt_to_phys st tbl of
                                 Ok next \<Rightarrow>
                                   paging_create sub tbl scope phys (page_size l) virt flags huge
                                     (write_entry pt i (set_next_pt l (unat next)) st)
                               | _ \<Rightarrow> Panic)
                     | _ \<Rightarrow> Panic))"
| "destroy_walk ls pt virt sz huge scope path st =
     (case ls of [] \<Rightarrow> Panic
      | l # sub \<Rightarrow>
          let i = get_entry l virt;
              pte = tables st pt i;
              path = (l, pt) # path;
              ps = (if page_size l \<noteq> 0 then page_size l else unat PAGE_SIZE);
              page_start = virt - virt mod ps
          in if \<not> entry_valid pte then Ok (st, 0, path, ls)
             else if get_phys l pte virt \<noteq> unat INVALID_PHYS_ADDR \<and>
                     virt \<le> page_start \<and> w64 (virt + (sz - 1)) \<ge> w64 (page_start + (ps - 1))
             then Ok (st, 0, path, ls)
             else (case (if get_phys l pte virt \<noteq> unat INVALID_PHYS_ADDR
                        then split_hugepage ls pt virt huge scope st else Ok (st, 0)) of
                    Ok (st, err) \<Rightarrow>
                      if err \<noteq> 0 then Ok (st, err, path, ls)
                      else (case p2v (pool st) (of_nat (get_next_pt (tables st pt i))) of
                              Ok pt' \<Rightarrow> destroy_walk sub pt' virt sz huge scope path st
                            | _ \<Rightarrow> Panic)
                  | _ \<Rightarrow> Panic))"
| "destroy_loop ls root scope virt sz huge st =
     (if sz = 0 then Ok (st, 0)
      else case destroy_walk ls root virt sz huge scope [] st of
             Ok (st, err, path, rest) \<Rightarrow>
               if err \<noteq> 0 then Ok (st, err)
               else let ps = paging_slot_size rest;
                        advance = ps - virt mod ps;
                        (st, dead) = clear_up root virt path st;
                        st = flush_unmapped scope virt dead st;
                        (st, err) = free_tables (rev dead) st
                    in if err \<noteq> 0 then Ok (st, err)
                       else if advance \<ge> sz then Ok (st, 0)
                       else destroy_loop ls root scope (w64 (virt + advance)) (sz - advance) huge st
           | _ \<Rightarrow> Panic)"
| "paging_destroy ls root scope virt sz huge st =
     destroy_loop ls root scope (virt - virt mod unat PAGE_SIZE) (unat (page_up (of_nat sz))) huge st"
| "create_walk ls pt scope phys sz virt flags huge st =
     (case ls of [] \<Rightarrow> Panic
      | l # sub \<Rightarrow>
          let i = get_entry l virt
          in if page_size l > 0 \<and> page_size l \<le> sz \<and> (phys OR virt) mod page_size l = 0 \<and>
                (huge \<or> page_size l = unat PAGE_SIZE)
             then (case (if page_size l > unat PAGE_SIZE
                         then paging_destroy ls pt scope virt (page_size l) huge st else Ok (st, 0)) of
                     Ok (st, err) \<Rightarrow> Ok (write_entry pt i (set_terminal l phys flags) st, 0, l)
                   | _ \<Rightarrow> Panic)
             else if entry_valid (tables st pt i)
             then (case split_hugepage ls pt virt huge scope st of
                     Ok (st, err) \<Rightarrow>
                       if err \<noteq> 0 then Ok (st, err, l)
                       else (case p2v (pool st) (of_nat (get_next_pt (tables st pt i))) of
                               Ok pt' \<Rightarrow> create_walk sub pt' scope phys sz virt flags huge st
                             | _ \<Rightarrow> Panic)
                   | _ \<Rightarrow> Panic)
             else (case zalloc_page st of
                    Ok (st, tbl) \<Rightarrow>
                      if tbl = 0 then Ok (st, - errno_num ENOMEM, l)
                      else (case virt_to_phys st tbl of
                              Ok next \<Rightarrow>
                                create_walk sub tbl scope phys sz virt flags huge
                                  (write_entry pt i (set_next_pt l (unat next)) st)
                            | _ \<Rightarrow> Panic)
                  | _ \<Rightarrow> Panic))"
| "create_loop ls root scope phys sz virt flags huge st =
     (if sz = 0 then Ok (st, 0)
      else case create_walk ls root scope phys sz virt flags huge st of
             Ok (st, err, l) \<Rightarrow>
               if err \<noteq> 0 then Ok (st, err)
               else create_loop ls root scope (w64 (phys + page_size l)) (sz - page_size l)
                      (w64 (virt + page_size l)) flags huge (flush_mapped scope virt st)
           | _ \<Rightarrow> Panic)"
| "paging_create ls root scope phys sz virt flags huge st =
     create_loop ls root scope (phys - phys mod unat PAGE_SIZE) (unat (page_up (of_nat sz)))
       (virt - virt mod unat PAGE_SIZE) flags huge st"
  by pat_completeness auto

termination
  by (relation "measures
      [case_sum (case_sum (\<lambda>x. length (fst x)) (case_sum (\<lambda>x. length (fst x)) (\<lambda>x. length (fst x))))
         (case_sum (case_sum (\<lambda>x. length (fst x)) (\<lambda>x. length (fst x)))
           (case_sum (\<lambda>x. length (fst x)) (\<lambda>x. length (fst x)))),
       case_sum (case_sum (\<lambda>_. 0) (case_sum (\<lambda>_. 1) (\<lambda>_. 2)))
         (case_sum (case_sum (\<lambda>_. 3) (\<lambda>_. 4)) (case_sum (\<lambda>_. 5) (\<lambda>_. 6))),
       case_sum (case_sum (\<lambda>_. 0) (case_sum (\<lambda>_. 0) (\<lambda>(_, _, _, _, sz, _). sz)))
         (case_sum (case_sum (\<lambda>_. 0) (\<lambda>_. 0)) (case_sum (\<lambda>(_, _, _, _, sz, _). sz) (\<lambda>_. 0)))]")
     (auto simp: slot_shrinks)

declare split_hugepage.simps [simp del] destroy_walk.simps [simp del] destroy_loop.simps [simp del]
  paging_destroy.simps [simp del] create_walk.simps [simp del] create_loop.simps [simp del]
  paging_create.simps [simp del]

section \<open>Interface\<close>

definition tlb_scope_of :: "pgs \<Rightarrow> u64 \<Rightarrow> tlb_scope" where
  "tlb_scope_of st pt =
     (if pt = kernel_root st then TLB_SCOPE_LOCAL
      else if current_table st = Some pt then TLB_SCOPE_LOCAL
      else TLB_SCOPE_NONE)"

definition unmap_range :: "pgs \<Rightarrow> u64 \<Rightarrow> u64 \<Rightarrow> u64 \<Rightarrow> (pgs \<times> int) result" where
  "unmap_range st pt vaddr sz =
     paging_destroy root_paging pt (tlb_scope_of st pt) (unat vaddr) (unat sz) False st"

definition map_range :: "pgs \<Rightarrow> u64 \<Rightarrow> u64 \<Rightarrow> u64 \<Rightarrow> u64 \<Rightarrow> u8 \<Rightarrow> (pgs \<times> int) result" where
  "map_range st pt vaddr paddr sz grinch_flags =
     paging_create root_paging pt (tlb_scope_of st pt) (unat paddr) (unat sz) (unat vaddr)
       (arch_paging_access_flags grinch_flags) True st"

definition vm_unmap_range :: "pgs \<Rightarrow> u64 \<Rightarrow> u64 \<Rightarrow> u64 \<Rightarrow> (pgs \<times> int) result" where
  "vm_unmap_range st pt vaddr sz =
     paging_destroy vm_paging pt TLB_SCOPE_GUEST (unat vaddr) (unat sz) False st"

definition vm_map_range :: "pgs \<Rightarrow> u64 \<Rightarrow> u64 \<Rightarrow> u64 \<Rightarrow> u64 \<Rightarrow> u8 \<Rightarrow> (pgs \<times> int) result" where
  "vm_map_range st pt vaddr paddr sz grinch_flags =
     paging_create vm_paging pt TLB_SCOPE_GUEST (unat paddr) (unat sz) (unat vaddr)
       (arch_paging_access_flags grinch_flags) True st"

definition map_osmem :: "pgs \<Rightarrow> u64 \<Rightarrow> u64 \<Rightarrow> u64 \<Rightarrow> u8 \<Rightarrow> (pgs \<times> int) result" where
  "map_osmem st root vaddr sz flags =
     (case virt_to_phys st vaddr of
        Ok phys \<Rightarrow> map_range st root vaddr phys sz flags
      | Err e \<Rightarrow> Err e
      | Panic \<Rightarrow> Panic)"

text \<open>The mappings \<^verbatim>\<open>paging_init\<close> makes, for the linker's section bounds as a list of requests.\<close>

fun map_osmem_all :: "(u64 \<times> u64 \<times> u8) list \<Rightarrow> pgs \<Rightarrow> (pgs \<times> int) result" where
  "map_osmem_all [] st = Ok (st, 0)"
| "map_osmem_all ((vaddr, sz, flags) # rs) st =
     (case map_osmem st (kernel_root st) vaddr sz flags of
        Ok (st, err) \<Rightarrow> if err \<noteq> 0 then Ok (st, err) else map_osmem_all rs st
      | Err e \<Rightarrow> Err e
      | Panic \<Rightarrow> Panic)"

text \<open>The root slots \<^verbatim>\<open>paging_prealloc\<close> fills, for a given number of slots.\<close>

fun prealloc_loop :: "nat \<Rightarrow> u64 \<Rightarrow> nat \<Rightarrow> pgs \<Rightarrow> (pgs \<times> int) result" where
  "prealloc_loop 0 pt virt st = Ok (st, 0)"
| "prealloc_loop (Suc slots) pt virt st =
     (let root = hd root_paging;
          virt' = w64 (virt + paging_slot_size root_paging);
          i = get_entry root virt
      in if entry_valid (tables st pt i) then prealloc_loop slots pt virt' st
         else case zalloc_page st of
                Ok (st, sub) \<Rightarrow>
                  if sub = 0 then Ok (st, - errno_num ENOMEM)
                  else (case virt_to_phys st sub of
                          Ok next \<Rightarrow>
                            prealloc_loop slots pt virt' (write_entry pt i (set_next_pt root (unat next)) st)
                        | _ \<Rightarrow> Panic)
              | _ \<Rightarrow> Panic)"

definition paging_prealloc :: "pgs \<Rightarrow> u64 \<Rightarrow> u64 \<Rightarrow> u64 \<Rightarrow> (pgs \<times> int) result" where
  "paging_prealloc st pt vaddr sz =
     (if sz = 0 then Ok (st, 0)
      else let slot_size = paging_slot_size root_paging;
               virt = unat vaddr - unat vaddr mod slot_size;
               slots = unat (vaddr + sz - 1 - of_nat virt) div slot_size + 1
           in prealloc_loop slots pt virt st)"

text \<open>The kernel's root entries in a new address space (\<^verbatim>\<open>arch_mm_init\<close>).\<close>

definition PTES_PER_PT :: nat where
  "PTES_PER_PT = unat PAGE_SIZE div 8"

definition arch_mm_init :: "u64 \<Rightarrow> pgs \<Rightarrow> pgs" where
  "arch_mm_init pt st =
     (let kernel_index = PTES_PER_PT div 2
      in note_event Flush_All
           (st\<lparr>tables := (tables st)(pt := \<lambda>i.
              if kernel_index \<le> i \<and> i < PTES_PER_PT then tables st (kernel_root st) i
              else tables st pt i)\<rparr>))"

end
