(* ===== verification/Paging_Tree.thy ===== *)
theory Paging_Tree
  imports Paging
begin

text \<open>
  The shape of a page table in memory. \<open>leaf\<close> and \<open>ptr\<close> classify entries, \<open>tset\<close> is the set
  of tables below a root, \<open>wft\<close> says that these form a tree (no table is reached twice) whose
  leaves are aligned, and \<open>xlate\<close> is the translation the tree stands for. The lemmas say how
  writing an entry, linking a new table and changing a subtree act on the three.
\<close>

section \<open>Entry encoding\<close>

definition leaf :: "u64 \<Rightarrow> bool" where
  "leaf e \<longleftrightarrow> PTE_V AND e \<noteq> 0 \<and> PAGE_TERMINAL_FLAGS AND e \<noteq> 0"

definition ptr :: "u64 \<Rightarrow> bool" where
  "ptr e \<longleftrightarrow> PTE_V AND e \<noteq> 0 \<and> PAGE_TERMINAL_FLAGS AND e = 0"

lemma entry_valid_iff: "entry_valid e \<longleftrightarrow> leaf e \<or> ptr e"
  by (auto simp: entry_valid_def leaf_def ptr_def and.commute)

lemma leaf_not_ptr: "leaf e \<Longrightarrow> \<not> ptr e"
  by (simp add: leaf_def ptr_def)

lemma zero_entry [simp]: "\<not> leaf 0" "\<not> ptr 0" "\<not> entry_valid 0"
  by (simp_all add: leaf_def ptr_def entry_valid_def)

lemma FLAG_MASK_mask: "FLAG_MASK = mask 10"
  by (simp add: FLAG_MASK_def mask_eq_exp_minus_1)

lemma mask_parts: "x = (x AND NOT FLAG_MASK) OR (x AND FLAG_MASK)" for x :: u64
  by (simp add: bit.conj_disj_distrib [symmetric])

lemma low_flags: "F AND NOT FLAG_MASK = 0 \<Longrightarrow> F AND FLAG_MASK = F" for F :: u64
  using mask_parts [of F] by simp

lemma flags_split:
  fixes F :: u64
  assumes "F AND NOT FLAG_MASK = 0" and "phys mod 0x1000 = 0" and "phys < 2 ^ 64"
  shows "pte2phys (F OR phys2pte phys) = phys" and "get_flags (F OR phys2pte phys) = F"
    and "F' AND FLAG_MASK = F' \<Longrightarrow> F' AND (F OR phys2pte phys) = F' AND F"
proof -
  obtain k where k: "phys = 0x1000 * k" using assms(2) by auto
  have kk: "phys2pte phys = push_bit 10 (of_nat k)"
    by (simp add: phys2pte_def k push_bit_eq_mult)
  have F: "F AND FLAG_MASK = F" by (rule low_flags [OF assms(1)])
  have z: "push_bit 10 K AND FLAG_MASK = 0" for K :: u64
    unfolding FLAG_MASK_mask by (rule bit_eqI) (simp add: bit_simps)
  then have n: "push_bit 10 K AND NOT FLAG_MASK = push_bit 10 K" for K :: u64
    using mask_parts [of "push_bit 10 K"] by simp
  show "pte2phys (F OR phys2pte phys) = phys"
    unfolding pte2phys_def kk bit.conj_disj_distrib2 assms(1) n using assms(3) k
    by (simp add: push_bit_eq_mult unat_word_ariths(2) unat_of_nat)
  show "get_flags (F OR phys2pte phys) = F"
    unfolding get_flags_def kk bit.conj_disj_distrib2 z using F by simp
  show "F' AND (F OR phys2pte phys) = F' AND F" if "F' AND FLAG_MASK = F'"
  proof -
    have "F' AND phys2pte phys = (F' AND FLAG_MASK) AND push_bit 10 (of_nat k)"
      unfolding kk that ..
    also have "\<dots> = F' AND (push_bit 10 (of_nat k) AND FLAG_MASK)"
      by (simp only: and.assoc and.commute [of FLAG_MASK])
    finally show ?thesis by (simp add: bit.conj_disj_distrib z)
  qed
qed

definition leaf_flags :: "u64 \<Rightarrow> bool" where
  "leaf_flags F \<longleftrightarrow> F AND NOT FLAG_MASK = 0 \<and> PTE_V AND F \<noteq> 0 \<and> PAGE_TERMINAL_FLAGS AND F \<noteq> 0"

definition term_flags :: "paging \<Rightarrow> u64 \<Rightarrow> u64" where
  "term_flags l F = (if guest l then PTE_U else 0) OR F"

lemmas pte_flag_defs = PTE_V_def PTE_R_def PTE_W_def PTE_X_def PTE_U_def PTE_G_def PTE_A_def PTE_D_def
  PAGE_TERMINAL_FLAGS_def FLAG_MASK_def

lemma or_nonzero: "x AND F \<noteq> 0 \<Longrightarrow> x AND (E OR F) \<noteq> 0" for x :: u64
  by (metis bit.conj_disj_distrib or_eq_0_iff)

lemma term_flags_leaf:
  assumes "leaf_flags F"
  shows "leaf_flags (term_flags l F)"
proof -
  have "(if guest l then PTE_U else 0) AND NOT FLAG_MASK = 0" by (simp add: pte_flag_defs)
  then show ?thesis
    using assms by (simp add: leaf_flags_def term_flags_def or_nonzero bit.conj_disj_distrib2)
qed

lemma low_masks: "PTE_V AND FLAG_MASK = PTE_V" "PAGE_TERMINAL_FLAGS AND FLAG_MASK = PAGE_TERMINAL_FLAGS"
  by (simp_all add: pte_flag_defs)

lemma set_terminal_entry:
  fixes l :: paging
  assumes "leaf_flags F" and "phys mod 0x1000 = 0" and "phys < 2 ^ 64"
  defines "e \<equiv> set_terminal l phys F"
  shows "leaf e" and "pte2phys e = phys" and "get_flags e = term_flags l F"
proof -
  have e: "e = term_flags l F OR phys2pte phys"
    by (simp add: e_def set_terminal_def term_flags_def or.assoc)
  have F: "leaf_flags (term_flags l F)" by (rule term_flags_leaf [OF assms(1)])
  then have z: "term_flags l F AND NOT FLAG_MASK = 0" by (simp add: leaf_flags_def)
  note fs = flags_split [OF z assms(2,3)]
  show "pte2phys e = phys" "get_flags e = term_flags l F" unfolding e by (rule fs)+
  show "leaf e" using F unfolding leaf_def leaf_flags_def e fs(3) [OF low_masks(1)] fs(3) [OF low_masks(2)] by simp
qed

lemma set_next_entry:
  fixes l :: paging
  assumes "p mod 0x1000 = 0" and "p < 2 ^ 64"
  defines "e \<equiv> set_next_pt l p"
  shows "ptr e" and "pte2phys e = p"
proof -
  let ?F = "(if guest l then 0 else PTE_G) OR PTE_V"
  have e: "e = ?F OR phys2pte p" by (simp add: e_def set_next_pt_def or.assoc)
  have z: "?F AND NOT FLAG_MASK = 0" by (simp add: pte_flag_defs)
  note fs = flags_split [OF z assms(1,2)]
  show "pte2phys e = p" unfolding e by (rule fs)
  show "ptr e" unfolding ptr_def e fs(3) [OF low_masks(1)] fs(3) [OF low_masks(2)]
    by (simp add: pte_flag_defs)
qed

lemma get_flags_leaf:
  assumes "leaf e"
  shows "leaf_flags (get_flags e)"
proof -
  have "x AND (e AND FLAG_MASK) = x AND e" if "x AND FLAG_MASK = x" for x
    by (metis and.assoc and.commute that)
  then show ?thesis using assms low_masks
    by (simp add: leaf_def leaf_flags_def get_flags_def and.assoc)
qed

lemma or_low_bits:
  fixes a b :: nat
  assumes "a mod 2 ^ k = 0" and "b < 2 ^ k"
  shows "a OR b = a + b"
proof -
  obtain q where q: "a = push_bit k q" using assms(1) by (auto simp: push_bit_eq_mult mult.commute)
  have b: "b = take_bit k b" using assms(2) by (simp add: take_bit_nat_eq_self)
  have "\<not> bit a n \<or> \<not> bit b n" for n
    by (subst b) (auto simp: q bit_push_bit_iff bit_take_bit_iff)
  then show ?thesis by (simp add: disjunctive_add)
qed

lemma unat_INVALID: "unat INVALID_PHYS_ADDR = 2 ^ 64 - 1"
  by (simp add: INVALID_PHYS_ADDR_def unsigned_minus_1_eq_mask mask_eq_exp_minus_1)

text \<open>
  A leaf of a level: its page lies below $2^{56}$ and is aligned to its size, and it has the
  flag that every leaf of its format has.
\<close>

definition leaf_ok :: "paging \<Rightarrow> u64 \<Rightarrow> bool" where
  "leaf_ok l e \<longleftrightarrow> pte2phys e mod page_size l = 0 \<and> pte2phys e + page_size l \<le> 2 ^ 56 \<and>
     term_flags l (get_flags e) = get_flags e"

lemma get_phys_leaf:
  assumes "leaf e" and "leaf_ok l e"
  shows "get_phys l e v = pte2phys e + v mod page_size l" and "get_phys l e v \<noteq> unat INVALID_PHYS_ADDR"
proof -
  have lt: "v mod page_size l < page_size l" by simp
  have "pte2phys e OR v mod page_size l = pte2phys e + v mod page_size l"
    unfolding page_size_def by (rule or_low_bits [where k = "UNTRANSLATED_BITS (level l)"]) (use assms(2) in \<open>simp_all add: leaf_ok_def page_size_def\<close>)
  then show eq: "get_phys l e v = pte2phys e + v mod page_size l"
    using assms(1) by (simp add: get_phys_def leaf_def page_size_def)
  have "pte2phys e + v mod page_size l < 2 ^ 56" using assms(2) lt unfolding leaf_ok_def by linarith
  then show "get_phys l e v \<noteq> unat INVALID_PHYS_ADDR" unfolding eq unat_INVALID by simp
qed

lemma get_phys_not_leaf: "\<not> leaf e \<Longrightarrow> get_phys l e v = unat INVALID_PHYS_ADDR"
  by (auto simp: get_phys_def leaf_def)

section \<open>Trees of tables\<close>

text \<open>
  \<open>f\<close> stands for \<^verbatim>\<open>p2v\<close>, which finds the table an entry points to; it is the same function
  before and after every operation.
\<close>

type_synonym translator = "u64 \<Rightarrow> u64 result"
type_synonym tmem = "u64 \<Rightarrow> nat \<Rightarrow> u64"

definition next_table :: "translator \<Rightarrow> u64 \<Rightarrow> u64" where
  "next_table f e = (case f (of_nat (pte2phys e)) of Ok pt \<Rightarrow> pt | _ \<Rightarrow> 0)"

fun tset :: "translator \<Rightarrow> paging list \<Rightarrow> tmem \<Rightarrow> u64 \<Rightarrow> u64 set" where
  "tset f [] m pt = {}"
| "tset f (l # ls) m pt =
     insert pt (\<Union>i<nr_entries l. if ptr (m pt i) then tset f ls m (next_table f (m pt i)) else {})"

definition sub :: "translator \<Rightarrow> paging list \<Rightarrow> tmem \<Rightarrow> u64 \<Rightarrow> u64 set" where
  "sub f ls m e = (if ptr e then tset f ls m (next_table f e) else {})"

lemma tset_Cons: "tset f (l # ls) m pt = insert pt (\<Union>i<nr_entries l. sub f ls m (m pt i))"
  by (simp add: sub_def)

fun wft :: "translator \<Rightarrow> paging list \<Rightarrow> tmem \<Rightarrow> u64 \<Rightarrow> bool" where
  "wft f [] m pt \<longleftrightarrow> False"
| "wft f (l # ls) m pt \<longleftrightarrow>
     (\<forall>i<nr_entries l. pt \<notin> sub f ls m (m pt i)) \<and>
     (\<forall>i<nr_entries l. \<forall>j<nr_entries l. i \<noteq> j \<longrightarrow> sub f ls m (m pt i) \<inter> sub f ls m (m pt j) = {}) \<and>
     (\<forall>i<nr_entries l. (leaf (m pt i) \<longrightarrow> leaf_ok l (m pt i)) \<and>
        (ptr (m pt i) \<longrightarrow> f (of_nat (pte2phys (m pt i))) = Ok (next_table f (m pt i)) \<and>
           wft f ls m (next_table f (m pt i))))"

text \<open>The translation: physical address and access flags.\<close>

fun xlate :: "translator \<Rightarrow> paging list \<Rightarrow> tmem \<Rightarrow> u64 \<Rightarrow> nat \<Rightarrow> (nat \<times> u64) option" where
  "xlate f [] m pt v = None"
| "xlate f (l # ls) m pt v =
     (let e = m pt (get_entry l v)
      in if leaf e then Some (pte2phys e + v mod page_size l, get_flags e)
         else if ptr e then xlate f ls m (next_table f e) v
         else None)"

declare tset.simps(2) [simp del] wft.simps(2) [simp del] xlate.simps(2) [simp del]

lemma get_entry_less [simp]: "get_entry l v < nr_entries l"
  by (simp add: get_entry_def nr_entries_def)

lemma wft_ptr:
  assumes "wft f (l # ls) m pt" and "i < nr_entries l" and "ptr (m pt i)"
  shows "f (of_nat (pte2phys (m pt i))) = Ok (next_table f (m pt i))" "wft f ls m (next_table f (m pt i))"
    "sub f ls m (m pt i) = tset f ls m (next_table f (m pt i))" "ls \<noteq> []"
proof -
  show w: "f (of_nat (pte2phys (m pt i))) = Ok (next_table f (m pt i))" "wft f ls m (next_table f (m pt i))"
    using assms by (auto simp: wft.simps(2))
  show "sub f ls m (m pt i) = tset f ls m (next_table f (m pt i))" using assms(3) by (simp add: sub_def)
  show "ls \<noteq> []" using w(2) by auto
qed

lemma walk_xlate:
  assumes "wft (p2v (pool st)) ls (tables st) pt"
  shows "walk ls st pt v = Ok (case xlate (p2v (pool st)) ls (tables st) pt v of
      None \<Rightarrow> unat INVALID_PHYS_ADDR | Some (p, _) \<Rightarrow> p)"
  using assms
proof (induction ls arbitrary: pt)
  case (Cons l ls)
  let ?e = "tables st pt (get_entry l v)"
  have ok: "leaf ?e \<Longrightarrow> leaf_ok l ?e" using Cons.prems by (simp add: wft.simps(2))
  show ?case
  proof (cases "ptr ?e")
    case True
    note w = wft_ptr [OF Cons.prems get_entry_less True]
    have "\<not> leaf ?e" using True leaf_not_ptr by blast
    then show ?thesis using True w Cons.IH [OF w(2)]
      by (simp add: xlate.simps(2) entry_valid_iff get_phys_not_leaf get_next_pt_def)
  next
    case False
    then show ?thesis using get_phys_leaf [OF _ ok]
      by (auto simp: xlate.simps(2) entry_valid_iff Let_def)
  qed
qed simp

text \<open>Only the tables of the tree matter.\<close>

lemma tree_frame:
  assumes "\<And>a. a \<in> tset f ls m pt \<Longrightarrow> m' a = m a"
  shows "tset f ls m' pt = tset f ls m pt" and "wft f ls m' pt = wft f ls m pt"
    and "xlate f ls m' pt v = xlate f ls m pt v"
proof -
  have "tset f ls m' pt = tset f ls m pt \<and> wft f ls m' pt = wft f ls m pt \<and>
      xlate f ls m' pt v = xlate f ls m pt v"
    using assms
  proof (induction ls arbitrary: pt)
    case (Cons l ls)
    have top: "m' pt = m pt" using Cons.prems by (simp add: tset_Cons)
    have IH: "tset f ls m' c = tset f ls m c \<and> wft f ls m' c = wft f ls m c \<and>
        xlate f ls m' c v = xlate f ls m c v"
      if "i < nr_entries l" "ptr (m pt i)" "c = next_table f (m pt i)" for i c
    proof (rule Cons.IH)
      fix a assume "a \<in> tset f ls m c"
      then have "a \<in> sub f ls m (m pt i)" using that by (simp add: sub_def)
      then show "m' a = m a" using Cons.prems that(1) by (auto simp: tset_Cons)
    qed
    have s: "sub f ls m' (m pt i) = sub f ls m (m pt i)" if "i < nr_entries l" for i
      using IH that by (simp add: sub_def)
    have "tset f (l # ls) m' pt = tset f (l # ls) m pt" unfolding tset_Cons top using s by auto
    moreover have "wft f (l # ls) m' pt = wft f (l # ls) m pt"
      unfolding wft.simps(2) top using s IH by auto
    moreover have "xlate f (l # ls) m' pt v = xlate f (l # ls) m pt v"
      unfolding xlate.simps(2) top using IH by (simp add: Let_def)
    ultimately show ?case by blast
  qed simp
  then show "tset f ls m' pt = tset f ls m pt" "wft f ls m' pt = wft f ls m pt"
    "xlate f ls m' pt v = xlate f ls m pt v" by blast+
qed

section \<open>Trees in a state\<close>

abbreviation xl :: "paging list \<Rightarrow> pgs \<Rightarrow> u64 \<Rightarrow> nat \<Rightarrow> (nat \<times> u64) option" where
  "xl ls st pt v \<equiv> xlate (p2v (pool st)) ls (tables st) pt v"

abbreviation tabs :: "paging list \<Rightarrow> pgs \<Rightarrow> u64 \<Rightarrow> u64 set" where
  "tabs ls st pt \<equiv> tset (p2v (pool st)) ls (tables st) pt"

abbreviation entry :: "pgs \<Rightarrow> u64 \<Rightarrow> nat \<Rightarrow> u64" where
  "entry st pt i \<equiv> tables st pt i"

abbreviation child :: "pgs \<Rightarrow> u64 \<Rightarrow> nat \<Rightarrow> u64" where
  "child st pt i \<equiv> next_table (p2v (pool st)) (tables st pt i)"

text \<open>A tree whose tables are pages held from the allocator; the other pages that are held.\<close>

definition tree :: "paging list \<Rightarrow> pgs \<Rightarrow> u64 \<Rightarrow> bool" where
  "tree ls st pt \<longleftrightarrow> gfp_ok (pool st) \<and> wft (p2v (pool st)) ls (tables st) pt \<and> tabs ls st pt \<subseteq> held (pool st)"

definition others :: "paging list \<Rightarrow> pgs \<Rightarrow> u64 \<Rightarrow> u64 set" where
  "others ls st pt = held (pool st) - tabs ls st pt"

text \<open>
  What an operation on a tree may do: the tree stays well-formed, pages held by others stay
  held and are not written, and the translation changes at most on \<open>S\<close>.
\<close>

definition upd :: "paging list \<Rightarrow> u64 \<Rightarrow> nat set \<Rightarrow> pgs \<Rightarrow> pgs \<Rightarrow> bool" where
  "upd ls pt S st st' \<longleftrightarrow> tree ls st' pt \<and> p2v (pool st') = p2v (pool st) \<and>
     others ls st pt \<subseteq> others ls st' pt \<and> (\<forall>a \<in> others ls st pt. tables st' a = tables st a) \<and>
     kernel_root st' = kernel_root st \<and> current_table st' = current_table st \<and>
     (\<forall>v. v \<notin> S \<longrightarrow> xl ls st' pt v = xl ls st pt v)"

lemma upd_refl: "tree ls st pt \<Longrightarrow> upd ls pt S st st"
  by (simp add: upd_def)

lemma upd_trans: "upd ls pt S st st1 \<Longrightarrow> upd ls pt S st1 st2 \<Longrightarrow> upd ls pt S st st2"
  unfolding upd_def by (metis subset_iff)

lemma upd_mono: "upd ls pt S st st' \<Longrightarrow> S \<subseteq> T \<Longrightarrow> upd ls pt T st st'"
  unfolding upd_def by blast

lemma upd_tree: "upd ls pt S st st' \<Longrightarrow> tree ls st' pt"
  by (simp add: upd_def)

lemma tree_event [simp]: "tree ls (note_event ev st) pt = tree ls st pt"
  by (simp add: tree_def note_event_def)

lemma event_simps [simp]: "tables (note_event ev st) = tables st" "pool (note_event ev st) = pool st"
  "kernel_root (note_event ev st) = kernel_root st" "current_table (note_event ev st) = current_table st"
  by (simp_all add: note_event_def)

lemma upd_event [simp]: "upd ls pt S st (note_event ev st') = upd ls pt S st st'"
  by (simp add: upd_def others_def)

lemma tree_child:
  assumes "tree (l # ls) st pt" and "i < nr_entries l" and "ptr (entry st pt i)"
  shows "tree ls st (child st pt i)" and "tabs ls st (child st pt i) \<subseteq> tabs (l # ls) st pt"
    and "pt \<notin> tabs ls st (child st pt i)"
proof -
  have w: "wft (p2v (pool st)) (l # ls) (tables st) pt" using assms(1) by (simp add: tree_def)
  note c = wft_ptr [OF w assms(2,3)]
  show s: "tabs ls st (child st pt i) \<subseteq> tabs (l # ls) st pt"
    using assms(2) c(3) by (auto simp: tset_Cons)
  then show "tree ls st (child st pt i)" using assms(1) c(2) by (auto simp: tree_def)
  show "pt \<notin> tabs ls st (child st pt i)" using w assms(2) c(3) by (auto simp: wft.simps(2))
qed

text \<open>
  Replacing entry \<open>i\<close> of the root: the new entry may keep a changed subtree, point to a new
  one, be a leaf or be empty.
\<close>

lemma wft_replace:
  fixes m m' :: tmem and e' :: u64
  assumes w: "wft f (l # ls) m pt" and i: "i < nr_entries l"
    and top: "m' pt = (m pt)(i := e')"
    and fr: "\<And>a. a \<in> tset f (l # ls) m pt \<Longrightarrow> a \<noteq> pt \<Longrightarrow> a \<notin> sub f ls m (m pt i) \<Longrightarrow> m' a = m a"
    and new: "sub f ls m' e' \<inter> (tset f (l # ls) m pt - sub f ls m (m pt i)) = {}"
    and lf: "leaf e' \<Longrightarrow> leaf_ok l e'"
    and pe: "ptr e' \<Longrightarrow> f (of_nat (pte2phys e')) = Ok (next_table f e') \<and> wft f ls m' (next_table f e')"
  shows "wft f (l # ls) m' pt" and "tset f (l # ls) m' pt = tset f (l # ls) m pt - sub f ls m (m pt i) \<union> sub f ls m' e'"
    and "xlate f (l # ls) m' pt v =
      (if get_entry l v = i then (if leaf e' then Some (pte2phys e' + v mod page_size l, get_flags e')
                                  else if ptr e' then xlate f ls m' (next_table f e') v else None)
       else xlate f (l # ls) m pt v)"
proof -
  let ?n = "nr_entries l"
  have dis: "sub f ls m (m pt j) \<inter> sub f ls m (m pt k) = {}" if "j < ?n" "k < ?n" "j \<noteq> k" for j k
    using w that by (simp add: wft.simps(2))
  have notin: "pt \<notin> sub f ls m (m pt j)" if "j < ?n" for j using w that by (simp add: wft.simps(2))
  have sib: "m' a = m a" if "j < ?n" "j \<noteq> i" "a \<in> sub f ls m (m pt j)" for j a
    using fr [of a] that dis [of j i] notin [of j] i by (auto simp: tset_Cons)
  have same: "tset f ls m' c = tset f ls m c" "wft f ls m' c = wft f ls m c"
      "xlate f ls m' c x = xlate f ls m c x"
    if "j < ?n" "j \<noteq> i" "ptr (m pt j)" "c = next_table f (m pt j)" for j c x
    using tree_frame [of f ls m c m'] sib [of j] that by (simp_all add: sub_def)
  have sj: "sub f ls m' (m' pt j) = sub f ls m (m pt j)" if "j < ?n" "j \<noteq> i" for j
    using same(1) [OF that] that top by (simp add: sub_def)
  have si: "sub f ls m' (m' pt i) = sub f ls m' e'" using top by simp
  have U: "tset f (l # ls) m pt - sub f ls m (m pt i) = insert pt (\<Union>j\<in>{..<?n} - {i}. sub f ls m (m pt j))"
    using dis i notin unfolding tset_Cons by (auto 4 4)
  have "(\<Union>j<?n. sub f ls m' (m' pt j)) = (\<Union>j\<in>{..<?n} - {i}. sub f ls m (m pt j)) \<union> sub f ls m' e'"
    using sj si i by (auto split: if_splits)
  then show "tset f (l # ls) m' pt = tset f (l # ls) m pt - sub f ls m (m pt i) \<union> sub f ls m' e'"
    unfolding U tset_Cons [of f l ls m' pt] by simp
  have n1: "pt \<notin> sub f ls m' (m' pt j)" if "j < ?n" for j
    using new U notin [OF that] sj [OF that] si by (cases "j = i") auto
  have n2: "sub f ls m' (m' pt j) \<inter> sub f ls m (m pt k) = {}" if "j < ?n" "k < ?n" "j \<noteq> k" "k \<noteq> i" for j k
  proof (cases "j = i")
    case True
    then show ?thesis using new U si that by auto
  next
    case False
    then show ?thesis using dis sj that by simp
  qed
  have "sub f ls m' (m' pt j) \<inter> sub f ls m' (m' pt k) = {}" if "j < ?n" "k < ?n" "j \<noteq> k" for j k
    using n2 [OF that] n2 [OF that(2,1)] sj that by (cases "k = i") (auto simp: inf_commute)
  moreover have "(leaf (m' pt j) \<longrightarrow> leaf_ok l (m' pt j)) \<and> (ptr (m' pt j) \<longrightarrow>
      f (of_nat (pte2phys (m' pt j))) = Ok (next_table f (m' pt j)) \<and> wft f ls m' (next_table f (m' pt j)))"
    if "j < ?n" for j
    using w that lf pe same(2) [OF that] top by (cases "j = i") (auto simp: wft.simps(2))
  ultimately show "wft f (l # ls) m' pt" using n1 by (simp add: wft.simps(2))
  show "xlate f (l # ls) m' pt v =
      (if get_entry l v = i then (if leaf e' then Some (pte2phys e' + v mod page_size l, get_flags e')
                                  else if ptr e' then xlate f ls m' (next_table f e') v else None)
       else xlate f (l # ls) m pt v)"
    using top same(3) [OF get_entry_less] by (simp add: xlate.simps(2) Let_def)
qed

definition slot :: "paging \<Rightarrow> nat \<Rightarrow> nat set" where
  "slot l i = {v. get_entry l v = i}"

lemma mem_slot [simp]: "v \<in> slot l i \<longleftrightarrow> get_entry l v = i"
  by (simp add: slot_def)

lemma write_entry_simps [simp]: "pool (write_entry pt i e st) = pool st"
  "kernel_root (write_entry pt i e st) = kernel_root st" "current_table (write_entry pt i e st) = current_table st"
  "tables (write_entry pt i e st) = (tables st)(pt := (tables st pt)(i := e))"
  "events (write_entry pt i e st) = events st"
  by (simp_all add: write_entry_def)

text \<open>Writing a leaf or clearing an entry; the tables below the old entry leave the tree.\<close>

lemma upd_write:
  assumes t: "tree (l # ls) st pt" and i: "i < nr_entries l" and "\<not> ptr e"
    and lf: "leaf e \<Longrightarrow> leaf_ok l e"
  defines "st' \<equiv> write_entry pt i e st"
  shows "upd (l # ls) pt (slot l i) st st'"
    and "tabs (l # ls) st' pt = tabs (l # ls) st pt - sub (p2v (pool st)) ls (tables st) (entry st pt i)"
    and "xl (l # ls) st' pt v =
      (if get_entry l v = i then (if leaf e then Some (pte2phys e + v mod page_size l, get_flags e) else None)
       else xl (l # ls) st pt v)"
proof -
  have w: "wft (p2v (pool st)) (l # ls) (tables st) pt" using t by (simp add: tree_def)
  have s: "sub f ls m e = {}" for f m using assms(3) by (simp add: sub_def)
  note r = wft_replace [OF w i, of "tables st'" e, OF _ _ _ lf]
  have wf: "wft (p2v (pool st)) (l # ls) (tables st') pt"
    by (rule r(1)) (use assms(3) s in \<open>simp_all add: st'_def\<close>)
  have ts: "tset (p2v (pool st)) (l # ls) (tables st') pt =
      tabs (l # ls) st pt - sub (p2v (pool st)) ls (tables st) (entry st pt i)"
    using r(2) assms(3) s by (simp add: st'_def)
  have x: "xlate (p2v (pool st)) (l # ls) (tables st') pt v =
      (if get_entry l v = i then (if leaf e then Some (pte2phys e + v mod page_size l, get_flags e) else None)
       else xl (l # ls) st pt v)" for v
    using r(3) [of v] assms(3) s by (simp add: st'_def)
  have p: "pool st' = pool st" by (simp add: st'_def)
  show "tabs (l # ls) st' pt = tabs (l # ls) st pt - sub (p2v (pool st)) ls (tables st) (entry st pt i)"
    using ts p by simp
  show "xl (l # ls) st' pt v =
      (if get_entry l v = i then (if leaf e then Some (pte2phys e + v mod page_size l, get_flags e) else None)
       else xl (l # ls) st pt v)"
    using x p by simp
  have pt: "pt \<in> tabs (l # ls) st pt" by (simp add: tset_Cons)
  show "upd (l # ls) pt (slot l i) st st'"
    unfolding upd_def others_def tree_def p ts using t wf x pt
    by (auto simp: tree_def st'_def)
qed

text \<open>An operation on a subtree.\<close>

lemma upd_child:
  assumes t: "tree (l # ls) st pt" and i: "i < nr_entries l" and p: "ptr (entry st pt i)"
    and u: "upd ls (child st pt i) S st st'"
  shows "upd (l # ls) pt (slot l i \<inter> S) st st'" and "tables st' pt = tables st pt"
    and "xl (l # ls) st' pt v = (if get_entry l v = i then xl ls st' (child st pt i) v else xl (l # ls) st pt v)"
    and "tabs (l # ls) st' pt = tabs (l # ls) st pt - tabs ls st (child st pt i) \<union> tabs ls st' (child st pt i)"
proof -
  let ?f = "p2v (pool st)" and ?c = "child st pt i"
  have w: "wft ?f (l # ls) (tables st) pt" and h: "tabs (l # ls) st pt \<subseteq> held (pool st)"
    using t by (simp_all add: tree_def)
  note c = tree_child [OF t i p]
  have f: "p2v (pool st') = ?f" and ok: "gfp_ok (pool st')" and w': "wft ?f ls (tables st') ?c"
    and h': "tset ?f ls (tables st') ?c \<subseteq> held (pool st')"
    using u by (auto simp: upd_def tree_def)
  let ?O = "held (pool st) - tset ?f ls (tables st) ?c"
  have O: "?O \<subseteq> held (pool st') - tset ?f ls (tables st') ?c" and fr: "\<And>a. a \<in> ?O \<Longrightarrow> tables st' a = tables st a"
    using u unfolding upd_def others_def f by auto
  have pt: "pt \<in> ?O" using c(3) h by (auto simp: tset_Cons)
  then show top: "tables st' pt = tables st pt" using fr by blast
  have si: "sub ?f ls (tables st) (entry st pt i) = tset ?f ls (tables st) ?c"
    and si': "sub ?f ls (tables st') (entry st pt i) = tset ?f ls (tables st') ?c"
    using p by (simp_all add: sub_def)
  have new: "sub ?f ls (tables st') (entry st pt i) \<inter>
      (tabs (l # ls) st pt - sub ?f ls (tables st) (entry st pt i)) = {}"
    unfolding si si' using O h by blast
  have nl: "\<not> leaf (entry st pt i)" using p leaf_not_ptr by blast
  have pe: "?f (of_nat (pte2phys (entry st pt i))) = Ok ?c" by (rule wft_ptr(1) [OF w i p])
  have m: "tables st' pt = (tables st pt)(i := entry st pt i)" using top by simp
  have fr': "tables st' a = tables st a"
    if "a \<in> tabs (l # ls) st pt" "a \<noteq> pt" "a \<notin> sub ?f ls (tables st) (entry st pt i)" for a
    using fr [of a] that h si by auto
  note r = wft_replace [OF w i m fr' new]
  have x: "xlate ?f (l # ls) (tables st') pt v =
      (if get_entry l v = i then xlate ?f ls (tables st') ?c v else xl (l # ls) st pt v)" for v
    using r(3) [of v] nl pe w' p by simp
  have ts: "tset ?f (l # ls) (tables st') pt =
      tabs (l # ls) st pt - tset ?f ls (tables st) ?c \<union> tset ?f ls (tables st') ?c"
    using r(2) nl pe w' unfolding si si' by blast
  then show "tabs (l # ls) st' pt = tabs (l # ls) st pt - tabs ls st ?c \<union> tabs ls st' ?c" using f by simp
  have wf: "wft ?f (l # ls) (tables st') pt" using r(1) nl pe w' by blast
  show "xl (l # ls) st' pt v = (if get_entry l v = i then xl ls st' ?c v else xl (l # ls) st pt v)"
    using x f by simp
  have xc: "xl (l # ls) st pt v = xl ls st ?c v" if "get_entry l v = i" for v
    using that p nl by (simp add: xlate.simps(2))
  have same: "v \<notin> slot l i \<inter> S \<Longrightarrow> xlate ?f (l # ls) (tables st') pt v = xl (l # ls) st pt v" for v
    using u x xc unfolding upd_def f by auto
  have "held (pool st) - tabs (l # ls) st pt \<subseteq> held (pool st') - tset ?f (l # ls) (tables st') pt"
    unfolding ts using O c(2) by blast
  moreover have "tset ?f (l # ls) (tables st') pt \<subseteq> held (pool st')" unfolding ts using O h h' by blast
  moreover have "tables st' a = tables st a" if "a \<in> held (pool st) - tabs (l # ls) st pt" for a
    using fr that c(2) by blast
  ultimately show "upd (l # ls) pt (slot l i \<inter> S) st st'"
    unfolding upd_def others_def tree_def f using u wf ok same by (auto simp: upd_def)
qed

text \<open>Tables without valid entries.\<close>

lemma tree_blank:
  assumes "\<And>i. i < nr_entries l \<Longrightarrow> \<not> entry_valid (m pt i)"
  shows "wft f (l # ls) m pt" and "tset f (l # ls) m pt = {pt}" and "xlate f (l # ls) m pt v = None"
proof -
  have e: "\<not> leaf (m pt i)" "\<not> ptr (m pt i)" if "i < nr_entries l" for i
    using assms [OF that] by (auto simp: entry_valid_iff)
  then have "sub f ls m (m pt i) = {}" if "i < nr_entries l" for i using that by (simp add: sub_def)
  then show "wft f (l # ls) m pt" "tset f (l # ls) m pt = {pt}" using e by (auto simp: wft.simps(2) tset_Cons)
  show "xlate f (l # ls) m pt v = None" using e [OF get_entry_less] by (simp add: xlate.simps(2))
qed

lemma zalloc_cases [consumes 1, case_names full page]:
  assumes "gfp_ok (pool st)"
  obtains (full) "zalloc_page st = Ok (st, 0)"
  | (page) st' t p where "zalloc_page st = Ok (st', t)" "t \<noteq> 0" "tables st' = (tables st)(t := \<lambda>_. 0)"
      "gfp_ok (pool st')" "p2v (pool st') = p2v (pool st)" "t \<notin> held (pool st)"
      "held (pool st') = insert t (held (pool st))" "virt_to_phys st' t = Ok p" "p2v (pool st) p = Ok t"
      "unat p mod 0x1000 = 0" "kernel_root st' = kernel_root st" "current_table st' = current_table st"
      "events st' = events st"
proof -
  let ?w = "\<lambda>as t. \<lambda>v. case paging_get_phys (st\<lparr>pool := as, tables := (tables st)(t := \<lambda>_. 0)\<rparr>)
      (kernel_root st) v of Ok p \<Rightarrow> p | _ \<Rightarrow> INVALID_PHYS_ADDR"
  show thesis
  proof (rule pp.alloc_cases [OF assms, where w = "?w (fst (case alloc_pages (pool st) 1 of Ok x \<Rightarrow> x)) (snd (case alloc_pages (pool st) 1 of Ok x \<Rightarrow> x))"])
    assume "alloc_pages (pool st) 1 = Ok (pool st, 0)"
    then show thesis using full by (simp add: zalloc_page_def)
  next
    fix as t p
    assume *: "alloc_pages (pool st) 1 = Ok (as, t)" "t \<noteq> 0" "gfp_ok as" "p2v as = p2v (pool st)"
      "t \<notin> held (pool st)" "held as = insert t (held (pool st))"
      "v2p as (?w (fst (case alloc_pages (pool st) 1 of Ok x \<Rightarrow> x)) (snd (case alloc_pages (pool st) 1 of Ok x \<Rightarrow> x))) t = Ok p"
      "p2v (pool st) p = Ok t" "unat p mod 0x1000 = 0"
    show thesis
      by (rule page [of "st\<lparr>pool := as, tables := (tables st)(t := \<lambda>_. 0)\<rparr>" t p])
         (use * in \<open>simp_all add: zalloc_page_def virt_to_phys_def\<close>)
  qed
qed

lemma upd_link:
  assumes t: "tree (l # ls) st pt" and i: "i < nr_entries l" and ls: "ls \<noteq> []"
    and m: "tables st' = (tables st)(t := \<lambda>_. 0)" and ok: "gfp_ok (pool st')"
    and f: "p2v (pool st') = p2v (pool st)" and fresh: "t \<notin> held (pool st)"
    and hd: "held (pool st') = insert t (held (pool st))" and p: "p2v (pool st) p = Ok t" "unat p mod 0x1000 = 0"
    and kr: "kernel_root st' = kernel_root st" "current_table st' = current_table st"
  defines "st2 \<equiv> write_entry pt i (set_next_pt l (unat p)) st'"
  shows "upd (l # ls) pt (slot l i) st st2" and "ptr (entry st2 pt i)" and "child st2 pt i = t"
    and "xl (l # ls) st2 pt v = (if get_entry l v = i then None else xl (l # ls) st pt v)"
    and "tables st2 t = (\<lambda>_. 0)" and "p2v (pool st2) (of_nat (pte2phys (entry st2 pt i))) = Ok t"
proof -
  let ?f = "p2v (pool st)" and ?e = "set_next_pt l (unat p)"
  have w: "wft ?f (l # ls) (tables st) pt" and h: "tabs (l # ls) st pt \<subseteq> held (pool st)"
    using t by (simp_all add: tree_def)
  have pt: "pt \<in> held (pool st)" using h by (auto simp: tset_Cons)
  then have ne: "t \<noteq> pt" using fresh by blast
  have e: "ptr ?e" "pte2phys ?e = unat p" using set_next_entry [OF p(2)] unat_lt2p [of p] by auto
  have pe: "?f (of_nat (pte2phys ?e)) = Ok t" using e p by simp
  then have nt: "next_table ?f ?e = t" by (simp add: next_table_def)
  have tab: "tables st2 = (tables st)(t := \<lambda>_. 0, pt := (tables st pt)(i := ?e))"
    using ne by (simp add: st2_def m)
  then show t0: "tables st2 t = (\<lambda>_. 0)" using ne by simp
  have f2: "p2v (pool st2) = ?f" by (simp add: st2_def f)
  have en: "entry st2 pt i = ?e" using tab by simp
  show "ptr (entry st2 pt i)" "child st2 pt i = t" using en e nt f2 by simp_all
  show "p2v (pool st2) (of_nat (pte2phys (entry st2 pt i))) = Ok t" using en pe f2 by simp
  obtain l' ls' where ls': "ls = l' # ls'" using ls by (cases ls) auto
  have bl: "wft ?f ls (tables st2) t" "tset ?f ls (tables st2) t = {t}" "xlate ?f ls (tables st2) t v = None" for v
    unfolding ls' using t0 by (simp_all add: tree_blank)
  have se: "sub ?f ls (tables st2) ?e = {t}" using e nt bl by (simp add: sub_def)
  have nl: "\<not> leaf ?e" using e leaf_not_ptr by blast
  have "tables st2 a = tables st a" if "a \<in> tabs (l # ls) st pt" "a \<noteq> pt" for a
    using that tab h fresh by auto
  moreover have "sub ?f ls (tables st2) ?e \<inter> (tabs (l # ls) st pt - sub ?f ls (tables st) (entry st pt i)) = {}"
    unfolding se using h fresh by blast
  ultimately have r: "wft ?f (l # ls) (tables st2) pt"
      "tset ?f (l # ls) (tables st2) pt = tabs (l # ls) st pt - sub ?f ls (tables st) (entry st pt i) \<union> {t}"
      "xlate ?f (l # ls) (tables st2) pt v = (if get_entry l v = i then None else xl (l # ls) st pt v)" for v
    using wft_replace [OF w i, of "tables st2" ?e] tab nl e pe nt bl se by auto
  show "xl (l # ls) st2 pt v = (if get_entry l v = i then None else xl (l # ls) st pt v)" using r(3) f2 by simp
  have h2: "held (pool st2) = insert t (held (pool st))" by (simp add: st2_def hd)
  have "a \<noteq> pt \<and> a \<noteq> t" if "a \<in> held (pool st)" "a \<notin> tabs (l # ls) st pt" for a
    using that fresh by (auto simp: tset_Cons)
  then show "upd (l # ls) pt (slot l i) st st2"
    unfolding upd_def others_def tree_def f2 h2 r(2) using r(1,3) ok h fresh tab kr
    by (auto simp: st2_def)
qed

end
