(* ===== verification/Paging_Ops.thy ===== *)
theory Paging_Ops
  imports Paging_Tree
begin

text \<open>
  Correctness of \<^verbatim>\<open>split_hugepage\<close>, \<^verbatim>\<open>paging_destroy\<close> and \<^verbatim>\<open>paging_create\<close> on trees of tables:
  they return, keep the tree well-formed and change the translation as intended. The proof
  goes by induction on the levels, as the routines call each other on shorter lists.
\<close>

section \<open>Level lists\<close>

fun levels_ok :: "paging list \<Rightarrow> bool" where
  "levels_ok [] \<longleftrightarrow> False"
| "levels_ok [l] \<longleftrightarrow> level l = 0"
| "levels_ok (l # l' # ls) \<longleftrightarrow> level l = Suc (level l') \<and> level l \<le> 4 \<and> \<not> wide l' \<and> guest l' = guest l \<and>
     levels_ok (l' # ls)"

definition reach :: "paging list \<Rightarrow> nat" where
  "reach ls = nr_entries (hd ls) * page_size (hd ls)"

lemma levels_ok_tl: "levels_ok (l # ls) \<Longrightarrow> ls \<noteq> [] \<Longrightarrow> levels_ok ls"
  by (cases ls) auto

lemma reach_tl: "levels_ok (l # ls) \<Longrightarrow> ls \<noteq> [] \<Longrightarrow> reach ls = page_size l \<and> guest (hd ls) = guest l"
  by (cases ls)
     (auto simp: reach_def nr_entries_def page_size_def UNTRANSLATED_BITS_def PAGE_LEVEL_BITS_def power_add)

lemma level_le: "levels_ok (l # ls) \<Longrightarrow> level l \<le> 4"
  by (cases ls) auto

lemma page_size_dvd:
  assumes "levels_ok (l # ls)"
  shows "0x1000 dvd page_size l" and "page_size l dvd 2 ^ 64" and "page_size l \<le> 2 ^ 48"
proof -
  have "page_size l = 2 ^ 12 * 2 ^ (9 * level l)"
    by (simp add: page_size_def UNTRANSLATED_BITS_def PAGE_LEVEL_BITS_def power_add mult.commute)
  then show "0x1000 dvd page_size l" by simp
  have "UNTRANSLATED_BITS (level l) \<le> 48"
    using level_le [OF assms] by (simp add: UNTRANSLATED_BITS_def PAGE_LEVEL_BITS_def)
  then have b: "UNTRANSLATED_BITS (level l) \<le> 64" "UNTRANSLATED_BITS (level l) \<le> 48" by simp_all
  show "page_size l dvd 2 ^ 64" unfolding page_size_def by (rule le_imp_power_dvd [OF b(1)])
  show "page_size l \<le> 2 ^ 48" unfolding page_size_def by (rule power_increasing [OF b(2)]) simp
qed

lemma term_flags_idem [simp]: "term_flags l (term_flags l F) = term_flags l F"
  by (simp add: term_flags_def)

lemma term_flags_guest: "guest l' = guest l \<Longrightarrow> term_flags l' = term_flags l"
  by (simp add: term_flags_def fun_eq_iff)

lemma slot_below:
  fixes v s n :: nat
  assumes "s dvd n" and "v < n"
  shows "v - v mod s + s \<le> n"
proof -
  obtain k where k: "n = s * k" using assms(1) by blast
  then have "0 < s" using assms(2) by (cases "s = 0") auto
  then have "v div s < k" using assms(2) k by (simp add: div_less_iff_less_mult mult.commute)
  then have "s * (v div s) + s \<le> n" using k by (metis Suc_leI mult_Suc_right mult_le_mono2 add.commute)
  then show ?thesis by (simp add: minus_mod_eq_mult_div)
qed

lemma page_up_mult:
  assumes "x mod 0x1000 = 0" and "x < 2 ^ 63"
  shows "unat (page_up (of_nat x)) = x"
proof -
  obtain k where k: "x = 0x1000 * k" using assms(1) by auto
  have "unat (of_nat x :: u64) = x" using assms(2) by (simp add: unat_of_nat)
  moreover have "0x1000 * ((x + 0xfff) div 0x1000) = x" unfolding k by simp
  ultimately show ?thesis using assms by (simp add: unat_page_up)
qed

definition in_range :: "paging list \<Rightarrow> nat \<Rightarrow> nat \<Rightarrow> nat \<Rightarrow> bool" where
  "in_range ls virt sz v \<longleftrightarrow> virt mod reach ls \<le> v mod reach ls \<and> v mod reach ls < virt mod reach ls + sz"

definition mapped :: "paging list \<Rightarrow> nat \<Rightarrow> nat \<Rightarrow> nat \<Rightarrow> u64 \<Rightarrow> (nat \<Rightarrow> (nat \<times> u64) option) \<Rightarrow> nat \<Rightarrow> (nat \<times> u64) option" where
  "mapped ls phys sz virt flags x v =
     (if in_range ls virt sz v
      then Some (phys + (v mod reach ls - virt mod reach ls), term_flags (hd ls) flags) else x v)"

text \<open>A range that the routines can be asked to map: page-aligned, inside the reach of the table.\<close>

definition range_ok :: "paging list \<Rightarrow> nat \<Rightarrow> nat \<Rightarrow> bool" where
  "range_ok ls virt sz \<longleftrightarrow> virt mod 0x1000 = 0 \<and> sz mod 0x1000 = 0 \<and> virt mod reach ls + sz \<le> reach ls \<and>
     virt + sz \<le> 2 ^ 64"

definition create_ok :: "paging list \<Rightarrow> bool" where
  "create_ok ls \<longleftrightarrow> (\<forall>st pt scope phys sz virt flags huge.
     tree ls st pt \<longrightarrow> range_ok ls virt sz \<longrightarrow> phys mod 0x1000 = 0 \<longrightarrow> phys + sz \<le> 2 ^ 56 \<longrightarrow> leaf_flags flags \<longrightarrow>
     (\<exists>st' err. create_loop ls pt scope phys sz virt flags huge st = Ok (st', err) \<and>
        upd ls pt UNIV st st' \<and> (err = 0 \<or> err = - errno_num ENOMEM) \<and>
        (err = 0 \<longrightarrow> (\<forall>v. xl ls st' pt v = mapped ls phys sz virt flags (xl ls st pt) v))))"

lemma create_okD:
  assumes "create_ok ls" and "tree ls st pt" and "range_ok ls virt sz" and "phys mod 0x1000 = 0"
    and "phys + sz \<le> 2 ^ 56" and "leaf_flags flags"
  obtains st' err where "create_loop ls pt scope phys sz virt flags huge st = Ok (st', err)"
    "upd ls pt UNIV st st'" "err = 0 \<or> err = - errno_num ENOMEM"
    "err \<noteq> 0 \<or> (\<forall>v. xl ls st' pt v = mapped ls phys sz virt flags (xl ls st pt) v)"
  using assms(1) [unfolded create_ok_def, rule_format, OF assms(2-6), of scope huge] by blast

section \<open>Splitting\<close>

lemma split_spec:
  assumes cr: "create_ok ls" and lo: "levels_ok (l # ls)" and ls: "ls \<noteq> []"
    and t: "tree (l # ls) st pt" and virt: "virt < 2 ^ 64" and lf: "leaf (entry st pt (get_entry l virt))"
  shows "\<exists>st' err. split_hugepage (l # ls) pt virt huge scope st = Ok (st', err) \<and>
     upd (l # ls) pt (slot l (get_entry l virt)) st st' \<and> (err = 0 \<or> err = - errno_num ENOMEM) \<and>
     (err = 0 \<longrightarrow> ptr (entry st' pt (get_entry l virt)) \<and> (\<forall>v. xl (l # ls) st' pt v = xl (l # ls) st pt v))"
proof -
  let ?i = "get_entry l virt" and ?ps = "page_size l"
  let ?e = "entry st pt ?i"
  let ?virt = "virt - virt mod ?ps"
  have ok: "gfp_ok (pool st)" and w: "wft (p2v (pool st)) (l # ls) (tables st) pt"
    using t by (simp_all add: tree_def)
  have lok: "leaf_ok l ?e" using w lf by (simp add: wft.simps(2))
  note ph = get_phys_leaf [OF lf lok, of virt]
  note ps = page_size_dvd [OF lo] and rt = reach_tl [OF lo ls]
  have pa: "pte2phys ?e mod ?ps = 0" "pte2phys ?e + ?ps \<le> 2 ^ 56" "term_flags l (get_flags ?e) = get_flags ?e"
    using lok by (simp_all add: leaf_ok_def)
  have phys: "get_phys l ?e virt - get_phys l ?e virt mod ?ps = pte2phys ?e"
    unfolding ph(1) using pa(1) by (metis add_diff_cancel_right' mod_add_left_eq mod_mod_trivial add_0)
  from ok show ?thesis
  proof (cases rule: zalloc_cases)
    case full
    then show ?thesis using lf ph(2) t by (simp add: split_hugepage.simps Let_def upd_refl)
  next
    case (page st1 tb p)
    note lk = upd_link [OF t get_entry_less ls page(3-7) page(9-12), of virt]
    let ?st2 = "write_entry pt ?i (set_next_pt l (unat p)) st1"
    have t2: "tree (l # ls) ?st2 pt" by (rule upd_tree [OF lk(1)])
    have t3: "tree ls ?st2 tb" using tree_child(1) [OF t2 get_entry_less lk(2)] lk(3) by simp
    have al: "pte2phys ?e mod 0x1000 = 0" using pa(1) ps(1) by (metis mod_mod_cancel mod_0)
    have v0: "?virt mod ?ps = 0" by (simp add: minus_mod_eq_mult_div)
    have vb: "?virt + ?ps \<le> 2 ^ 64"
      using ps(2) virt by (rule slot_below)
    have r: "range_ok ls ?virt ?ps"
      using v0 vb ps(1) rt mod_mod_cancel [OF ps(1), of ?virt] by (auto simp: range_ok_def)
    obtain st3 err where c: "create_loop ls tb scope (pte2phys ?e) ?ps ?virt (get_flags ?e) huge ?st2 = Ok (st3, err)"
      "upd ls tb UNIV ?st2 st3" "err = 0 \<or> err = - errno_num ENOMEM"
      "err \<noteq> 0 \<or> (\<forall>v. xl ls st3 tb v = mapped ls (pte2phys ?e) ?ps ?virt (get_flags ?e) (xl ls ?st2 tb) v)"
      by (rule create_okD [OF cr t3 r al pa(2) get_flags_leaf [OF lf]])
    have al2: "?virt mod 0x1000 = 0" "?ps mod 0x1000 = 0" using r by (simp_all add: range_ok_def)
    have "split_hugepage (l # ls) pt virt huge scope st = Ok (st3, err)"
      using page(1,2,8) c(1) al al2 ph(2) phys ps(3) page_up_mult [of ?ps]
      by (simp add: split_hugepage.simps paging_create.simps Let_def)
    moreover note ch = upd_child [OF t2 get_entry_less lk(2), unfolded lk(3), OF c(2)]
    have "upd (l # ls) pt (slot l ?i) st st3"
      by (rule upd_trans [OF lk(1)]) (use ch(1) in simp)
    moreover have "ptr (entry st3 pt ?i)" using ch(2) lk(2) by simp
    moreover have "xl (l # ls) st3 pt v = xl (l # ls) st pt v" if "err = 0" for v
    proof (cases "get_entry l v = ?i")
      case True
      have "in_range ls ?virt ?ps v" using v0 rt by (simp add: in_range_def)
      then have "xl ls st3 tb v = Some (pte2phys ?e + v mod ?ps, term_flags l (get_flags ?e))"
        using c(4) that rt v0 term_flags_guest [of "hd ls" l] by (simp add: mapped_def)
      moreover have "xl (l # ls) st pt v = Some (pte2phys ?e + v mod ?ps, get_flags ?e)"
        using True lf by (simp add: xlate.simps(2) Let_def)
      ultimately show ?thesis using True ch(3) [of v] pa(3) by simp
    next
      case False
      then show ?thesis using ch(3) lk(4) by simp
    qed
    ultimately show ?thesis using c(3) by blast
  qed
qed

section \<open>Paths\<close>

text \<open>
  The tables a walk for \<open>v\<close> went through, deepest first, and the table it has reached; an
  address follows the path if the walk for it goes through the same entries.
\<close>

fun pathto :: "pgs \<Rightarrow> paging list \<Rightarrow> u64 \<Rightarrow> nat \<Rightarrow> (paging \<times> u64) list \<Rightarrow> paging list \<Rightarrow> u64 \<Rightarrow> bool" where
  "pathto st LS root v [] ls pt \<longleftrightarrow> ls = LS \<and> pt = root"
| "pathto st LS root v ((l, p) # path) ls pt \<longleftrightarrow>
     pathto st LS root v path (l # ls) p \<and> ptr (entry st p (get_entry l v)) \<and> child st p (get_entry l v) = pt"

definition follows :: "(paging \<times> u64) list \<Rightarrow> nat \<Rightarrow> nat \<Rightarrow> bool" where
  "follows path v w \<longleftrightarrow> list_all (\<lambda>(l, _). get_entry l w = get_entry l v) path"

lemma follows_simps [simp]: "follows [] v w" "follows ((l, p) # path) v w \<longleftrightarrow> get_entry l w = get_entry l v \<and> follows path v w"
  by (simp_all add: follows_def)

lemma path_tree:
  assumes "tree LS st root" and "pathto st LS root v path ls pt"
  shows "tree ls st pt" and "tabs ls st pt \<subseteq> tabs LS st root" and "snd ` set path \<inter> tabs ls st pt = {}"
    and "pt \<in> tabs ls st pt" and "snd ` set path \<subseteq> tabs LS st root"
proof -
  have pt: "tree ls st pt \<Longrightarrow> pt \<in> tabs ls st pt" for ls pt by (cases ls) (auto simp: tree_def tset_Cons)
  have "tree ls st pt \<and> tabs ls st pt \<subseteq> tabs LS st root \<and> snd ` set path \<inter> tabs ls st pt = {} \<and>
      snd ` set path \<subseteq> tabs LS st root"
    using assms(2)
  proof (induction path arbitrary: ls pt)
    case Nil
    then show ?case using assms(1) by simp
  next
    case (Cons lp path)
    obtain l p where lp: "lp = (l, p)" by (cases lp)
    then have IH: "tree (l # ls) st p" "tabs (l # ls) st p \<subseteq> tabs LS st root"
        "snd ` set path \<inter> tabs (l # ls) st p = {}" "snd ` set path \<subseteq> tabs LS st root"
      and e: "ptr (entry st p (get_entry l v))" "child st p (get_entry l v) = pt"
      using Cons.IH [of "l # ls" p] Cons.prems by auto
    note c = tree_child [OF IH(1) get_entry_less e(1), unfolded e(2)]
    show ?case using c IH pt [OF IH(1)] lp by auto
  qed
  then show "tree ls st pt" "tabs ls st pt \<subseteq> tabs LS st root" "snd ` set path \<inter> tabs ls st pt = {}"
    "pt \<in> tabs ls st pt" "snd ` set path \<subseteq> tabs LS st root" using pt by blast+
qed

lemma path_xl:
  assumes "pathto st LS root v path ls pt" and "follows path v w"
  shows "xl LS st root w = xl ls st pt w"
  using assms
proof (induction path arbitrary: ls pt)
  case (Cons lp path)
  obtain l p where lp: "lp = (l, p)" by (cases lp)
  then have "xl LS st root w = xl (l # ls) st p w" using Cons by simp
  moreover have "ptr (entry st p (get_entry l v))" "child st p (get_entry l v) = pt" "get_entry l w = get_entry l v"
    using Cons.prems lp by auto
  ultimately show ?case using leaf_not_ptr by (auto simp: xlate.simps(2) Let_def)
qed simp

text \<open>An operation on the reached table is an operation on the whole tree.\<close>

lemma upd_path:
  assumes "tree LS st root" and "pathto st LS root v path ls pt" and "upd ls pt S st st'"
  shows "upd LS root ({w. follows path v w} \<inter> S) st st'" and "pathto st' LS root v path ls pt"
    and "xl LS st' root w = (if follows path v w then xl ls st' pt w else xl LS st root w)"
    and "tabs LS st' root = tabs LS st root - tabs ls st pt \<union> tabs ls st' pt"
proof -
  have "upd LS root ({w. follows path v w} \<inter> S) st st' \<and> pathto st' LS root v path ls pt \<and>
      xl LS st' root w = (if follows path v w then xl ls st' pt w else xl LS st root w) \<and>
      tabs LS st' root = tabs LS st root - tabs ls st pt \<union> tabs ls st' pt"
    using assms(2,3)
  proof (induction path arbitrary: ls pt S)
    case Nil
    then show ?case by auto
  next
    case (Cons lp path)
    obtain l p where lp: "lp = (l, p)" by (cases lp)
    let ?i = "get_entry l v"
    have pp: "pathto st LS root v path (l # ls) p" and e: "ptr (entry st p ?i)" "child st p ?i = pt"
      using Cons.prems lp by auto
    have t: "tree (l # ls) st p" by (rule path_tree(1) [OF assms(1) pp])
    have u: "upd ls (child st p ?i) S st st'" using Cons.prems e by simp
    note c = upd_child [OF t get_entry_less e(1) u]
    note IH = Cons.IH [OF pp c(1)]
    have f: "p2v (pool st') = p2v (pool st)" using u by (simp add: upd_def)
    have eq: "{w. follows path v w} \<inter> (slot l ?i \<inter> S) = {w. follows (lp # path) v w} \<inter> S" by (auto simp: lp)
    have "pathto st' LS root v (lp # path) ls pt" using IH e c(2) f by (simp add: lp)
    moreover have "xl LS st' root w = (if follows (lp # path) v w then xl ls st' pt w else xl LS st root w)"
      using IH c(3) [of w] e path_xl [OF pp, of w] by (simp add: lp)
    moreover have "tabs LS st' root = tabs LS st root - tabs (l # ls) st p \<union>
        (tabs (l # ls) st p - tabs ls st pt \<union> tabs ls st' pt)"
      using IH c(4) e by simp
    then have "tabs LS st' root = tabs LS st root - tabs ls st pt \<union> tabs ls st' pt"
      using path_tree(2) [OF assms(1) pp] tree_child(2) [OF t get_entry_less e(1)] e(2) by blast
    ultimately show ?case using IH eq by simp
  qed
  then show "upd LS root ({w. follows path v w} \<inter> S) st st'" "pathto st' LS root v path ls pt"
    "xl LS st' root w = (if follows path v w then xl ls st' pt w else xl LS st root w)"
    "tabs LS st' root = tabs LS st root - tabs ls st pt \<union> tabs ls st' pt" by blast+
qed

section \<open>Unmapping\<close>

text \<open>The routines one level down are correct, for every level of the list.\<close>

fun subs_ok :: "paging list \<Rightarrow> bool" where
  "subs_ok [] \<longleftrightarrow> True"
| "subs_ok (l # ls) \<longleftrightarrow> (ls \<noteq> [] \<longrightarrow> create_ok ls) \<and> subs_ok ls"

text \<open>Where the walk stops: at an invalid entry, or at a page that lies in the range.\<close>

definition stops :: "pgs \<Rightarrow> paging \<Rightarrow> u64 \<Rightarrow> nat \<Rightarrow> nat \<Rightarrow> bool" where
  "stops st l pt virt sz \<longleftrightarrow> \<not> entry_valid (entry st pt (get_entry l virt)) \<or>
     leaf (entry st pt (get_entry l virt)) \<and> virt mod page_size l = 0 \<and> page_size l \<le> sz"

lemma path_root_slot:
  assumes "pathto st LS root v path ls pt" and "path \<noteq> []" and "follows path v w"
  shows "get_entry (hd LS) w = get_entry (hd LS) v"
  using assms
proof (induction path arbitrary: ls pt)
  case (Cons lp path)
  then show ?case by (cases lp; cases path) auto
qed simp

lemma covered_iff:
  fixes virt sz ps :: nat
  assumes "virt + sz \<le> 2 ^ 64" and "0 < sz" and "ps dvd 2 ^ 64" and "0 < ps"
  shows "virt \<le> virt - virt mod ps \<and> w64 (virt + (sz - 1)) \<ge> w64 (virt - virt mod ps + (ps - 1)) \<longleftrightarrow>
    virt mod ps = 0 \<and> ps \<le> sz"
proof -
  have "virt - virt mod ps + ps \<le> 2 ^ 64" using assms by (intro slot_below) auto
  then have "w64 (virt - virt mod ps + (ps - 1)) = virt - virt mod ps + (ps - 1)"
    using assms(4) by (simp add: w64_def)
  moreover have "w64 (virt + (sz - 1)) = virt + (sz - 1)" using assms by (simp add: w64_def)
  moreover have "virt \<le> virt - virt mod ps \<longleftrightarrow> virt mod ps = 0"
    using mod_less_eq_dividend [of virt ps] by linarith
  ultimately show ?thesis using assms(2,4) by auto
qed

lemma destroy_walk_spec:
  assumes "subs_ok ls" and "levels_ok ls" and "tree LS st root" and "pathto st LS root virt path ls pt"
    and al: "virt mod 0x1000 = 0" "sz mod 0x1000 = 0" and sz: "0 < sz" "virt + sz \<le> 2 ^ 64"
  shows "\<exists>st' err path' rest. destroy_walk ls pt virt sz huge scope path st = Ok (st', err, path', rest) \<and>
     upd LS root (slot (hd LS) (get_entry (hd LS) virt)) st st' \<and> (err = 0 \<or> err = - errno_num ENOMEM) \<and>
     (err = 0 \<longrightarrow> (\<forall>v. xl LS st' root v = xl LS st root v) \<and>
        (\<exists>l p q sub. path' = (l, p) # q \<and> rest = l # sub \<and> levels_ok rest \<and> pathto st' LS root virt q rest p \<and>
           stops st' l p virt sz))"
  using assms(1-4)
proof (induction ls arbitrary: st pt path)
  case (Cons l ls)
  let ?i = "get_entry l virt" and ?S = "slot (hd LS) (get_entry (hd LS) virt)"
  let ?e = "entry st pt ?i"
  have t: "tree (l # ls) st pt" by (rule path_tree(1) [OF Cons.prems(3,4)])
  then have w: "wft (p2v (pool st)) (l # ls) (tables st) pt" by (simp add: tree_def)
  have virt: "virt < 2 ^ 64" using sz by linarith
  note ps = page_size_dvd [OF Cons.prems(2)]
  note cov = covered_iff [OF sz(2,1) ps(2) page_size_pos]
  have cond: "get_phys l ?e virt \<noteq> unat INVALID_PHYS_ADDR \<longleftrightarrow> leaf ?e"
    using get_phys_leaf(2) [of ?e l virt] get_phys_not_leaf [of ?e l virt] w by (auto simp: wft.simps(2))
  have psl: "(if page_size l \<noteq> 0 then page_size l else unat PAGE_SIZE) = page_size l" by simp
  have unfold: "destroy_walk (l # ls) pt virt sz huge scope path st =
    (if stops st l pt virt sz then Ok (st, 0, (l, pt) # path, l # ls)
     else case (if leaf ?e then split_hugepage (l # ls) pt virt huge scope st else Ok (st, 0)) of
            Ok (st, err) \<Rightarrow>
              if err \<noteq> 0 then Ok (st, err, (l, pt) # path, l # ls)
              else (case p2v (pool st) (of_nat (get_next_pt (entry st pt ?i))) of
                      Ok pt' \<Rightarrow> destroy_walk ls pt' virt sz huge scope ((l, pt) # path) st
                    | _ \<Rightarrow> Panic)
          | _ \<Rightarrow> Panic)"
    unfolding destroy_walk.simps [of "l # ls"] list.case Let_def psl cond cov stops_def by auto
  show ?case
  proof (cases "stops st l pt virt sz")
    case True
    then show ?thesis unfolding unfold using Cons.prems upd_refl by auto
  next
    case False
    then have lv: "leaf ?e \<or> ptr ?e" by (auto simp: stops_def entry_valid_iff)
    have "\<exists>st1 err. (if leaf ?e then split_hugepage (l # ls) pt virt huge scope st else Ok (st, 0)) = Ok (st1, err) \<and>
        upd (l # ls) pt (slot l ?i) st st1 \<and> (err = 0 \<or> err = - errno_num ENOMEM) \<and>
        (err = 0 \<longrightarrow> ptr (entry st1 pt ?i) \<and> (\<forall>v. xl (l # ls) st1 pt v = xl (l # ls) st pt v))"
    proof (cases "leaf ?e")
      case True
      have "ls \<noteq> []"
      proof
        assume "ls = []"
        then have "page_size l = 0x1000" using Cons.prems(2) by (simp add: page_size_def UNTRANSLATED_BITS_def)
        then show False using False True al sz(1) by (auto simp: stops_def)
      qed
      then show ?thesis
        using split_spec [OF _ Cons.prems(2) _ t virt True, of huge scope] Cons.prems(1) True by simp
    next
      case False
      then show ?thesis using lv t by (simp add: upd_refl)
    qed
    then obtain st1 err where s1: "(if leaf ?e then split_hugepage (l # ls) pt virt huge scope st else Ok (st, 0)) = Ok (st1, err)"
      "upd (l # ls) pt (slot l ?i) st st1" "err = 0 \<or> err = - errno_num ENOMEM"
      "err = 0 \<longrightarrow> ptr (entry st1 pt ?i) \<and> (\<forall>v. xl (l # ls) st1 pt v = xl (l # ls) st pt v)" by blast
    note up = upd_path [OF Cons.prems(3,4) s1(2)]
    have sub: "{w. follows path virt w} \<inter> slot l ?i \<subseteq> ?S"
      using path_root_slot [OF Cons.prems(4)] Cons.prems(4) by (cases "path = []") auto
    have u1: "upd LS root ?S st st1" by (rule upd_mono [OF up(1) sub])
    show ?thesis
    proof (cases "err = 0")
      case True
      have p1: "ptr (entry st1 pt ?i)" using s1(4) True by blast
      have x1: "xl LS st1 root v = xl LS st root v" for v
        using up(3) [of v] s1(4) True path_xl [OF Cons.prems(4), of v] by auto
      have t1: "tree LS st1 root" by (rule upd_tree [OF u1])
      have pa: "pathto st1 LS root virt ((l, pt) # path) ls (child st1 pt ?i)" using up(2) p1 by simp
      have w1: "wft (p2v (pool st1)) (l # ls) (tables st1) pt"
        using path_tree(1) [OF t1 up(2)] by (simp add: tree_def)
      note nx = wft_ptr [OF w1 get_entry_less p1]
      have "destroy_walk (l # ls) pt virt sz huge scope path st =
          destroy_walk ls (child st1 pt ?i) virt sz huge scope ((l, pt) # path) st1"
        unfolding unfold using False s1(1) True nx(1) by (simp add: get_next_pt_def)
      moreover have "levels_ok ls" "subs_ok ls" using levels_ok_tl [OF Cons.prems(2) nx(4)] Cons.prems(1) by simp_all
      ultimately show ?thesis
        using Cons.IH [OF _ _ t1 pa] x1 upd_trans [OF u1] by auto
    next
      case err: False
      then have "destroy_walk (l # ls) pt virt sz huge scope path st = Ok (st1, err, (l, pt) # path, l # ls)"
        unfolding unfold using False s1(1) by simp
      then show ?thesis using u1 s1(3) err by simp
    qed
  qed
qed simp

text \<open>The way up clears exactly the slot the walk stopped in and gives back only tables of the tree.\<close>

lemma path_levels:
  assumes "pathto st LS root v path ls pt" and "levels_ok LS" and "ls \<noteq> []"
  shows "levels_ok ls \<and> (path \<noteq> [] \<longrightarrow> \<not> wide (hd ls))"
  using assms(1,3)
proof (induction path arbitrary: ls pt)
  case (Cons lp path)
  obtain l p where lp: "lp = (l, p)" by (cases lp)
  then have "levels_ok (l # ls)" using Cons.IH [of "l # ls" p] Cons.prems by auto
  then show ?case using Cons.prems(2) by (cases ls) auto
qed (use assms(2) in simp)

lemma page_table_empty_blank:
  "page_table_empty l tbl \<Longrightarrow> \<not> wide l \<Longrightarrow> i < nr_entries l \<Longrightarrow> \<not> entry_valid (tbl i)"
  by (simp add: page_table_empty_def nr_entries_def list_all_iff)

lemma clear_up_spec:
  assumes "levels_ok LS" and "tree LS st root" and "pathto st LS root virt path (l # ls) pt"
  shows "\<exists>st' dead. clear_up root virt ((l, pt) # path) st = (st', dead) \<and> pool st' = pool st \<and>
     upd LS root (slot (hd LS) (get_entry (hd LS) virt)) st st' \<and>
     (\<forall>w. xl LS st' root w = (if follows ((l, pt) # path) virt w then None else xl LS st root w)) \<and>
     tabs LS st' root \<subseteq> tabs LS st root \<and>
     sub (p2v (pool st)) ls (tables st) (entry st pt (get_entry l virt)) \<inter> tabs LS st' root = {} \<and>
     distinct dead \<and> set dead \<subseteq> insert pt (snd ` set path) \<and> set dead \<inter> tabs LS st' root = {}"
  using assms(2,3)
proof (induction path arbitrary: st l ls pt)
  case Nil
  then have LS: "LS = l # ls" "root = pt" by auto
  note w = upd_write [OF Nil.prems(1) [unfolded LS] get_entry_less zero_entry(2), of virt]
  show ?case unfolding LS using w by (auto simp: Let_def)
next
  case (Cons lp path)
  obtain l1 p1 where lp: "lp = (l1, p1)" by (cases lp)
  let ?path = "(l1, p1) # path" and ?i = "get_entry l virt" and ?S = "slot (hd LS) (get_entry (hd LS) virt)"
  let ?f = "p2v (pool st)"
  have pa: "pathto st LS root virt ?path (l # ls) pt" using Cons.prems(2) lp by simp
  have t: "tree (l # ls) st pt" by (rule path_tree(1) [OF Cons.prems(1) pa])
  define st1 where "st1 = write_entry pt ?i 0 st"
  have w: "upd (l # ls) pt (slot l ?i) st st1"
      "tabs (l # ls) st1 pt = tabs (l # ls) st pt - sub ?f ls (tables st) (entry st pt ?i)"
      "xl (l # ls) st1 pt v = (if get_entry l v = ?i then None else xl (l # ls) st pt v)" for v
    using upd_write [OF t get_entry_less zero_entry(2), of virt] by (simp_all add: st1_def)
  note up = upd_path [OF Cons.prems(1) pa w(1)]
  have u1: "upd LS root ?S st st1"
    by (rule upd_mono [OF up(1)]) (use path_root_slot [OF pa] in auto)
  have x1: "xl LS st1 root v = (if follows ((l, pt) # ?path) virt v then None else xl LS st root v)" for v
    using up(3) [of v] w(3) [of v] path_xl [OF pa, of v] by auto
  have ts1: "tabs LS st1 root \<subseteq> tabs LS st root" "sub ?f ls (tables st) (entry st pt ?i) \<inter> tabs LS st1 root = {}"
    using up(4) w(2) path_tree(2) [OF Cons.prems(1) pa] tset_Cons [of ?f l ls "tables st" pt] by auto
  have pool: "pool st1 = pool st" by (simp add: st1_def)
  let ?stop = "\<not> page_table_empty l (tables st1 pt) \<or> length ?path = 1 \<and> virt \<ge> unat USER_END \<and> root = kernel_root st1"
  have cu: "clear_up root virt ((l, pt) # ?path) st =
      (if ?stop then (st1, []) else let (st2, dead) = clear_up root virt ?path st1 in (st2, pt # dead))"
    by (auto simp: st1_def Let_def)
  show ?case
  proof (cases ?stop)
    case True
    then show ?thesis unfolding lp cu using u1 x1 ts1 pool by simp
  next
    case False
    have bl: "\<not> entry_valid (tables st1 pt j)" if "j < nr_entries l" for j
      using page_table_empty_blank [of l "tables st1 pt" j] False that path_levels [OF pa assms(1)] by simp
    note blank = tree_blank [of l "tables st1" pt, OF bl]
    have t1: "tree LS st1 root" by (rule upd_tree [OF u1])
    have pa1: "pathto st1 LS root virt path (l1 # l # ls) p1" and e1: "ptr (entry st1 p1 (get_entry l1 virt))"
        "child st1 p1 (get_entry l1 virt) = pt" using up(2) by auto
    from Cons.IH [OF t1 pa1] obtain st2 dead where IH: "clear_up root virt ?path st1 = (st2, dead)" "pool st2 = pool st1"
      "upd LS root ?S st1 st2" "\<forall>w. xl LS st2 root w = (if follows ?path virt w then None else xl LS st1 root w)"
      "tabs LS st2 root \<subseteq> tabs LS st1 root"
      "sub (p2v (pool st1)) (l # ls) (tables st1) (entry st1 p1 (get_entry l1 virt)) \<inter> tabs LS st2 root = {}"
      "distinct dead" "set dead \<subseteq> insert p1 (snd ` set path)" "set dead \<inter> tabs LS st2 root = {}" by blast
    have pt2: "pt \<notin> tabs LS st2 root"
      using IH(6) e1 blank(2) by (simp add: sub_def)
    have "pt \<notin> insert p1 (snd ` set path)" using path_tree(3,4) [OF Cons.prems(1) pa] by auto
    then have "pt \<notin> set dead" using IH(8) by blast
    moreover have "xl LS st2 root v = (if follows ((l, pt) # ?path) virt v then None else xl LS st root v)" for v
    proof (cases "follows ?path virt v")
      case True
      then have "xl LS st1 root v = None" using path_xl [OF up(2)] blank(3) by simp
      then show ?thesis using IH(4) x1 [of v] True by auto
    next
      case False
      then show ?thesis using IH(4) x1 [of v] by auto
    qed
    ultimately show ?thesis
      unfolding lp cu using False IH pt2 ts1 pool upd_trans [OF u1 IH(3)] by auto
  qed
qed

text \<open>Releasing tables that are not in the tree.\<close>

lemma free_tables_spec:
  assumes "gfp_ok (pool st)" and "distinct ts" and "set ts \<subseteq> held (pool st)"
  shows "\<exists>st'. free_tables ts st = (st', 0) \<and> tables st' = tables st \<and> gfp_ok (pool st') \<and>
    p2v (pool st') = p2v (pool st) \<and> held (pool st') = held (pool st) - set ts \<and>
    kernel_root st' = kernel_root st \<and> current_table st' = current_table st"
  using assms
proof (induction ts arbitrary: st)
  case (Cons t ts)
  from pp.release_law [OF Cons.prems(1), of t] Cons.prems(3) obtain as
    where as: "free_page (pool st) t = (as, 0)" "gfp_ok as" "p2v as = p2v (pool st)" "held as = held (pool st) - {t}"
    by auto
  let ?st = "note_event (Freed t) (st\<lparr>pool := as\<rparr>)"
  have "set ts \<subseteq> held (pool ?st)" using Cons.prems as(4) by auto
  from Cons.IH [of ?st, OF _ _ this] show ?case using as Cons.prems by auto
qed simp

text \<open>The addresses that reach the same entry form one slot of the level.\<close>

lemma get_entry_mod: "get_entry l w = w mod (nr_entries l * page_size l) div page_size l"
  unfolding get_entry_def page_size_def by (subst mult.commute) (simp add: mod_mult2_eq)

lemma path_dvd:
  assumes "pathto st LS root virt path (l # ls) pt" and "levels_ok LS"
  shows "nr_entries l * page_size l dvd reach LS"
  using assms(1)
proof (induction path arbitrary: l ls pt)
  case (Cons lp path)
  obtain l1 p1 where lp: "lp = (l1, p1)" by (cases lp)
  then have p: "pathto st LS root virt path (l1 # l # ls) p1" using Cons.prems by simp
  have "levels_ok (l1 # l # ls)" using path_levels [OF p assms(2)] by simp
  then have "nr_entries l * page_size l = page_size l1" using reach_tl [of l1 "l # ls"] by (simp add: reach_def)
  then show ?case using Cons.IH [OF p] by (metis dvd_mult_right)
qed (auto simp: reach_def)

lemma div_pair:
  fixes x y s n :: nat
  shows "x div s mod n = y div s mod n \<and> x div (n * s) = y div (n * s) \<longleftrightarrow> x div s = y div s"
proof
  assume "x div s mod n = y div s mod n \<and> x div (n * s) = y div (n * s)"
  then have "x div s mod n = y div s mod n" "x div s div n = y div s div n"
    by (simp_all add: div_mult2_eq [symmetric] mult.commute)
  then show "x div s = y div s" by (metis mult_div_mod_eq)
qed (simp add: mult.commute [of n s] div_mult2_eq)

lemma follows_slot:
  assumes "pathto st LS root virt path (l # ls) pt" and lo: "levels_ok LS"
  shows "follows ((l, pt) # path) virt w \<longleftrightarrow>
    w mod reach LS div page_size l = virt mod reach LS div page_size l"
  using assms(1)
proof (induction path arbitrary: l ls pt)
  case Nil
  then show ?case by (auto simp: get_entry_mod reach_def)
next
  case (Cons lp path)
  obtain l1 p1 where lp: "lp = (l1, p1)" by (cases lp)
  then have p: "pathto st LS root virt path (l1 # l # ls) p1" using Cons.prems by simp
  have "levels_ok (l1 # l # ls)" using path_levels [OF p lo] by simp
  then have s1: "page_size l1 = nr_entries l * page_size l" using reach_tl [of l1 "l # ls"] by (simp add: reach_def)
  have "get_entry l x = x mod reach LS div page_size l mod nr_entries l" for x
    unfolding get_entry_mod using path_dvd [OF Cons.prems lo]
    by (metis mod_mod_cancel get_entry_mod get_entry_def page_size_def)
  then show ?case using Cons.IH [OF p] div_pair lp s1 by auto
qed

lemma slot_range:
  fixes a x ps sz :: nat
  assumes "0 < ps" and "a \<le> x" and "x < a + min (ps - a mod ps) sz"
  shows "x div ps = a div ps"
proof -
  have m: "a mod ps < ps" using assms(1) by simp
  have "x - a + a mod ps < ps" using assms m by linarith
  moreover have "x = ps * (a div ps) + (x - a + a mod ps)" using assms(2) mult_div_mod_eq [of ps a] by linarith
  ultimately show ?thesis by (metis add_cancel_right_right assms(1) div_less div_mult_self4 less_not_refl2)
qed

lemma slot_full:
  fixes a x ps :: nat
  assumes "a mod ps = 0" and "0 < ps" and "x div ps = a div ps"
  shows "a \<le> x \<and> x < a + ps"
proof -
  have "a = ps * (x div ps)" using assms(1,3) mult_div_mod_eq [of ps a] by simp
  then show ?thesis using mult_div_mod_eq [of ps x] mod_less_divisor [OF assms(2), of x] by linarith
qed

lemma destroy_step:
  assumes lo: "levels_ok LS" and t: "tree LS st root" and r: "range_ok LS virt sz"
    and pa: "pathto st LS root virt q (l # ls) p" and sp: "stops st l p virt sz"
  shows "\<exists>st1 dead st2. clear_up root virt ((l, p) # q) st = (st1, dead) \<and>
     free_tables (rev dead) (flush_unmapped scope virt dead st1) = (st2, 0) \<and>
     upd LS root (slot (hd LS) (get_entry (hd LS) virt)) st st2 \<and>
     (\<forall>w. xl LS st2 root w =
       (if in_range LS virt (min (page_size l - virt mod page_size l) sz) w then None else xl LS st root w))"
proof -
  let ?S = "slot (hd LS) (get_entry (hd LS) virt)" and ?ps = "page_size l" and ?R = "reach LS"
  from clear_up_spec [OF lo t pa] obtain st1 dead where c: "clear_up root virt ((l, p) # q) st = (st1, dead)"
    "pool st1 = pool st" "upd LS root ?S st st1"
    "\<And>w. xl LS st1 root w = (if follows ((l, p) # q) virt w then None else xl LS st root w)"
    "distinct dead" "set dead \<subseteq> insert p (snd ` set q)" "set dead \<inter> tabs LS st1 root = {}" by blast
  let ?st1 = "flush_unmapped scope virt dead st1"
  have fl: "tables ?st1 = tables st1" "pool ?st1 = pool st1" "kernel_root ?st1 = kernel_root st1"
    "current_table ?st1 = current_table st1" by (cases scope; simp add: flush_unmapped_def)+
  have dead: "set dead \<subseteq> tabs LS st root" using c(6) path_tree(2,4,5) [OF t pa] by blast
  then have "set (rev dead) \<subseteq> held (pool ?st1)" using t c(2) fl by (auto simp: tree_def)
  from free_tables_spec [OF _ _ this] obtain st2 where f: "free_tables (rev dead) ?st1 = (st2, 0)"
    "tables st2 = tables st1" "gfp_ok (pool st2)" "p2v (pool st2) = p2v (pool st1)"
    "held (pool st2) = held (pool st1) - set dead" "kernel_root st2 = kernel_root st1"
    "current_table st2 = current_table st1"
    using c(2,5) t fl by (auto simp: tree_def)
  have u: "upd LS root ?S st st2"
    using c(3,7) dead f c(2) unfolding upd_def others_def tree_def by auto
  have x: "xl LS st2 root w = xl LS st1 root w" for w using f by simp
  have d: "?ps dvd ?R" using path_dvd [OF pa lo] by (rule dvd_mult_right)
  have m: "virt mod ?ps = virt mod ?R mod ?ps" by (rule mod_mod_cancel [OF d, symmetric])
  have "xl LS st2 root w = (if in_range LS virt (min (?ps - virt mod ?ps) sz) w then None else xl LS st root w)" for w
  proof (cases "follows ((l, p) # q) virt w")
    case True
    then have sl: "w mod ?R div ?ps = virt mod ?R div ?ps" using follows_slot [OF pa lo] by blast
    have "in_range LS virt (min (?ps - virt mod ?ps) sz) w \<or> xl LS st root w = None"
      using sp unfolding stops_def
    proof (elim disjE conjE)
      assume "\<not> entry_valid (entry st p (get_entry l virt))"
      then show ?thesis using path_xl [OF pa, of w] True by (simp add: xlate.simps(2) entry_valid_iff)
    next
      assume "virt mod ?ps = 0" "?ps \<le> sz"
      then show ?thesis using slot_full [OF _ page_size_pos sl] m by (simp add: in_range_def)
    qed
    then show ?thesis using c(4) [of w] x True by auto
  next
    case False
    then have "\<not> w mod ?R div ?ps = virt mod ?R div ?ps" using follows_slot [OF pa lo] by blast
    then have "\<not> in_range LS virt (min (?ps - virt mod ?ps) sz) w"
      using slot_range [OF page_size_pos] m unfolding in_range_def by metis
    then show ?thesis using c(4) [of w] x False by auto
  qed
  then show ?thesis using c(1) f(1) u by blast
qed

definition touched :: "paging \<Rightarrow> nat \<Rightarrow> nat \<Rightarrow> nat set" where
  "touched l virt sz = {w. \<exists>x. virt \<le> x \<and> x < virt + sz \<and> get_entry l w = get_entry l x}"

lemma touched_mono:
  shows "0 < sz \<Longrightarrow> slot l (get_entry l virt) \<subseteq> touched l virt sz"
    and "a \<le> sz \<Longrightarrow> touched l (virt + a) (sz - a) \<subseteq> touched l virt sz"
proof -
  show "slot l (get_entry l virt) \<subseteq> touched l virt sz" if "0 < sz"
    using that by (auto simp: touched_def intro: exI [of _ virt])
  show "touched l (virt + a) (sz - a) \<subseteq> touched l virt sz" if "a \<le> sz"
  proof
    fix w assume "w \<in> touched l (virt + a) (sz - a)"
    then obtain x where "virt + a \<le> x" "x < virt + sz" "get_entry l w = get_entry l x"
      using that by (auto simp: touched_def)
    then show "w \<in> touched l virt sz" unfolding touched_def mem_Collect_eq by (intro exI [of _ x]) simp
  qed
qed

lemma in_range_0 [simp]: "\<not> in_range ls virt 0 w"
  by (simp add: in_range_def)

lemma range_ok_advance:
  assumes r: "range_ok ls virt sz" and a: "a \<le> sz" "a mod 0x1000 = 0" and "a < reach ls - virt mod reach ls \<or> a < sz"
  shows "range_ok ls (virt + a) (sz - a)" and "(virt + a) mod reach ls = virt mod reach ls + a"
    and "in_range ls virt sz w \<longleftrightarrow> in_range ls virt a w \<or> in_range ls (virt + a) (sz - a) w"
proof -
  have lt: "virt mod reach ls + a < reach ls" using r assms(4) a(1) unfolding range_ok_def by linarith
  have "(virt + a) mod reach ls = (virt mod reach ls + a) mod reach ls" by (simp add: mod_add_left_eq)
  then show m: "(virt + a) mod reach ls = virt mod reach ls + a" using lt by simp
  have z: "virt mod 0x1000 = 0" "sz mod 0x1000 = 0" using r by (simp_all add: range_ok_def)
  have "(virt + a) mod 0x1000 = 0" using z a(2) unfolding mod_eq_0_iff_dvd by (intro dvd_add)
  moreover have "(sz - a) mod 0x1000 = 0" using z a(2) unfolding mod_eq_0_iff_dvd by (intro dvd_diff_nat)
  ultimately show "range_ok ls (virt + a) (sz - a)" using r a m unfolding range_ok_def by auto
  show "in_range ls virt sz w \<longleftrightarrow> in_range ls virt a w \<or> in_range ls (virt + a) (sz - a) w"
    using a m unfolding in_range_def by auto
qed

lemma destroy_loop_spec:
  assumes so: "subs_ok LS" and lo: "levels_ok LS" and "tree LS st root" and "range_ok LS virt sz"
  shows "\<exists>st' err. destroy_loop LS root scope virt sz huge st = Ok (st', err) \<and>
     upd LS root (touched (hd LS) virt sz) st st' \<and> (err = 0 \<or> err = - errno_num ENOMEM) \<and>
     (err = 0 \<longrightarrow> (\<forall>w. xl LS st' root w = (if in_range LS virt sz w then None else xl LS st root w)))"
  using assms(3,4)
proof (induction sz arbitrary: virt st rule: less_induct)
  case (less sz)
  show ?case
  proof (cases "sz = 0")
    case True
    then show ?thesis using less.prems by (simp add: destroy_loop.simps upd_refl)
  next
    case False
    let ?S = "slot (hd LS) (get_entry (hd LS) virt)"
    have al: "virt mod 0x1000 = 0" "sz mod 0x1000 = 0" "virt + sz \<le> 2 ^ 64"
      using less.prems(2) by (simp_all add: range_ok_def)
    have S: "?S \<subseteq> touched (hd LS) virt sz" using touched_mono(1) False by blast
    have start: "pathto st LS root virt [] LS root" and pos: "0 < sz" using False by simp_all
    from destroy_walk_spec [OF so lo less.prems(1) start al(1,2) pos al(3), of huge scope]
    obtain st1 err path rest where w: "destroy_walk LS root virt sz huge scope [] st = Ok (st1, err, path, rest)"
      "upd LS root ?S st st1" "err = 0 \<or> err = - errno_num ENOMEM"
      "err = 0 \<longrightarrow> (\<forall>v. xl LS st1 root v = xl LS st root v) \<and>
        (\<exists>l p q sub. path = (l, p) # q \<and> rest = l # sub \<and> levels_ok rest \<and> pathto st1 LS root virt q rest p \<and>
           stops st1 l p virt sz)" by blast
    show ?thesis
    proof (cases "err = 0")
      case e: False
      then have "destroy_loop LS root scope virt sz huge st = Ok (st1, err)"
        using w(1) False by (simp add: destroy_loop.simps)
      then show ?thesis using e w(2,3) upd_mono [OF _ S] by auto
    next
      case True
      then obtain l p q sub where p: "path = (l, p) # q" "rest = l # sub" "levels_ok (l # sub)"
        "pathto st1 LS root virt q (l # sub) p" "stops st1 l p virt sz" and x1: "\<And>v. xl LS st1 root v = xl LS st root v"
        using w(4) by blast
      let ?ps = "page_size l"
      define a where "a = ?ps - virt mod ?ps"
      from destroy_step [OF lo upd_tree [OF w(2)] less.prems(2) p(4,5), of scope, folded a_def]
      obtain st2 dead st3 where d: "clear_up root virt ((l, p) # q) st1 = (st2, dead)"
        "free_tables (rev dead) (flush_unmapped scope virt dead st2) = (st3, 0)" "upd LS root ?S st1 st3"
        "\<forall>w. xl LS st3 root w = (if in_range LS virt (min a sz) w then None else xl LS st1 root w)" by blast
      have u3: "upd LS root (touched (hd LS) virt sz) st st3" by (rule upd_mono [OF upd_trans [OF w(2) d(3)] S])
      have ss: "paging_slot_size (l # sub) = ?ps" by (simp add: page_size_def)
      have unf: "destroy_loop LS root scope virt sz huge st =
          (if a \<ge> sz then Ok (st3, 0) else destroy_loop LS root scope (w64 (virt + a)) (sz - a) huge st3)"
        using w(1) True False p(1,2) d(1,2) ss unfolding a_def
        by (subst destroy_loop.simps) (simp add: Let_def del: clear_up.simps paging_slot_size.simps)
      show ?thesis
      proof (cases "a \<ge> sz")
        case True
        then have "destroy_loop LS root scope virt sz huge st = Ok (st3, 0)" using unf by simp
        then show ?thesis using u3 d(4) x1 True by (simp add: min_def)
      next
        case lt: False
        then have as: "a \<le> sz" "a < sz" "0 < a" by (simp_all add: a_def)
        have "0x1000 dvd virt" using al(1) by (simp add: mod_eq_0_iff_dvd)
        then have "0x1000 dvd virt mod ?ps" using page_size_dvd(1) [OF p(3)] by (rule dvd_mod)
        then have am: "a mod 0x1000 = 0"
          unfolding a_def using dvd_diff_nat [OF page_size_dvd(1) [OF p(3)]] by (simp only: mod_eq_0_iff_dvd)
        note adv = range_ok_advance [OF less.prems(2) as(1) am]
        have nw: "w64 (virt + a) = virt + a" using al(3) as(2) by (simp add: w64_def)
        have "sz - a < sz" by (rule diff_less [OF as(3) pos])
        from less.IH [OF this upd_tree [OF u3] adv(1)] as(2) obtain st4 err4
          where i: "destroy_loop LS root scope (virt + a) (sz - a) huge st3 = Ok (st4, err4)"
          "upd LS root (touched (hd LS) (virt + a) (sz - a)) st3 st4" "err4 = 0 \<or> err4 = - errno_num ENOMEM"
          "err4 = 0 \<longrightarrow> (\<forall>w. xl LS st4 root w = (if in_range LS (virt + a) (sz - a) w then None else xl LS st3 root w))"
          by blast
        have "upd LS root (touched (hd LS) virt sz) st st4"
          by (rule upd_trans [OF u3 upd_mono [OF i(2) touched_mono(2) [OF as(1)]]])
        moreover have "xl LS st4 root w = (if in_range LS virt sz w then None else xl LS st root w)" if "err4 = 0" for w
          using i(4) that d(4) x1 adv(3) [of w] as by (simp add: min_def)
        moreover have "destroy_loop LS root scope virt sz huge st = Ok (st4, err4)" using unf lt nw i(1) by simp
        ultimately show ?thesis using i(3) by blast
      qed
    qed
  qed
qed

section \<open>Mapping\<close>

lemma upd_xl: "upd ls pt S st st' \<Longrightarrow> v \<notin> S \<Longrightarrow> xl ls st' pt v = xl ls st pt v"
  unfolding upd_def by blast

lemma level_page_dvd:
  assumes "levels_ok ls" and "l \<in> set ls"
  shows "page_size l dvd reach ls" and "0x1000 dvd page_size l"
proof -
  have "page_size l dvd reach ls \<and> 0x1000 dvd page_size l"
    using assms
  proof (induction ls)
    case (Cons k ls)
    have d: "page_size k dvd reach (k # ls)" by (simp add: reach_def)
    show ?case
    proof (cases "l = k")
      case True
      then show ?thesis using d page_size_dvd(1) [OF Cons.prems(1)] by simp
    next
      case False
      then have l: "l \<in> set ls" "ls \<noteq> []" using Cons.prems(2) by auto
      then have "page_size l dvd page_size k \<and> 0x1000 dvd page_size l"
        using Cons.IH [OF levels_ok_tl [OF Cons.prems(1) l(2)] l(1)] reach_tl [OF Cons.prems(1) l(2)] by simp
      then show ?thesis using d dvd_trans by blast
    qed
  qed simp
  then show "page_size l dvd reach ls" "0x1000 dvd page_size l" by blast+
qed

text \<open>The entry a walk for \<open>v\<close> passes, and the smaller slot inside of it.\<close>

lemma slot_nest:
  assumes lo: "levels_ok (l # ls)" and ls: "ls \<noteq> []" and m: "k \<in> set ls"
  shows "get_entry l w = get_entry l v \<and> w mod reach ls div page_size k = v mod reach ls div page_size k \<longleftrightarrow>
    w mod reach (l # ls) div page_size k = v mod reach (l # ls) div page_size k"
proof -
  have r: "reach ls = page_size l" using reach_tl [OF lo ls] by simp
  have R: "reach (l # ls) = nr_entries l * page_size l" by (simp add: reach_def)
  obtain n where n: "page_size l = n * page_size k"
    using level_page_dvd(1) [OF levels_ok_tl [OF lo ls] m] r by (metis dvdE mult.commute)
  have e: "x mod reach ls div page_size k = x mod reach (l # ls) div page_size k mod n" for x
  proof -
    have "x mod page_size l = x mod reach (l # ls) mod page_size l"
      by (rule mod_mod_cancel [symmetric]) (simp add: R)
    then show ?thesis unfolding r n by (simp add: mult.commute [of n] mod_mult2_eq)
  qed
  have "get_entry l x = x mod reach (l # ls) div (n * page_size k)" for x
    unfolding get_entry_mod R n [symmetric] ..
  then show ?thesis
    unfolding e using div_pair [of "w mod reach (l # ls)" "page_size k" n "v mod reach (l # ls)"] by auto
qed

definition walked :: "paging list \<Rightarrow> paging \<Rightarrow> nat \<Rightarrow> nat \<Rightarrow> u64 \<Rightarrow> (nat \<Rightarrow> (nat \<times> u64) option) \<Rightarrow> nat \<Rightarrow> (nat \<times> u64) option" where
  "walked ls l phys virt flags x w =
     (if w mod reach ls div page_size l = virt mod reach ls div page_size l
      then Some (phys + w mod page_size l, term_flags (hd ls) flags) else x w)"

lemma or_mod_zero:
  fixes a b :: nat
  shows "(a OR b) mod 2 ^ k = 0 \<longleftrightarrow> a mod 2 ^ k = 0 \<and> b mod 2 ^ k = 0"
  by (simp add: take_bit_eq_mod [symmetric] take_bit_or or_eq_0_iff)

lemma slot_touched:
  assumes "virt mod page_size l = 0"
  shows "touched l virt (page_size l) \<subseteq> slot l (get_entry l virt)"
proof
  fix w assume "w \<in> touched l virt (page_size l)"
  then obtain x where x: "virt \<le> x" "x < virt + page_size l" "get_entry l w = get_entry l x"
    by (auto simp: touched_def)
  have "x div page_size l = virt div page_size l"
    by (rule slot_range [OF page_size_pos x(1), where sz = "page_size l"]) (use x(2) assms in simp)
  then show "w \<in> slot l (get_entry l virt)" using x(3) by (simp add: get_entry_def page_size_def)
qed

text \<open>Putting a leaf into a table, after removing what was there.\<close>

lemma create_here:
  assumes so: "subs_ok (l # ls)" and lo: "levels_ok (l # ls)" and t: "tree (l # ls) st pt"
    and al: "virt mod page_size l = 0" "phys mod page_size l = 0" and b: "phys + page_size l \<le> 2 ^ 56"
      "virt + page_size l \<le> 2 ^ 64" and fl: "leaf_flags flags"
  defines "i \<equiv> get_entry l virt"
  shows "\<exists>st1 err st2. (if page_size l > unat PAGE_SIZE
        then paging_destroy (l # ls) pt scope virt (page_size l) huge st else Ok (st, 0)) = Ok (st1, err) \<and>
     st2 = write_entry pt i (set_terminal l phys flags) st1 \<and> upd (l # ls) pt (slot l i) st st2 \<and>
     (\<forall>w. xl (l # ls) st2 pt w = walked (l # ls) l phys virt flags (xl (l # ls) st pt) w)"
proof -
  note ps = page_size_dvd [OF lo]
  have al4: "virt mod 0x1000 = 0" "page_size l mod 0x1000 = 0" "phys mod 0x1000 = 0"
    using al ps(1) by (metis mod_mod_cancel mod_0 mod_eq_0_iff_dvd)+
  have "page_size l dvd reach (l # ls)" by (simp add: reach_def)
  moreover have "virt mod reach (l # ls) < reach (l # ls)" by (simp add: reach_def nr_entries_def)
  ultimately have "virt mod reach (l # ls) - virt mod reach (l # ls) mod page_size l + page_size l \<le> reach (l # ls)"
    by (rule slot_below)
  then have r: "range_ok (l # ls) virt (page_size l)"
    using al4 b al(1) \<open>page_size l dvd reach (l # ls)\<close> by (simp add: range_ok_def mod_mod_cancel)
  have "\<exists>st1 err. (if page_size l > unat PAGE_SIZE
        then paging_destroy (l # ls) pt scope virt (page_size l) huge st else Ok (st, 0)) = Ok (st1, err) \<and>
      upd (l # ls) pt (slot l i) st st1"
  proof (cases "page_size l > unat PAGE_SIZE")
    case True
    have "page_size l < 2 ^ 63" using ps(3) by (rule le_less_trans) simp
    then have pd: "paging_destroy (l # ls) pt scope virt (page_size l) huge st =
        destroy_loop (l # ls) pt scope virt (page_size l) huge st"
      using al4 page_up_mult [OF al4(2)] by (simp add: paging_destroy.simps)
    from destroy_loop_spec [OF so lo t r, of scope huge] obtain st1 err
      where "destroy_loop (l # ls) pt scope virt (page_size l) huge st = Ok (st1, err)"
        "upd (l # ls) pt (touched l virt (page_size l)) st st1" by auto
    then show ?thesis using True pd upd_mono [OF _ slot_touched [OF al(1)]] by (auto simp: i_def)
  qed (use t upd_refl in auto)
  then obtain st1 err where d: "(if page_size l > unat PAGE_SIZE
        then paging_destroy (l # ls) pt scope virt (page_size l) huge st else Ok (st, 0)) = Ok (st1, err)"
      "upd (l # ls) pt (slot l i) st st1" by blast
  let ?e = "set_terminal l phys flags"
  have "phys < 2 ^ 64" using b(1) by simp
  note te = set_terminal_entry [OF fl al4(3) this, of l]
  have "leaf_ok l ?e" using te al b by (simp add: leaf_ok_def)
  note w = upd_write [OF upd_tree [OF d(2)] get_entry_less leaf_not_ptr [OF te(1)] this, of virt]
  have "upd (l # ls) pt (slot l i) st (write_entry pt i ?e st1)"
    unfolding i_def by (rule upd_trans [OF d(2) [unfolded i_def] w(1)])
  moreover have "xl (l # ls) (write_entry pt i ?e st1) pt v = walked (l # ls) l phys virt flags (xl (l # ls) st pt) v" for v
  proof -
    have "v mod reach (l # ls) div page_size l = virt mod reach (l # ls) div page_size l \<longleftrightarrow> get_entry l v = i"
      by (simp add: get_entry_mod reach_def i_def)
    moreover have "get_entry l v \<noteq> i \<Longrightarrow> xl (l # ls) st1 pt v = xl (l # ls) st pt v"
      using upd_xl [OF d(2)] by simp
    ultimately show ?thesis using w(3) [of v] te by (simp add: walked_def i_def)
  qed
  ultimately show ?thesis using d(1) by blast
qed

lemma split_or_keep:
  assumes so: "subs_ok (l # ls)" and lo: "levels_ok (l # ls)" and ls: "ls \<noteq> []" and t: "tree (l # ls) st pt"
    and virt: "virt < 2 ^ 64" and v: "entry_valid (entry st pt (get_entry l virt))"
  shows "\<exists>st' err. split_hugepage (l # ls) pt virt huge scope st = Ok (st', err) \<and>
     upd (l # ls) pt (slot l (get_entry l virt)) st st' \<and> (err = 0 \<or> err = - errno_num ENOMEM) \<and>
     (err = 0 \<longrightarrow> ptr (entry st' pt (get_entry l virt)) \<and> (\<forall>v. xl (l # ls) st' pt v = xl (l # ls) st pt v))"
proof (cases "leaf (entry st pt (get_entry l virt))")
  case True
  have "create_ok ls" using so ls by simp
  then show ?thesis by (rule split_spec [OF _ lo ls t virt True])
next
  case False
  then have "ptr (entry st pt (get_entry l virt))" using v by (simp add: entry_valid_iff)
  then show ?thesis using t get_phys_not_leaf [OF False]
    by (simp add: split_hugepage.simps Let_def upd_refl)
qed

lemma create_walk_spec:
  assumes "subs_ok ls" and "levels_ok ls" and "tree ls st pt"
    and al: "virt mod 0x1000 = 0" "sz mod 0x1000 = 0" "phys mod 0x1000 = 0" and sz: "0 < sz" "virt + sz \<le> 2 ^ 64"
      "phys + sz \<le> 2 ^ 56" and fl: "leaf_flags flags"
  shows "\<exists>st' err k. create_walk ls pt scope phys sz virt flags huge st = Ok (st', err, k) \<and>
     upd ls pt UNIV st st' \<and> (err = 0 \<or> err = - errno_num ENOMEM) \<and>
     (err = 0 \<longrightarrow> k \<in> set ls \<and> page_size k \<le> sz \<and> virt mod page_size k = 0 \<and>
        (\<forall>w. xl ls st' pt w = walked ls k phys virt flags (xl ls st pt) w))"
  using assms(1-3)
proof (induction ls arbitrary: st pt)
  case (Cons l ls)
  let ?i = "get_entry l virt"
  let ?here = "page_size l > 0 \<and> page_size l \<le> sz \<and> (phys OR virt) mod page_size l = 0 \<and>
    (huge \<or> page_size l = unat PAGE_SIZE)"
  have virt: "virt < 2 ^ 64" using sz by linarith
  show ?case
  proof (cases ?here)
    case True
    then have a: "virt mod page_size l = 0" "phys mod page_size l = 0" "page_size l \<le> sz"
      unfolding page_size_def or_mod_zero by auto
    have b: "phys + page_size l \<le> 2 ^ 56" "virt + page_size l \<le> 2 ^ 64" using a(3) sz by linarith+
    from create_here [OF Cons.prems a(1,2) b fl, of scope huge] obtain st1 err st2
      where c: "(if page_size l > unat PAGE_SIZE
        then paging_destroy (l # ls) pt scope virt (page_size l) huge st else Ok (st, 0)) = Ok (st1, err)"
        "st2 = write_entry pt ?i (set_terminal l phys flags) st1" "upd (l # ls) pt (slot l ?i) st st2"
        "\<forall>w. xl (l # ls) st2 pt w = walked (l # ls) l phys virt flags (xl (l # ls) st pt) w" by blast
    have "create_walk (l # ls) pt scope phys sz virt flags huge st = Ok (st2, 0, l)"
      unfolding create_walk.simps [of "l # ls"] list.case Let_def using True c(1,2) by simp
    then show ?thesis using c(3,4) a upd_mono [OF c(3)] by auto
  next
    case False
    have ls: "ls \<noteq> []"
    proof
      assume "ls = []"
      then have p: "page_size l = 2 ^ 12" using Cons.prems(2) by (simp add: page_size_def UNTRANSLATED_BITS_def)
      have "(phys OR virt) mod 2 ^ 12 = 0" unfolding or_mod_zero using al by simp
      then show False using False sz(1) al(2) by (auto simp: p)
    qed
    note cw = create_walk.simps [of "l # ls" pt scope phys sz virt flags huge st, unfolded list.case Let_def if_not_P [OF False]]
    note lo = levels_ok_tl [OF Cons.prems(2) ls]
    have sub: "subs_ok ls" using Cons.prems(1) by simp
    text \<open>Both ways on go down into the table the entry points to.\<close>
    have down: "\<exists>st' err k. create_walk ls c scope phys sz virt flags huge st1 = Ok (st', err, k) \<and>
        upd (l # ls) pt UNIV st st' \<and> (err = 0 \<or> err = - errno_num ENOMEM) \<and>
        (err = 0 \<longrightarrow> k \<in> set (l # ls) \<and> page_size k \<le> sz \<and> virt mod page_size k = 0 \<and>
          (\<forall>w. xl (l # ls) st' pt w = walked (l # ls) k phys virt flags (xl (l # ls) st pt) w))"
      if u: "upd (l # ls) pt UNIV st st1" and p: "ptr (entry st1 pt ?i)" and c: "c = child st1 pt ?i"
        and x: "\<And>w. xl (l # ls) st1 pt w = xl (l # ls) st pt w" for st1 c
    proof -
      note t1 = upd_tree [OF u]
      from Cons.IH [OF sub lo tree_child(1) [OF t1 get_entry_less p], folded c] obtain st' err k
        where r: "create_walk ls c scope phys sz virt flags huge st1 = Ok (st', err, k)" "upd ls c UNIV st1 st'"
          "err = 0 \<or> err = - errno_num ENOMEM" "err = 0 \<longrightarrow> k \<in> set ls \<and> page_size k \<le> sz \<and> virt mod page_size k = 0 \<and>
            (\<forall>w. xl ls st' c w = walked ls k phys virt flags (xl ls st1 c) w)"
        by (elim exE conjE) (rule that)
      note ch = upd_child [OF t1 get_entry_less p r(2) [unfolded c]]
      have tf: "term_flags (hd ls) = term_flags l" using reach_tl [OF Cons.prems(2) ls] term_flags_guest by blast
      have nl: "\<not> leaf (entry st1 pt ?i)" using p leaf_not_ptr by blast
      have "xl (l # ls) st' pt w = walked (l # ls) k phys virt flags (xl (l # ls) st pt) w" if e: "err = 0" for w
      proof -
        have k: "k \<in> set ls" and xw: "xl ls st' c w = walked ls k phys virt flags (xl ls st1 c) w" using r(4) e by blast+
        note n = slot_nest [OF Cons.prems(2) ls k, of w virt]
        show ?thesis
        proof (cases "get_entry l w = ?i")
          case True
          then have "xl (l # ls) st1 pt w = xl ls st1 c w" using p nl c by (simp add: xlate.simps(2) Let_def)
          then show ?thesis using ch(3) [of w] True c xw n x [of w] tf by (simp add: walked_def)
        next
          case False
          then show ?thesis using ch(3) [of w] n x [of w] by (simp add: walked_def)
        qed
      qed
      then show ?thesis using r upd_trans [OF u upd_mono [OF ch(1)]] by auto
    qed
    show ?thesis
    proof (cases "entry_valid (entry st pt ?i)")
      case True
      from split_or_keep [OF Cons.prems(1,2) ls Cons.prems(3) virt True, of huge scope] obtain st1 err
        where s: "split_hugepage (l # ls) pt virt huge scope st = Ok (st1, err)" "upd (l # ls) pt (slot l ?i) st st1"
          "err = 0 \<or> err = - errno_num ENOMEM"
          "err = 0 \<longrightarrow> ptr (entry st1 pt ?i) \<and> (\<forall>v. xl (l # ls) st1 pt v = xl (l # ls) st pt v)" by blast
      have u: "upd (l # ls) pt UNIV st st1" by (rule upd_mono [OF s(2)]) simp
      show ?thesis
      proof (cases "err = 0")
        case e: True
        have w1: "wft (p2v (pool st1)) (l # ls) (tables st1) pt" using upd_tree [OF u] by (simp add: tree_def)
        have p: "ptr (entry st1 pt ?i)" using s(4) e by blast
        have "create_walk (l # ls) pt scope phys sz virt flags huge st =
            create_walk ls (child st1 pt ?i) scope phys sz virt flags huge st1"
          unfolding cw using True s(1) e wft_ptr(1) [OF w1 get_entry_less p] by (simp add: get_next_pt_def)
        then show ?thesis using down [OF u p refl] s(4) e by simp
      next
        case e: False
        have "create_walk (l # ls) pt scope phys sz virt flags huge st = Ok (st1, err, l)"
          unfolding cw using True s(1) e by simp
        then show ?thesis using u s(3) e by simp
      qed
    next
      case inv: False
      have ok: "gfp_ok (pool st)" using Cons.prems(3) by (simp add: tree_def)
      then show ?thesis
      proof (cases rule: zalloc_cases)
        case full
        then have "create_walk (l # ls) pt scope phys sz virt flags huge st = Ok (st, - errno_num ENOMEM, l)"
          unfolding cw using inv by simp
        then show ?thesis using Cons.prems(3) upd_refl by simp
      next
        case (page st1 tb p)
        note lk = upd_link [OF Cons.prems(3) get_entry_less ls page(3-7) page(9-12), of virt]
        let ?st2 = "write_entry pt ?i (set_next_pt l (unat p)) st1"
        have "create_walk (l # ls) pt scope phys sz virt flags huge st =
            create_walk ls tb scope phys sz virt flags huge ?st2"
          unfolding cw using inv page(1,2,8) by simp
        moreover have "xl (l # ls) ?st2 pt w = xl (l # ls) st pt w" for w
          using lk(4) [of w] inv by (auto simp: xlate.simps(2) entry_valid_iff)
        ultimately show ?thesis using down [OF upd_mono [OF lk(1)] lk(2) lk(3) [symmetric]] by simp
      qed
    qed
  qed
qed simp

lemma walked_range:
  assumes "virt mod page_size k = 0" and "page_size k dvd reach ls"
  shows "w mod reach ls div page_size k = virt mod reach ls div page_size k \<longleftrightarrow> in_range ls virt (page_size k) w"
    and "in_range ls virt (page_size k) w \<Longrightarrow> w mod page_size k = w mod reach ls - virt mod reach ls"
proof -
  let ?ps = "page_size k" and ?x = "w mod reach ls" and ?a = "virt mod reach ls"
  have a: "?a mod ?ps = 0" using assms by (simp add: mod_mod_cancel)
  show iff: "?x div ?ps = ?a div ?ps \<longleftrightarrow> in_range ls virt ?ps w"
    using slot_full [OF a page_size_pos, of ?x] slot_range [OF page_size_pos [of k], where a = ?a and x = ?x and sz = ?ps] a
    by (auto simp: in_range_def)
  assume "in_range ls virt ?ps w"
  then have d: "?x div ?ps = ?a div ?ps" using iff by simp
  have "w mod ?ps = ?x mod ?ps" using assms(2) by (simp add: mod_mod_cancel)
  moreover have "?ps * (?x div ?ps) = ?a" using d a mult_div_mod_eq [of ?ps ?a] by simp
  ultimately show "w mod ?ps = ?x - ?a" using mult_div_mod_eq [of ?ps ?x] by linarith
qed

lemma flush_mapped_simps [simp]:
  "tables (flush_mapped scope virt st) = tables st" "pool (flush_mapped scope virt st) = pool st"
  "tree ls (flush_mapped scope virt st) pt = tree ls st pt"
  "upd ls pt S st' (flush_mapped scope virt st) = upd ls pt S st' st"
  by (cases scope; simp add: flush_mapped_def)+

lemma create_ok_step:
  assumes so: "subs_ok ls" and lo: "levels_ok ls"
  shows "create_ok ls"
proof -
  have main: "\<exists>st' err. create_loop ls pt scope phys sz virt flags huge st = Ok (st', err) \<and>
        upd ls pt UNIV st st' \<and> (err = 0 \<or> err = - errno_num ENOMEM) \<and>
        (err = 0 \<longrightarrow> (\<forall>v. xl ls st' pt v = mapped ls phys sz virt flags (xl ls st pt) v))"
    if "tree ls st pt" "range_ok ls virt sz" "phys mod 0x1000 = 0" "phys + sz \<le> 2 ^ 56" "leaf_flags flags"
    for st pt scope phys sz virt flags huge
    using that
  proof (induction sz arbitrary: st phys virt rule: less_induct)
    case (less sz)
    show ?case
    proof (cases "sz = 0")
      case True
      then show ?thesis using less.prems by (simp add: create_loop.simps upd_refl mapped_def)
    next
      case False
      then have pos: "0 < sz" by simp
      have al: "virt mod 0x1000 = 0" "sz mod 0x1000 = 0" "virt + sz \<le> 2 ^ 64"
        using less.prems(2) by (simp_all add: range_ok_def)
      from create_walk_spec [OF so lo less.prems(1) al(1,2) less.prems(3) pos al(3) less.prems(4,5), of scope huge]
      obtain st1 err k where w: "create_walk ls pt scope phys sz virt flags huge st = Ok (st1, err, k)"
        "upd ls pt UNIV st st1" "err = 0 \<or> err = - errno_num ENOMEM"
        "err = 0 \<longrightarrow> k \<in> set ls \<and> page_size k \<le> sz \<and> virt mod page_size k = 0 \<and>
          (\<forall>w. xl ls st1 pt w = walked ls k phys virt flags (xl ls st pt) w)"
        by (elim exE conjE) (rule that)
      show ?thesis
      proof (cases "err = 0")
        case e: False
        then have "create_loop ls pt scope phys sz virt flags huge st = Ok (st1, err)"
          using w(1) False by (simp add: create_loop.simps)
        then show ?thesis using w(2,3) e by simp
      next
        case True
        define a where "a = page_size k"
        have k: "k \<in> set ls" "a \<le> sz" "virt mod a = 0"
          and x1: "\<And>w. xl ls st1 pt w = walked ls k phys virt flags (xl ls st pt) w"
          using w(4) True by (auto simp: a_def)
        let ?st1 = "flush_mapped scope virt st1"
        note d = level_page_dvd [OF lo k(1), folded a_def]
        note wr = walked_range [OF k(3) [unfolded a_def] d(1) [unfolded a_def], folded a_def]
        have apos: "0 < a" by (simp add: a_def)
        have x2: "xl ls st1 pt v = mapped ls phys a virt flags (xl ls st pt) v" for v
          using x1 [of v] wr [of v] by (simp add: walked_def mapped_def a_def)
        have unf: "create_loop ls pt scope phys sz virt flags huge st =
            create_loop ls pt scope (w64 (phys + a)) (sz - a) (w64 (virt + a)) flags huge ?st1"
          using w(1) True False unfolding a_def by (subst create_loop.simps) simp
        show ?thesis
        proof (cases "a = sz")
          case eq: True
          then have "create_loop ls pt scope phys sz virt flags huge st = Ok (?st1, 0)"
            unfolding unf by (simp add: create_loop.simps)
          then show ?thesis using w(2) x2 eq by simp
        next
          case ne: False
          then have lt: "a < sz" using k(2) by simp
          have am: "a mod 0x1000 = 0" using d(2) by (simp add: mod_eq_0_iff_dvd)
          note adv = range_ok_advance [OF less.prems(2) k(2) am disjI2 [OF lt]]
          have nw: "w64 (phys + a) = phys + a" "w64 (virt + a) = virt + a"
            using al(3) less.prems(4) lt by (simp_all add: w64_def)
          have ph: "(phys + a) mod 0x1000 = 0" "phys + a + (sz - a) \<le> 2 ^ 56"
            using less.prems(3,4) am lt by (simp_all add: mod_add_eq [symmetric])
          have t1: "tree ls ?st1 pt" using upd_tree [OF w(2)] by simp
          have r1: "range_ok ls (virt + a) (sz - a)" by (rule adv(1))
          have "sz - a < sz" by (rule diff_less [OF apos pos])
          from less.IH [OF this t1 r1 ph less.prems(5)] obtain st2 err2
            where i: "create_loop ls pt scope (phys + a) (sz - a) (virt + a) flags huge ?st1 = Ok (st2, err2)"
              "upd ls pt UNIV ?st1 st2" "err2 = 0 \<or> err2 = - errno_num ENOMEM"
              "err2 = 0 \<longrightarrow> (\<forall>v. xl ls st2 pt v = mapped ls (phys + a) (sz - a) (virt + a) flags (xl ls ?st1 pt) v)"
            by (elim exE conjE) (rule that)
          have "upd ls pt UNIV st st2" by (rule upd_trans [OF _ i(2)]) (use w(2) in simp)
          moreover have "xl ls st2 pt v = mapped ls phys sz virt flags (xl ls st pt) v" if "err2 = 0" for v
            using i(4) that x2 [of v] adv(2) adv(3) [of v] lt by (auto simp: mapped_def in_range_def)
          ultimately show ?thesis using i(1,3) unfolding unf nw by blast
        qed
      qed
    qed
  qed
  show ?thesis unfolding create_ok_def by (intro allI impI) (rule main)
qed

lemma levels_subs_ok: "levels_ok ls \<Longrightarrow> subs_ok ls"
proof (induction ls)
  case (Cons l ls)
  show ?case
  proof (cases "ls = []")
    case False
    note lo = levels_ok_tl [OF Cons.prems False]
    show ?thesis using Cons.IH [OF lo] create_ok_step [OF Cons.IH [OF lo] lo] by simp
  qed simp
qed simp

lemmas create_ok_levels = create_ok_step [OF levels_subs_ok]

end
