(* ===== verification/Paging_Inv.thy ===== *)
theory Paging_Inv
  imports Paging_Tree
begin

text \<open>
  A rule for properties that mapping and unmapping keep whatever the tables look like: a
  locale for a property that every elementary action keeps, and its consequence for the
  routines. It is used for the order of flushes and releases and, here, for the memory areas:
  the routines change bitmaps, never the places of areas.
\<close>

text \<open>The property holds in the state an outcome has as its first component.\<close>

fun ends :: "(pgs \<Rightarrow> bool) \<Rightarrow> (pgs \<times> 'a) result \<Rightarrow> bool" where
  "ends P (Ok (st, _)) \<longleftrightarrow> P st"
| "ends P _ \<longleftrightarrow> True"

lemma ends_map:
  "(\<And>st x. r = Ok (st, x) \<Longrightarrow> P st \<Longrightarrow> ends P (g st x)) \<Longrightarrow> ends P r \<Longrightarrow>
   ends P (case r of Ok (st, x) \<Rightarrow> g st x | Err e \<Rightarrow> Panic | Panic \<Rightarrow> Panic)"
  by (cases r) auto

text \<open>As for correctness, by induction on the levels.\<close>

definition orderly :: "(pgs \<Rightarrow> bool) \<Rightarrow> tlb_scope \<Rightarrow> paging list \<Rightarrow> bool" where
  "orderly P scope ls \<longleftrightarrow> (\<forall>pt phys sz virt flags huge st. P st \<longrightarrow>
     ends P (create_loop ls pt scope phys sz virt flags huge st))"

fun orderly_below :: "(pgs \<Rightarrow> bool) \<Rightarrow> tlb_scope \<Rightarrow> paging list \<Rightarrow> bool" where
  "orderly_below P scope [] \<longleftrightarrow> True"
| "orderly_below P scope (l # ls) \<longleftrightarrow> orderly P scope ls \<and> orderly_below P scope ls"

locale table_property =
  fixes P :: "pgs \<Rightarrow> bool" and scope :: tlb_scope
  assumes wr: "P st \<Longrightarrow> P (write_entry pt i e st)"
    and tk: "zalloc_page st = Ok (st', t) \<Longrightarrow> P st \<Longrightarrow> P st'"
    and gv: "P st \<Longrightarrow> clear_up root virt path st = (st1, dead) \<Longrightarrow>
      free_tables (rev dead) (flush_unmapped scope virt dead st1) = (st2, err) \<Longrightarrow> P st2"
    and fl: "P st \<Longrightarrow> P (flush_mapped scope virt st)"
begin

declare wr [simp]

lemma split_ends:
  assumes "orderly P scope ls" and "P st"
  shows "ends P (split_hugepage (l # ls) pt virt huge scope st)"
  using assms tk [of st]
  by (auto simp: split_hugepage.simps paging_create.simps orderly_def Let_def split: result.splits)

lemma destroy_walk_ends:
  assumes "orderly_below P scope ls" and "P st"
  shows "ends P (destroy_walk ls pt virt sz huge scope path st)"
  using assms
proof (induction ls arbitrary: pt path st)
  case (Cons l ls)
  let ?r = "if get_phys l (entry st pt (get_entry l virt)) virt \<noteq> unat INVALID_PHYS_ADDR
    then split_hugepage (l # ls) pt virt huge scope st else Ok (st, 0)"
  have "ends P ?r" using split_ends [of ls st] Cons.prems by simp
  then have "ends P (case ?r of
      Ok (st, err) \<Rightarrow>
        if err \<noteq> 0 then Ok (st, err, (l, pt) # path, l # ls)
        else (case p2v (pool st) (of_nat (get_next_pt (tables st pt (get_entry l virt)))) of
                Ok pt' \<Rightarrow> destroy_walk ls pt' virt sz huge scope ((l, pt) # path) st
              | _ \<Rightarrow> Panic)
    | Err e \<Rightarrow> Panic | Panic \<Rightarrow> Panic)"
    by (intro ends_map) (use Cons in \<open>auto split: result.splits\<close>)
  then show ?case using Cons.prems by (subst destroy_walk.simps) (simp add: Let_def)
qed (simp add: destroy_walk.simps)

lemma destroy_loop_ends:
  assumes "orderly_below P scope ls" and "P st"
  shows "ends P (destroy_loop ls root scope virt sz huge st)"
  using assms(2)
proof (induction sz arbitrary: virt st rule: less_induct)
  case (less sz)
  note k = destroy_walk_ends [OF assms(1) less.prems, of root virt sz huge "[]"]
  show ?case
  proof (cases "destroy_walk ls root virt sz huge scope [] st")
    case (Ok r)
    obtain st1 err path rest where r: "r = (st1, err, path, rest)" by (cases r)
    obtain st2 dead where c: "clear_up root virt path st1 = (st2, dead)" by fastforce
    obtain st3 err3 where f: "free_tables (rev dead) (flush_unmapped scope virt dead st2) = (st3, err3)" by fastforce
    have s1: "P st1" using k Ok r by simp
    then have s3: "P st3" by (rule gv [OF _ c f])
    let ?a = "paging_slot_size rest - virt mod paging_slot_size rest"
    have "ends P (destroy_loop ls root scope (w64 (virt + ?a)) (sz - ?a) huge st3)" if "\<not> ?a \<ge> sz"
      by (rule less.IH [OF _ s3]) (use that slot_shrinks in simp)
    then show ?thesis
      using Ok r c f s1 s3 less.prems by (subst destroy_loop.simps) (simp add: Let_def)
  qed (use less.prems in \<open>simp_all add: destroy_loop.simps\<close>)
qed

lemma create_walk_ends:
  assumes "orderly_below P scope ls" and "P st"
  shows "ends P (create_walk ls pt scope phys sz virt flags huge st)"
  using assms
proof (induction ls arbitrary: pt st)
  case (Cons l ls)
  let ?i = "get_entry l virt"
  have d: "ends P (if page_size l > unat PAGE_SIZE
      then paging_destroy (l # ls) pt scope virt (page_size l) huge st else Ok (st, 0))"
    using destroy_loop_ends [OF Cons.prems(1,2)] Cons.prems(2)
    by (simp add: paging_destroy.simps)
  have s: "ends P (split_hugepage (l # ls) pt virt huge scope st)" using split_ends Cons.prems by simp
  have "ends P (case (if page_size l > unat PAGE_SIZE
        then paging_destroy (l # ls) pt scope virt (page_size l) huge st else Ok (st, 0)) of
      Ok (st, err) \<Rightarrow> Ok (write_entry pt ?i (set_terminal l phys flags) st, 0 :: int, l) | _ \<Rightarrow> Panic)"
    using d by (auto split: result.splits)
  moreover have "ends P (case split_hugepage (l # ls) pt virt huge scope st of
      Ok (st, err) \<Rightarrow>
        if err \<noteq> 0 then Ok (st, err, l)
        else (case p2v (pool st) (of_nat (get_next_pt (tables st pt ?i))) of
                Ok pt' \<Rightarrow> create_walk ls pt' scope phys sz virt flags huge st | _ \<Rightarrow> Panic)
    | _ \<Rightarrow> Panic)"
    using s Cons by (auto split: result.splits)
  moreover have "ends P (case zalloc_page st of
      Ok (st, tbl) \<Rightarrow>
        if tbl = 0 then Ok (st, - errno_num ENOMEM, l)
        else (case virt_to_phys st tbl of
                Ok nxt \<Rightarrow> create_walk ls tbl scope phys sz virt flags huge
                  (write_entry pt ?i (set_next_pt l (unat nxt)) st)
              | _ \<Rightarrow> Panic)
    | _ \<Rightarrow> Panic)"
    using Cons tk [of st] by (auto split: result.splits)
  ultimately show ?case
    unfolding create_walk.simps [of "l # ls"] list.case Let_def by (simp only: split: if_split) simp
qed (simp add: create_walk.simps)

lemma create_loop_ends:
  assumes "orderly_below P scope ls" and "P st"
  shows "ends P (create_loop ls pt scope phys sz virt flags huge st)"
  using assms(2)
proof (induction sz arbitrary: phys virt st rule: less_induct)
  case (less sz)
  note k = create_walk_ends [OF assms(1) less.prems, of pt phys sz virt flags huge]
  show ?case
  proof (cases "create_walk ls pt scope phys sz virt flags huge st")
    case (Ok r)
    obtain st1 err l where r: "r = (st1, err, l)" by (cases r)
    have s: "P (flush_mapped scope virt st1)" using k Ok r fl by simp
    have "ends P (create_loop ls pt scope (w64 (phys + page_size l)) (sz - page_size l)
        (w64 (virt + page_size l)) flags huge (flush_mapped scope virt st1))" if "sz \<noteq> 0"
      by (rule less.IH [OF _ s]) (use that in simp)
    then show ?thesis using Ok r k less.prems by (subst create_loop.simps) simp
  qed (use less.prems in \<open>simp_all add: create_loop.simps\<close>)
qed

lemma orderly_all:
  "orderly_below P scope ls"
  by (induction ls) (use create_loop_ends in \<open>auto simp: orderly_def\<close>)

lemma paging_ends:
  assumes "P st"
  shows "ends P (paging_destroy ls pt scope virt sz huge st)"
    and "ends P (paging_create ls pt scope phys sz virt flags huge st)"
  using destroy_loop_ends create_loop_ends orderly_all assms
  by (simp_all add: paging_destroy.simps paging_create.simps)

end

section \<open>The memory areas stay in place\<close>

lemma alloc_geom:
  "alloc_pages_loop as err n al hint = Ok (as', err', r) \<Longrightarrow> map geom as' = map geom as"
proof (induction as arbitrary: err as' err' r hint)
  case (Cons a as)
  have m: "geom a' = geom a" if "memory_area_alloc_aligned a h n al x = Ok (a', e, f)" for a' e f h x
    using that by (auto simp: memory_area_alloc_aligned_def Let_def geom_def split: if_splits prod.splits)
  have l: "map geom as' = map geom (a' # as)"
    if "after_area a' (alloc_pages_loop as e n al x) = Ok (as', err', r)" for a' e x
    using that Cons.IH [of e] by (cases "alloc_pages_loop as e n al x") auto
  from Cons.prems show ?case
    by (auto split: if_splits result.splits prod.splits dest!: m l)
qed simp

lemma zalloc_geom: "zalloc_page st = Ok (st', t) \<Longrightarrow> map geom (pool st') = map geom (pool st)"
  using alloc_geom [of "pool st" "- errno_num EINVAL" 1 "unat PAGE_SIZE" 0]
  by (auto simp: zalloc_page_def alloc_pages_def alloc_pages_aligned_def alloc_pages_aligned_hint_def
      split: result.splits if_splits)

lemma free_page_geom: "map geom (fst (free_page as v)) = map geom as"
proof -
  have "map geom (as[i := (as ! i)\<lparr>a_bitmap := b\<rparr>]) = map geom as" for i b
    by (cases "i < length as") (auto simp: geom_def nth_list_update intro: nth_equalityI)
  then show ?thesis by (simp add: free_page_def free_pages_def Let_def split: option.split)
qed

lemma free_tables_geom: "map geom (pool (fst (free_tables ts st))) = map geom (pool st)"
proof (induction ts st rule: free_tables.induct)
  case (2 t ts st)
  then show ?case using free_page_geom [of "pool st" t] by (auto simp: Let_def split: prod.splits)
qed simp

lemma clear_up_pool: "pool (fst (clear_up root virt path st)) = pool st"
  by (induction root virt path st rule: clear_up.induct) (auto simp: Let_def split: prod.splits)

lemma flush_pool [simp]: "pool (flush_unmapped scope virt dead st) = pool st" "pool (flush_mapped scope virt st) = pool st"
  by (cases scope; simp add: flush_unmapped_def flush_mapped_def)+

interpretation ge: table_property "\<lambda>st. map geom (pool st) = G" scope for G scope
proof unfold_locales
  fix st root virt path st1 dead st2 err
  assume "map geom (pool st) = G" "clear_up root virt path st = (st1, dead)"
    "free_tables (rev dead) (flush_unmapped scope virt dead st1) = (st2, err)"
  then show "map geom (pool st2) = G"
    using clear_up_pool [of root virt path st] free_tables_geom [of "rev dead" "flush_unmapped scope virt dead st1"] by simp
qed (simp_all add: zalloc_geom)

end
