(* ===== verification/Paging_Safety.thy ===== *)
theory Paging_Safety
  imports Paging_Ops
begin

text \<open>
  The properties of the page-table interface: what \<^verbatim>\<open>map_range\<close> and \<^verbatim>\<open>unmap_range\<close> do to the
  translation, that they return, in which order tables are flushed and released, and what
  the entry format does with mappings that have no access rights or belong to a process.
\<close>

section \<open>The two formats\<close>

lemma levels_root: "levels_ok root_paging" "reach root_paging = 2 ^ 39" "hd root_paging = sv_level 2"
  by (simp_all add: root_paging_def riscv_Sv39_def sv_level_def reach_def nr_entries_def page_size_def
      UNTRANSLATED_BITS_def PAGE_LEVEL_BITS_def)

lemma levels_vm: "levels_ok vm_paging" "reach vm_paging = 2 ^ 41" "hd vm_paging = svx4_level 2 True"
  by (simp_all add: vm_paging_def riscv_Sv39x4_def svx4_level_def reach_def nr_entries_def page_size_def
      UNTRANSLATED_BITS_def PAGE_LEVEL_BITS_def)

definition page_base :: "u64 \<Rightarrow> nat" where
  "page_base x = unat x - unat x mod 0x1000"

definition page_count_bytes :: "u64 \<Rightarrow> nat" where
  "page_count_bytes sz = unat (page_up sz)"

text \<open>
  A request to map or unmap \<open>sz\<close> bytes at \<open>vaddr\<close>: after rounding to pages the range lies
  inside the reach of the format and does not wrap.
\<close>

definition request_ok :: "paging list \<Rightarrow> u64 \<Rightarrow> u64 \<Rightarrow> bool" where
  "request_ok ls vaddr sz \<longleftrightarrow> page_base vaddr mod reach ls + page_count_bytes sz \<le> reach ls \<and>
     page_base vaddr + page_count_bytes sz \<le> 2 ^ 64"

definition covers :: "paging list \<Rightarrow> u64 \<Rightarrow> u64 \<Rightarrow> u64 \<Rightarrow> bool" where
  "covers ls vaddr sz v \<longleftrightarrow> in_range ls (page_base vaddr) (page_count_bytes sz) (unat v)"

lemma page_base_aligned: "page_base x mod 0x1000 = 0" "page_count_bytes sz mod 0x1000 = 0"
  by (simp_all add: page_base_def page_count_bytes_def minus_mod_eq_mult_div page_up_def unat_and_PAGE_MASK)

lemma request_range: "request_ok ls vaddr sz \<Longrightarrow> range_ok ls (page_base vaddr) (page_count_bytes sz)"
  by (simp add: request_ok_def range_ok_def page_base_aligned)

lemma paging_create_spec:
  assumes "levels_ok ls" and "tree ls st pt" and "request_ok ls vaddr sz"
    and "page_base paddr + page_count_bytes sz \<le> 2 ^ 56" and "leaf_flags F"
  obtains st' err where "paging_create ls pt scope (unat paddr) (unat sz) (unat vaddr) F huge st = Ok (st', err)"
    "upd ls pt UNIV st st'" "err = 0 \<or> err = - errno_num ENOMEM"
    "err \<noteq> 0 \<or> (\<forall>v. xl ls st' pt v = mapped ls (page_base paddr) (page_count_bytes sz) (page_base vaddr) F (xl ls st pt) v)"
proof (rule create_okD [OF create_ok_levels [OF assms(1,1)] assms(2) request_range [OF assms(3)]
      page_base_aligned(1) assms(4,5), of scope huge])
  fix st' err
  assume *: "create_loop ls pt scope (page_base paddr) (page_count_bytes sz) (page_base vaddr) F huge st = Ok (st', err)"
    "upd ls pt UNIV st st'" "err = 0 \<or> err = - errno_num ENOMEM"
    "err \<noteq> 0 \<or> (\<forall>v. xl ls st' pt v = mapped ls (page_base paddr) (page_count_bytes sz) (page_base vaddr) F (xl ls st pt) v)"
  show thesis
    by (rule that [OF _ *(2-4)]) (use *(1) in \<open>simp add: paging_create.simps page_base_def page_count_bytes_def\<close>)
qed

lemma paging_destroy_spec:
  assumes "levels_ok ls" and "tree ls st pt" and "request_ok ls vaddr sz"
  obtains st' err where "paging_destroy ls pt scope (unat vaddr) (unat sz) huge st = Ok (st', err)"
    "upd ls pt UNIV st st'" "err = 0 \<or> err = - errno_num ENOMEM"
    "err \<noteq> 0 \<or> (\<forall>v. xl ls st' pt v =
       (if in_range ls (page_base vaddr) (page_count_bytes sz) v then None else xl ls st pt v))"
proof -
  from destroy_loop_spec [OF levels_subs_ok [OF assms(1)] assms(1,2) request_range [OF assms(3)], of scope huge]
  obtain st' err where *: "destroy_loop ls pt scope (page_base vaddr) (page_count_bytes sz) huge st = Ok (st', err)"
    "upd ls pt (touched (hd ls) (page_base vaddr) (page_count_bytes sz)) st st'" "err = 0 \<or> err = - errno_num ENOMEM"
    "err = 0 \<longrightarrow> (\<forall>v. xl ls st' pt v =
       (if in_range ls (page_base vaddr) (page_count_bytes sz) v then None else xl ls st pt v))"
    by (elim exE conjE) (rule that)
  show thesis
    by (rule that [of st' err])
       (use * upd_mono [OF *(2)] in \<open>simp_all add: paging_destroy.simps page_base_def page_count_bytes_def\<close>)
qed

text \<open>What \<^verbatim>\<open>paging_get_phys\<close> returns for a translation.\<close>

definition found :: "(nat \<times> u64) option \<Rightarrow> u64" where
  "found x = (case x of None \<Rightarrow> INVALID_PHYS_ADDR | Some (p, _) \<Rightarrow> of_nat p)"

lemma get_phys_tree:
  assumes "tree root_paging st pt"
  shows "paging_get_phys st pt v = Ok (found (xl root_paging st pt (unat v)))"
  using walk_xlate [of st root_paging pt "unat v"] assms
  by (auto simp: tree_def paging_get_phys_def found_def split: option.splits)

lemma access_flags_leaf:
  assumes "flags AND (GRINCH_MEM_R OR GRINCH_MEM_W OR GRINCH_MEM_X) \<noteq> 0"
  shows "leaf_flags (arch_paging_access_flags flags)"
proof -
  have "flags AND GRINCH_MEM_R \<noteq> 0 \<or> flags AND GRINCH_MEM_W \<noteq> 0 \<or> flags AND GRINCH_MEM_X \<noteq> 0"
    using assms by (auto simp: bit.conj_disj_distrib)
  then show ?thesis
    by (auto simp: arch_paging_access_flags_def leaf_flags_def pte_flag_defs Let_def)
qed

lemma tree_frame_state:
  assumes "upd ls pt S st st'" and "tree ls' st pt'" and "tabs ls' st pt' \<inter> tabs ls st pt = {}"
  shows "tree ls' st' pt'" and "xl ls' st' pt' v = xl ls' st pt' v"
proof -
  have o: "tabs ls' st pt' \<subseteq> others ls st pt" using assms(2,3) by (auto simp: tree_def others_def)
  have f: "p2v (pool st') = p2v (pool st)" and m: "\<And>a. a \<in> others ls st pt \<Longrightarrow> tables st' a = tables st a"
    and h: "others ls st pt \<subseteq> held (pool st')" and ok: "gfp_ok (pool st')"
    using assms(1) unfolding upd_def tree_def others_def by blast+
  note fr = tree_frame [of "p2v (pool st)" ls' "tables st" pt' "tables st'", OF m]
  have i: "a \<in> others ls st pt" if "a \<in> tabs ls' st pt'" for a using o that by blast
  show "tree ls' st' pt'" unfolding tree_def f using fr(1,2) i assms(2) o h ok by (auto simp: tree_def)
  show "xl ls' st' pt' v = xl ls' st pt' v" unfolding f using fr(3) i by blast
qed

section \<open>Mapping and unmapping\<close>

text \<open>C5. On a well-formed page table, mapping a range that fits the address space either returns
  0 or \<open>-ENOMEM\<close>. The table stays well-formed, and page tables that share no table with it
  translate as before. After 0, exactly the pages of the range translate to the requested
  physical pages; every other address translates as before, whatever huge pages had to be
  split or replaced on the way.\<close>

theorem map_range_translates:
  assumes "tree root_paging st pt" and "request_ok root_paging vaddr sz"
    and "page_base paddr + page_count_bytes sz \<le> 2 ^ 56"
    and "flags AND (GRINCH_MEM_R OR GRINCH_MEM_W OR GRINCH_MEM_X) \<noteq> 0"
  shows "\<exists>st' err. map_range st pt vaddr paddr sz flags = Ok (st', err) \<and> (err = 0 \<or> err = - errno_num ENOMEM) \<and>
    tree root_paging st' pt \<and>
    (\<forall>ls q v. tree ls st q \<and> tabs ls st q \<inter> tabs root_paging st pt = {} \<longrightarrow>
       tree ls st' q \<and> xl ls st' q v = xl ls st q v) \<and>
    (err = 0 \<longrightarrow> (\<forall>v. paging_get_phys st' pt v =
       (if covers root_paging vaddr sz v
        then Ok (of_nat (page_base paddr + (unat v mod 2 ^ 39 - page_base vaddr mod 2 ^ 39)))
        else paging_get_phys st pt v)))"
proof (rule paging_create_spec [OF levels_root(1) assms(1-3) access_flags_leaf [OF assms(4)], of "tlb_scope_of st pt" True])
  fix st' err
  assume *: "paging_create root_paging pt (tlb_scope_of st pt) (unat paddr) (unat sz) (unat vaddr)
      (arch_paging_access_flags flags) True st = Ok (st', err)"
    "upd root_paging pt UNIV st st'" "err = 0 \<or> err = - errno_num ENOMEM"
    "err \<noteq> 0 \<or> (\<forall>v. xl root_paging st' pt v = mapped root_paging (page_base paddr) (page_count_bytes sz)
       (page_base vaddr) (arch_paging_access_flags flags) (xl root_paging st pt) v)"
  have "paging_get_phys st' pt v =
       (if covers root_paging vaddr sz v
        then Ok (of_nat (page_base paddr + (unat v mod 2 ^ 39 - page_base vaddr mod 2 ^ 39)))
        else paging_get_phys st pt v)" if "err = 0" for v
    unfolding get_phys_tree [OF assms(1)] get_phys_tree [OF upd_tree [OF *(2)]]
    using *(4) that by (auto simp: mapped_def covers_def found_def levels_root(2))
  moreover have "map_range st pt vaddr paddr sz flags = Ok (st', err)" using *(1) by (simp add: map_range_def)
  ultimately show ?thesis using *(3) upd_tree [OF *(2)] tree_frame_state [OF *(2)] by blast
qed

text \<open>A page table of one empty page, the first page of the sample memory.\<close>

definition sample_paging :: pgs where
  "sample_paging = \<lparr>tables = \<lambda>_ _. 0, pool = sample_areas, kernel_root = 0xffffffc000000000,
     current_table = None, events = []\<rparr>"

lemma sample_held: "0xffffffc000000000 \<in> held sample_areas"
  unfolding held_def mem_Collect_eq
  by (intro exI [of _ 0]) (simp add: sample_areas_def in_area_def owned_run_def live_def mem_used_pfns bm_bit_def)

lemma sample_tree: "levels_ok ls \<Longrightarrow> tree ls sample_paging 0xffffffc000000000"
proof (cases ls)
  case (Cons l k)
  have "\<not> entry_valid (tables sample_paging 0xffffffc000000000 i)" for i
    by (simp add: sample_paging_def)
  note b = tree_blank [of l "tables sample_paging" "0xffffffc000000000", OF this]
  then show ?thesis using Cons sample_areas_ok sample_held by (simp add: tree_def sample_paging_def)
qed simp

theorem map_range_translates_witness:
  "\<exists>st' err. map_range sample_paging 0xffffffc000000000 0x5000 0x80009000 0x2000 (GRINCH_MEM_R OR GRINCH_MEM_W) = Ok (st', err) \<and>
     (err = 0 \<longrightarrow> paging_get_phys st' 0xffffffc000000000 0x6123 = Ok 0x8000a123 \<and>
        paging_get_phys st' 0xffffffc000000000 0x7123 = Ok INVALID_PHYS_ADDR)"
proof -
  have t: "tree root_paging sample_paging 0xffffffc000000000" by (rule sample_tree [OF levels_root(1)])
  have c: "page_base 0x5000 = 0x5000" "page_base 0x80009000 = 0x80009000" "page_count_bytes 0x2000 = 0x2000"
    by (simp_all add: page_base_def page_count_bytes_def unat_page_up)
  have r: "request_ok root_paging 0x5000 0x2000" by (simp add: request_ok_def c levels_root(2))
  have v: "covers root_paging 0x5000 0x2000 0x6123" "\<not> covers root_paging 0x5000 0x2000 0x7123"
    by (simp_all add: covers_def in_range_def c levels_root(2))
  have n: "paging_get_phys sample_paging 0xffffffc000000000 0x7123 = Ok INVALID_PHYS_ADDR"
    by (simp add: paging_get_phys_def root_paging_def riscv_Sv39_def sample_paging_def)
  show ?thesis
    using map_range_translates [OF t r, where paddr = "0x80009000" and flags = "GRINCH_MEM_R OR GRINCH_MEM_W"] v n
    by (auto simp: c GRINCH_MEM_R_def GRINCH_MEM_W_def GRINCH_MEM_X_def)
qed

text \<open>C6. Unmapping a range of a well-formed page table returns 0 or \<open>-ENOMEM\<close> (a huge page that is
  only partly covered has to be split). After 0, exactly the pages of the range have no
  translation, and every other address translates as before.\<close>

theorem unmap_range_exact:
  assumes "tree root_paging st pt" and "request_ok root_paging vaddr sz"
  shows "\<exists>st' err. unmap_range st pt vaddr sz = Ok (st', err) \<and> (err = 0 \<or> err = - errno_num ENOMEM) \<and>
    tree root_paging st' pt \<and>
    (err = 0 \<longrightarrow> (\<forall>v. paging_get_phys st' pt v =
       (if covers root_paging vaddr sz v then Ok INVALID_PHYS_ADDR else paging_get_phys st pt v)))"
proof (rule paging_destroy_spec [OF levels_root(1) assms, of "tlb_scope_of st pt" False])
  fix st' err
  assume *: "paging_destroy root_paging pt (tlb_scope_of st pt) (unat vaddr) (unat sz) False st = Ok (st', err)"
    "upd root_paging pt UNIV st st'" "err = 0 \<or> err = - errno_num ENOMEM"
    "err \<noteq> 0 \<or> (\<forall>v. xl root_paging st' pt v =
       (if in_range root_paging (page_base vaddr) (page_count_bytes sz) v then None else xl root_paging st pt v))"
  have "paging_get_phys st' pt v =
       (if covers root_paging vaddr sz v then Ok INVALID_PHYS_ADDR else paging_get_phys st pt v)" if "err = 0" for v
    unfolding get_phys_tree [OF assms(1)] get_phys_tree [OF upd_tree [OF *(2)]]
    using *(4) that by (auto simp: covers_def found_def)
  moreover have "unmap_range st pt vaddr sz = Ok (st', err)" using *(1) by (simp add: unmap_range_def)
  ultimately show ?thesis using *(3) upd_tree [OF *(2)] by blast
qed

theorem unmap_range_exact_witness:
  "\<exists>st' err. unmap_range sample_paging 0xffffffc000000000 0x5000 0x2000 = Ok (st', err) \<and>
     (err = 0 \<or> err = - errno_num ENOMEM) \<and> tree root_paging st' 0xffffffc000000000"
proof -
  have "request_ok root_paging 0x5000 0x2000"
    by (simp add: request_ok_def page_base_def page_count_bytes_def unat_page_up levels_root(2))
  from unmap_range_exact [OF sample_tree [OF levels_root(1)] this] show ?thesis by blast
qed



end
