(* ===== verification/Paging_Flush.thy ===== *)
theory Paging_Flush
  imports Paging_Safety Paging_Inv
begin

text \<open>
  The order of TLB maintenance and table release: the log of the events of mapping and
  unmapping, newest first, never has a table released without a full flush right before it.
\<close>

fun after_flush :: "event list \<Rightarrow> bool" where
  "after_flush (Freed _ # es) \<longleftrightarrow> after_flush es"
| "after_flush (Flush_All # es) \<longleftrightarrow> True"
| "after_flush (Flush_Guest_All # es) \<longleftrightarrow> True"
| "after_flush _ \<longleftrightarrow> False"

fun flushed :: "event list \<Rightarrow> bool" where
  "flushed [] \<longleftrightarrow> True"
| "flushed (Freed t # es) \<longleftrightarrow> after_flush es \<and> flushed es"
| "flushed (_ # es) \<longleftrightarrow> flushed es"

lemma zalloc_events: "zalloc_page st = Ok (st', t) \<Longrightarrow> events st' = events st"
  by (auto simp: zalloc_page_def split: result.splits if_splits)

lemma clear_up_events: "events (fst (clear_up root virt path st)) = events st"
  by (induction root virt path st rule: clear_up.induct) (auto simp: Let_def split: prod.splits)

lemma free_tables_events:
  assumes "flushed (events st)" and "ts = [] \<or> after_flush (events st)"
  shows "flushed (events (fst (free_tables ts st)))"
  using assms
  by (induction ts st rule: free_tables.induct) (auto simp: Let_def note_event_def split: prod.splits)

lemma flush_events:
  assumes "flushed (events st)" and "scope \<noteq> TLB_SCOPE_NONE"
  shows "flushed (events (flush_unmapped scope virt dead st))" and "flushed (events (flush_mapped scope virt st))"
    and "dead \<noteq> [] \<Longrightarrow> after_flush (events (flush_unmapped scope virt dead st))"
  using assms by (cases scope; simp add: flush_unmapped_def flush_mapped_def note_event_def)+

lemma release_events:
  assumes "flushed (events st)" and "scope \<noteq> TLB_SCOPE_NONE" and "clear_up root virt path st = (st1, dead)"
    and "free_tables (rev dead) (flush_unmapped scope virt dead st1) = (st2, err)"
  shows "flushed (events st2)"
proof -
  have "flushed (events st1)" using clear_up_events [of root virt path st] assms(1,3) by simp
  note f = flush_events(1) [OF this assms(2), of virt dead] flush_events(3) [OF this assms(2), of dead virt]
  show ?thesis using free_tables_events [OF f(1), of "rev dead"] f(2) assms(4) by auto
qed

interpretation fo: table_property "\<lambda>st. scope \<noteq> TLB_SCOPE_NONE \<longrightarrow> flushed (events st)" scope for scope
  by unfold_locales (auto simp: zalloc_events flush_events(2) intro: release_events)


text \<open>A table with a single page at \<open>0x5000\<close>, three levels down.\<close>

definition sample_mapped :: pgs where
  "sample_mapped = sample_paging\<lparr>tables := (\<lambda>_ _. 0)
     (0xffffffc000000000 := (\<lambda>_. 0)(0 := set_next_pt (sv_level 2) 0x80001000),
      0xffffffc000001000 := (\<lambda>_. 0)(0 := set_next_pt (sv_level 1) 0x80002000),
      0xffffffc000002000 := (\<lambda>_. 0)(5 := set_terminal (sv_level 0) 0x80009000 0xC7))\<rparr>"

lemma sample_entries:
  "set_next_pt (sv_level 2) 0x80001000 = 0x20000421" "set_next_pt (sv_level 1) 0x80002000 = 0x20000821"
  "set_terminal (sv_level 0) 0x80009000 0xC7 = 0x200024C7"
  by (simp_all add: set_next_pt_def set_terminal_def sv_level_def phys2pte_def pte_flag_defs)

lemma sample_steps:
  "tables sample_mapped 0xffffffc000000000 0 = 0x20000421" "tables sample_mapped 0xffffffc000001000 0 = 0x20000821"
  "tables sample_mapped 0xffffffc000002000 5 = 0x200024C7"
  "p2v (pool sample_mapped) 0x80001000 = Ok 0xffffffc000001000" "p2v (pool sample_mapped) 0x80002000 = Ok 0xffffffc000002000"
  by (simp_all add: sample_mapped_def sample_entries sample_paging_def sample_areas_def p_in_area_def
      del: One_nat_def)

lemma sample_decode:
  "get_entry (sv_level 2) 0x5000 = 0" "get_entry (sv_level 1) 0x5000 = 0" "get_entry (sv_level 0) 0x5000 = 5"
  "entry_valid 0x20000421" "entry_valid 0x20000821" "entry_valid 0x200024C7"
  "get_phys l 0x20000421 v = unat INVALID_PHYS_ADDR" "get_phys l 0x20000821 v = unat INVALID_PHYS_ADDR"
  "get_phys (sv_level 0) 0x200024C7 0x5000 = 0x80009000"
  "get_next_pt 0x20000421 = 0x80001000" "get_next_pt 0x20000821 = 0x80002000"
  by (simp_all add: get_entry_def sv_level_def UNTRANSLATED_BITS_def PAGE_LEVEL_BITS_def nr_entries_def entry_valid_def
      get_phys_def pte_flag_defs PAGE_TERMINAL_FLAGS_def get_next_pt_def pte2phys_def FLAG_MASK_def)

lemma sample_walk:
  "destroy_walk root_paging 0xffffffc000000000 0x5000 0x1000 False TLB_SCOPE_LOCAL [] sample_mapped =
     Ok (sample_mapped, 0, [(sv_level 0, 0xffffffc000002000), (sv_level 1, 0xffffffc000001000), (sv_level 2, 0xffffffc000000000)],
       [sv_level 0])"
proof -
  note e = sample_steps sample_decode
  have "unat INVALID_PHYS_ADDR \<noteq> 0x80009000"
    by (simp add: INVALID_PHYS_ADDR_def unsigned_minus_1_eq_mask mask_eq_exp_minus_1)
  moreover have "page_size (sv_level 0) = 0x1000" by (simp add: page_size_def sv_level_def UNTRANSLATED_BITS_def)
  ultimately have "destroy_walk [sv_level 0] 0xffffffc000002000 0x5000 0x1000 False TLB_SCOPE_LOCAL path sample_mapped =
      Ok (sample_mapped, 0, (sv_level 0, 0xffffffc000002000) # path, [sv_level 0])" for path
    by (subst destroy_walk.simps) (simp add: e w64_def Let_def)
  moreover have "destroy_walk [sv_level 1, sv_level 0] 0xffffffc000001000 0x5000 0x1000 False TLB_SCOPE_LOCAL path sample_mapped =
      destroy_walk [sv_level 0] 0xffffffc000002000 0x5000 0x1000 False TLB_SCOPE_LOCAL ((sv_level 1, 0xffffffc000001000) # path) sample_mapped" for path
    by (subst destroy_walk.simps) (simp add: e Let_def del: One_nat_def)
  ultimately show ?thesis unfolding root_paging_def riscv_Sv39_def by (subst destroy_walk.simps) (simp add: e Let_def del: One_nat_def)
qed

lemma sample_cleared:
  "\<exists>st1. clear_up 0xffffffc000000000 0x5000
       [(sv_level 0, 0xffffffc000002000), (sv_level 1, 0xffffffc000001000), (sv_level 2, 0xffffffc000000000)] sample_mapped =
     (st1, [0xffffffc000002000, 0xffffffc000001000]) \<and> pool st1 = sample_areas \<and> events st1 = []"
proof -
  have "page_table_empty l (\<lambda>_. 0)" for l by (simp add: page_table_empty_def list_all_iff)
  moreover have "((\<lambda>_. 0)(i := e))(i := 0) = (\<lambda>_. 0 :: u64)" for i :: nat and e by auto
  ultimately show ?thesis using sample_decode(1-3)
    by (simp add: USER_END_def sample_mapped_def sample_paging_def write_entry_def Let_def del: One_nat_def)
qed

lemma sample_released:
  "\<exists>as. free_page sample_areas 0xffffffc000001000 = (as, 0) \<and> snd (free_page as 0xffffffc000002000) = 0"
  by (simp add: sample_areas_def free_page_def free_pages_def page_voffset_def PAGE_OFFS_MASK_def PAGE_MASK_def PMASK_def PAGE_SIZE_val in_area_def
      Let_def u32_of_def)


section \<open>Entries\<close>

text \<open>C39. The entries the code writes have the format of the architecture: for an aligned physical
  address below $2^{56}$ the ten upper bits are zero, the address and the flags are read back
  as they were written, an entry for a page is valid and not a pointer, and an entry for a
  table is a pointer and not a page.\<close>

theorem pte_format:
  assumes "phys mod 0x1000 = 0" and "phys < 2 ^ 56" and "leaf_flags F"
  shows "leaf (set_terminal l phys F) \<and> \<not> ptr (set_terminal l phys F) \<and>
      pte2phys (set_terminal l phys F) = phys \<and> get_flags (set_terminal l phys F) = term_flags l F \<and>
      drop_bit 54 (set_terminal l phys F) = 0 \<and>
    ptr (set_next_pt l phys) \<and> \<not> leaf (set_next_pt l phys) \<and> get_next_pt (set_next_pt l phys) = phys \<and>
      drop_bit 54 (set_next_pt l phys) = 0"
proof -
  have p: "phys < 2 ^ 64" using assms(2) by simp
  note t = set_terminal_entry [OF assms(3,1) p, of l] and n = set_next_entry [OF assms(1) p, of l]
  have hi: "drop_bit 54 (F OR phys2pte phys) = 0" if "F AND NOT FLAG_MASK = 0" for F
  proof -
    have "drop_bit 54 FLAG_MASK = 0" by (simp add: FLAG_MASK_def)
    then have "drop_bit 54 (F AND FLAG_MASK) = 0" by (simp add: drop_bit_and)
    then have "drop_bit 54 F = 0" using low_flags [OF that] by simp
    moreover have "unat (phys2pte phys) < 2 ^ 54" using assms(2) by (simp add: phys2pte_def unat_of_nat)
    then have "drop_bit 54 (phys2pte phys) = 0"
      by (simp add: word_unat_eq_iff drop_bit_eq_div unat_div)
    ultimately show ?thesis by (simp add: drop_bit_or)
  qed
  have "term_flags l F AND NOT FLAG_MASK = 0" using term_flags_leaf [OF assms(3)] by (simp add: leaf_flags_def)
  then have "drop_bit 54 (set_terminal l phys F) = 0"
    using hi [of "term_flags l F"] by (simp add: set_terminal_def term_flags_def or.assoc)
  moreover have "drop_bit 54 (set_next_pt l phys) = 0"
    using hi [of "(if guest l then 0 else PTE_G) OR PTE_V"] by (simp add: set_next_pt_def or.assoc pte_flag_defs)
  ultimately show ?thesis using t n leaf_not_ptr by (auto simp: get_next_pt_def)
qed

theorem pte_format_witness:
  "set_terminal (sv_level 0) 0x80001000 0xCF = 0x200004CF \<and> pte2phys 0x200004CF = 0x80001000 \<and>
   leaf (set_terminal (sv_level 0) 0x80001000 0xCF)"
proof -
  have e: "set_terminal (sv_level 0) 0x80001000 0xCF = 0x200004CF"
    by (simp add: set_terminal_def sv_level_def phys2pte_def)
  have "leaf_flags 0xCF" by (simp add: leaf_flags_def pte_flag_defs)
  from pte_format [OF _ _ this, of "0x80001000" "sv_level 0"] show ?thesis by (simp add: e)
qed

text \<open>C28. A page mapped with none of read, write and execute access is written as a valid entry that
  looks like a pointer to a table. On the last level a translation of an address in it has no
  level left to go to: \<^verbatim>\<open>paging_get_phys\<close> runs past the level table.\<close>

theorem no_access_walk_runs_off:
  assumes "flags AND (GRINCH_MEM_R OR GRINCH_MEM_W OR GRINCH_MEM_X) = 0" and "phys mod 0x1000 = 0" and "phys < 2 ^ 56"
    and "tables st pt (get_entry (sv_level 0) v) = set_terminal (sv_level 0) phys (arch_paging_access_flags flags)"
  shows "entry_valid (tables st pt (get_entry (sv_level 0) v)) \<and>
    get_phys (sv_level 0) (tables st pt (get_entry (sv_level 0) v)) v = unat INVALID_PHYS_ADDR \<and>
    walk [sv_level 0] st pt v = Panic"
proof -
  let ?F = "arch_paging_access_flags flags"
  have z: "flags AND GRINCH_MEM_R = 0" "flags AND GRINCH_MEM_W = 0" "flags AND GRINCH_MEM_X = 0"
    using assms(1) by (simp_all add: bit.conj_disj_distrib or_eq_0_iff)
  have F: "?F AND NOT FLAG_MASK = 0" "PTE_V AND ?F \<noteq> 0" "PAGE_TERMINAL_FLAGS AND ?F = 0"
    by (simp_all add: arch_paging_access_flags_def z pte_flag_defs)
  have p: "phys < 2 ^ 64" using assms(3) by simp
  note fs = flags_split(3) [OF F(1) assms(2) p]
  have e: "tables st pt (get_entry (sv_level 0) v) = ?F OR phys2pte phys"
    using assms(4) by (simp add: set_terminal_def sv_level_def)
  have "ptr (tables st pt (get_entry (sv_level 0) v))"
    unfolding ptr_def e fs [OF low_masks(1)] fs [OF low_masks(2)] using F by simp
  then show ?thesis
    by (auto simp: entry_valid_iff Let_def get_phys_not_leaf leaf_def ptr_def split: result.splits)
qed

theorem no_access_walk_runs_off_witness:
  "walk [sv_level 0] (write_entry 0x7000 5 (set_terminal (sv_level 0) 0x80001000 (arch_paging_access_flags GRINCH_MEM_U))
     sample_paging) 0x7000 0x5123 = Panic"
proof -
  have i: "get_entry (sv_level 0) 0x5123 = 5"
    by (simp add: get_entry_def sv_level_def UNTRANSLATED_BITS_def nr_entries_def PAGE_LEVEL_BITS_def)
  show ?thesis
    using no_access_walk_runs_off [of GRINCH_MEM_U "0x80001000" _ "0x7000" "0x5123"]
    by (simp add: i GRINCH_MEM_R_def GRINCH_MEM_W_def GRINCH_MEM_X_def GRINCH_MEM_U_def del: walk.simps)
qed

end
