(* ===== verification/Paging_Fine.thy ===== *)
theory Paging_Fine
  imports Paging_Safety Paging_Inv Frame_Pool
begin

text \<open>
  Mappings of single pages. An address is finely mapped if no huge page covers it. Unmapping
  finely mapped pages needs no memory and succeeds; mapping a single page at an address
  without a translation either succeeds or, when no page is left for a table, changes no
  translation. Neither makes a finely mapped address coarse.
\<close>

section \<open>Finely mapped addresses\<close>

fun fine :: "translator \<Rightarrow> paging list \<Rightarrow> tmem \<Rightarrow> u64 \<Rightarrow> nat \<Rightarrow> bool" where
  "fine f [] m pt v \<longleftrightarrow> True"
| "fine f (l # ls) m pt v \<longleftrightarrow>
     (let e = m pt (get_entry l v) in if leaf e then ls = [] else ptr e \<longrightarrow> fine f ls m (next_table f e) v)"

declare fine.simps(2) [simp del]

abbreviation fn :: "paging list \<Rightarrow> pgs \<Rightarrow> u64 \<Rightarrow> nat \<Rightarrow> bool" where
  "fn ls st pt v \<equiv> fine (p2v (pool st)) ls (tables st) pt v"

lemma xlate_None_fine: "xlate f ls m pt v = None \<Longrightarrow> fine f ls m pt v"
proof (induction ls arbitrary: pt)
  case (Cons l ls)
  then show ?case by (auto simp: fine.simps(2) xlate.simps(2) Let_def split: if_splits)
qed simp

lemma fine_frame:
  assumes "\<And>a. a \<in> tset f ls m pt \<Longrightarrow> m' a = m a"
  shows "fine f ls m' pt v = fine f ls m pt v"
  using assms
proof (induction ls arbitrary: pt)
  case (Cons l ls)
  let ?e = "m pt (get_entry l v)"
  have e: "m' pt (get_entry l v) = ?e" using Cons.prems by (simp add: tset_Cons)
  have "fine f ls m' (next_table f ?e) v = fine f ls m (next_table f ?e) v" if p: "ptr ?e"
  proof (rule Cons.IH)
    fix a assume "a \<in> tset f ls m (next_table f ?e)"
    then have "a \<in> sub f ls m ?e" using p by (simp add: sub_def)
    then have "a \<in> tset f (l # ls) m pt" unfolding tset_Cons using get_entry_less [of l v] by blast
    then show "m' a = m a" by (rule Cons.prems)
  qed
  then show ?case unfolding fine.simps(2) Let_def e by auto
qed simp

text \<open>Entries are only cleared.\<close>

definition cleared :: "pgs \<Rightarrow> pgs \<Rightarrow> bool" where
  "cleared st st' \<longleftrightarrow> p2v (pool st') = p2v (pool st) \<and> (\<forall>a i. tables st' a i = tables st a i \<or> tables st' a i = 0)"

lemma cleared_refl [simp]: "cleared st st"
  by (simp add: cleared_def)

lemma cleared_trans: "cleared st st1 \<Longrightarrow> cleared st1 st2 \<Longrightarrow> cleared st st2"
  unfolding cleared_def by metis

lemma fine_cleared:
  assumes "cleared st st'" and "fn ls st pt v"
  shows "fn ls st' pt v"
proof -
  have f: "p2v (pool st') = p2v (pool st)" and m: "\<And>a i. tables st' a i = tables st a i \<or> tables st' a i = 0"
    using assms(1) by (auto simp: cleared_def)
  from assms(2) show ?thesis unfolding f
  proof (induction ls arbitrary: pt)
    case (Cons l ls)
    then show ?case using m [of pt "get_entry l v"] by (auto simp: fine.simps(2) Let_def split: if_splits)
  qed simp
qed

lemma clear_up_cleared: "tables (fst (clear_up root virt path st)) a i = tables st a i \<or> tables (fst (clear_up root virt path st)) a i = 0"
proof (induction root virt path st rule: clear_up.induct)
  case (2 root virt l pt path st)
  let ?st = "write_entry pt (get_entry l virt) 0 st"
  obtain st1 dead where c: "clear_up root virt path ?st = (st1, dead)" by fastforce
  have w: "tables ?st a i = tables st a i \<or> tables ?st a i = 0" by simp
  show ?case
  proof (cases "path = [] \<or> \<not> page_table_empty l (tables ?st pt) \<or> length path = 1 \<and> virt \<ge> unat USER_END \<and> root = kernel_root ?st")
    case False
    then have "tables st1 a i = tables ?st a i \<or> tables st1 a i = 0" using 2 c by auto
    then show ?thesis using False w c by auto
  qed (use w in \<open>auto simp: Let_def\<close>)
qed simp

lemma free_tables_tables: "tables (fst (free_tables ts st)) = tables st"
  by (induction ts st rule: free_tables.induct) (auto simp: Let_def split: prod.splits)

section \<open>Unmapping\<close>

lemma destroy_walk_fine:
  assumes "levels_ok ls" and "wft (p2v (pool st)) ls (tables st) pt" and "fn ls st pt virt"
    and al: "virt mod 0x1000 = 0" "sz mod 0x1000 = 0" and sz: "0 < sz" "virt + sz \<le> 2 ^ 64"
  shows "\<exists>path' rest. destroy_walk ls pt virt sz huge scope path st = Ok (st, 0, path', rest)"
  using assms(1-3)
proof (induction ls arbitrary: pt path)
  case (Cons l ls)
  let ?e = "tables st pt (get_entry l virt)"
  have d: "page_size l dvd 2 ^ 64" using page_size_dvd [OF Cons.prems(1)] by simp
  note cov = covered_iff [OF sz(2,1) d page_size_pos]
  consider "\<not> entry_valid ?e" | "leaf ?e" | "ptr ?e" using entry_valid_iff by blast
  then show ?case
  proof cases
    case 1
    then show ?thesis by (simp add: destroy_walk.simps [of "l # ls"] Let_def)
  next
    case 2
    then have ls: "ls = []" using Cons.prems(3) by (simp add: fine.simps(2))
    then have ps: "page_size l = 0x1000" using Cons.prems(1)
      by (simp add: page_size_def UNTRANSLATED_BITS_def)
    have "leaf_ok l ?e" using Cons.prems(2) 2 get_entry_less by (auto simp: wft.simps(2))
    then have "get_phys l ?e virt \<noteq> unat INVALID_PHYS_ADDR" using get_phys_leaf(2) [OF 2] by blast
    moreover have "0x1000 \<le> sz" using al(2) sz(1) by (simp add: dvd_imp_le mod_eq_0_iff_dvd)
    then have "virt \<le> virt - virt mod 0x1000 \<and> w64 (virt + (sz - 1)) \<ge> w64 (virt - virt mod 0x1000 + (0x1000 - 1))"
      using cov al(1) unfolding ps by blast
    ultimately show ?thesis using 2 by (simp add: destroy_walk.simps [of "l # ls"] Let_def ps)
  next
    case 3
    then have ph: "get_phys l ?e virt = unat INVALID_PHYS_ADDR" using leaf_not_ptr get_phys_not_leaf by blast
    have nl: "\<not> leaf ?e" and v: "entry_valid ?e" using 3 leaf_not_ptr entry_valid_iff by blast+
    note w = wft_ptr [OF Cons.prems(2) get_entry_less 3]
    have "fine (p2v (pool st)) ls (tables st) (next_table (p2v (pool st)) ?e) virt"
      using Cons.prems(3) 3 nl by (simp add: fine.simps(2))
    from Cons.IH [OF levels_ok_tl [OF Cons.prems(1) w(4)] w(2) this, of "(l, pt) # path"]
    show ?thesis using ph v w(1) by (simp add: destroy_walk.simps [of "l # ls"] Let_def get_next_pt_def)
  qed
qed simp

lemma destroy_loop_fine:
  assumes lo: "levels_ok LS" and "tree LS st root" and "range_ok LS virt sz"
    and "\<And>x. virt \<le> x \<Longrightarrow> x < virt + sz \<Longrightarrow> fn LS st root x"
  shows "\<exists>st'. destroy_loop LS root scope virt sz huge st = Ok (st', 0) \<and> cleared st st'"
  using assms(2-4)
proof (induction sz arbitrary: virt st rule: less_induct)
  case (less sz)
  show ?case
  proof (cases "sz = 0")
    case False
    then have pos: "0 < sz" by simp
    have al: "virt mod 0x1000 = 0" "sz mod 0x1000 = 0" "virt + sz \<le> 2 ^ 64"
      using less.prems(2) by (simp_all add: range_ok_def)
    have start: "pathto st LS root virt [] LS root" by simp
    have wf: "wft (p2v (pool st)) LS (tables st) root" using less.prems(1) by (simp add: tree_def)
    have "fn LS st root virt" using less.prems(3) [of virt] pos by simp
    from destroy_walk_fine [OF lo wf this al(1,2) pos al(3), of huge scope "[]"]
      destroy_walk_spec [OF levels_subs_ok [OF lo] lo less.prems(1) start al(1,2) pos al(3), of huge scope]
    obtain path l p q sub where w: "destroy_walk LS root virt sz huge scope [] st = Ok (st, 0, path, l # sub)"
      and p: "path = (l, p) # q" "levels_ok (l # sub)" "pathto st LS root virt q (l # sub) p" "stops st l p virt sz"
      by auto
    define a where "a = page_size l - virt mod page_size l"
    from destroy_step [OF lo less.prems(1,2) p(3,4), of scope]
    obtain st2 dead st3 where d: "clear_up root virt path st = (st2, dead)"
      "free_tables (rev dead) (flush_unmapped scope virt dead st2) = (st3, 0)"
      "upd LS root (slot (hd LS) (get_entry (hd LS) virt)) st st3" unfolding p(1) by blast
    have "tables (flush_unmapped scope virt dead st2) = tables st2" by (cases scope; simp add: flush_unmapped_def)
    then have "tables st3 = tables st2"
      using d(2) free_tables_tables [of "rev dead" "flush_unmapped scope virt dead st2"] by simp
    then have c: "cleared st st3"
      using d(1,3) clear_up_cleared [of root virt path st] unfolding cleared_def upd_def by simp
    have ss: "paging_slot_size (l # sub) = page_size l" by (simp add: page_size_def)
    have unf: "destroy_loop LS root scope virt sz huge st =
        (if a \<ge> sz then Ok (st3, 0) else destroy_loop LS root scope (w64 (virt + a)) (sz - a) huge st3)"
      using w False d(1,2) ss unfolding a_def
      by (subst destroy_loop.simps) (simp add: Let_def del: clear_up.simps paging_slot_size.simps)
    show ?thesis
    proof (cases "a \<ge> sz")
      case False
      then have as: "a \<le> sz" "a < sz" "0 < a" by (simp_all add: a_def)
      have "0x1000 dvd virt" using al(1) by (simp add: mod_eq_0_iff_dvd)
      then have "0x1000 dvd virt mod page_size l" using page_size_dvd(1) [OF p(2)] by (rule dvd_mod)
      then have am: "a mod 0x1000 = 0"
        unfolding a_def using dvd_diff_nat [OF page_size_dvd(1) [OF p(2)]] by (simp only: mod_eq_0_iff_dvd)
      note adv = range_ok_advance(1) [OF less.prems(2) as(1) am]
      have nw: "w64 (virt + a) = virt + a" using al(3) as(2) by (simp add: w64_def)
      have "fn LS st3 root x" if "virt + a \<le> x" "x < virt + a + (sz - a)" for x
        by (rule fine_cleared [OF c less.prems(3)]) (use that as in linarith)+
      from less.IH [OF diff_less [OF as(3) pos] upd_tree [OF d(3)] adv this] as(2) obtain st4
        where "destroy_loop LS root scope (virt + a) (sz - a) huge st3 = Ok (st4, 0)" "cleared st3 st4" by blast
      then show ?thesis using unf False nw cleared_trans [OF c] by auto
    qed (use unf c in auto)
  qed (simp add: destroy_loop.simps)
qed

section \<open>Mapping\<close>

lemma fine_child:
  assumes t: "tree (l # ls) st pt" and i: "i < nr_entries l" and p: "ptr (entry st pt i)"
    and u: "upd ls (child st pt i) S st st'"
  shows "fn (l # ls) st' pt w = (if get_entry l w = i then fn ls st' (child st pt i) w else fn (l # ls) st pt w)"
proof -
  have e: "tables st' pt = tables st pt" by (rule upd_child(2) [OF t i p u])
  have f: "p2v (pool st') = p2v (pool st)" using u by (simp add: upd_def)
  show ?thesis
  proof (cases "get_entry l w = i")
    case True
    then show ?thesis using p leaf_not_ptr e f by (auto simp: fine.simps(2) Let_def)
  next
    case False
    let ?j = "get_entry l w"
    have wf: "wft (p2v (pool st)) (l # ls) (tables st) pt" using t by (simp add: tree_def)
    have "tables st' a = tables st a" if pj: "ptr (entry st pt ?j)" and a: "a \<in> tabs ls st (child st pt ?j)" for a
    proof -
      have "sub (p2v (pool st)) ls (tables st) (entry st pt ?j) \<inter> sub (p2v (pool st)) ls (tables st) (entry st pt i) = {}"
        using wf False i get_entry_less [of l w] unfolding wft.simps(2) by blast
      then have "a \<notin> tabs ls st (child st pt i)" using a pj p by (auto simp: sub_def)
      moreover have "a \<in> held (pool st)"
        using tree_child(2) [OF t get_entry_less pj] a t unfolding tree_def by blast
      ultimately show ?thesis using u by (auto simp: upd_def others_def)
    qed
    then have "fine (p2v (pool st)) ls (tables st') (child st pt ?j) w = fn ls st (child st pt ?j) w" if "ptr (entry st pt ?j)"
      using fine_frame [of "p2v (pool st)" ls "tables st" "child st pt ?j" "tables st'" w] that by blast
    then show ?thesis using False e f by (auto simp: fine.simps(2) Let_def)
  qed
qed

lemma fine_link:
  assumes t: "tree (l # ls) st pt" and i: "i < nr_entries l"
    and m: "tables st2 = (tables st)(tb := \<lambda>_. 0, pt := (tables st pt)(i := e))" and fresh: "tb \<notin> held (pool st)"
    and f: "p2v (pool st2) = p2v (pool st)" and n: "xl (l # ls) st2 pt w = (if get_entry l w = i then None else xl (l # ls) st pt w)"
    and w: "fn (l # ls) st pt w"
  shows "fn (l # ls) st2 pt w"
proof (cases "get_entry l w = i")
  case True
  then show ?thesis using n by (intro xlate_None_fine) simp
next
  case False
  let ?j = "get_entry l w"
  have wf: "wft (p2v (pool st)) (l # ls) (tables st) pt" using t by (simp add: tree_def)
  have "tables st2 a = tables st a" if pj: "ptr (entry st pt ?j)" and a: "a \<in> tabs ls st (child st pt ?j)" for a
  proof -
    have "a \<noteq> pt" using tree_child(3) [OF t get_entry_less pj] a by blast
    moreover have "a \<noteq> tb" using tree_child(2) [OF t get_entry_less pj] a t fresh unfolding tree_def by blast
    ultimately show ?thesis using m by simp
  qed
  then have "fine (p2v (pool st)) ls (tables st2) (child st pt ?j) w = fn ls st (child st pt ?j) w" if "ptr (entry st pt ?j)"
    using fine_frame [of "p2v (pool st)" ls "tables st" "child st pt ?j" "tables st2" w] that by blast
  moreover have "tables st2 pt ?j = tables st pt ?j" using m False by simp
  ultimately show ?thesis using w f by (auto simp: fine.simps(2) Let_def)
qed

lemma zalloc_left:
  assumes "gfp_ok (pool st)" and "areas_direct (pool st)" and "zalloc_page st = Ok (st', tb)"
  shows "if tb = 0 then frames_left (pool st) = 0
    else frames_left (pool st) = frames_left (pool st') + 1 \<and> areas_direct (pool st')"
  using assms alloc_left [OF assms(1,2)] by (auto simp: zalloc_page_def split: result.splits if_splits)

text \<open>Each level but the last takes at most one frame for a new table.\<close>

definition takes :: "nat \<Rightarrow> int \<Rightarrow> areas \<Rightarrow> areas \<Rightarrow> bool" where
  "takes n err as as' \<longleftrightarrow> (areas_direct as \<longrightarrow>
     (if err = 0 then frames_left as \<le> frames_left as' + n else frames_left as < n))"

lemma takes_mono: "takes n err as as' \<Longrightarrow> n \<le> m \<Longrightarrow> takes m err as as'"
  by (auto simp: takes_def split: if_splits)

lemma takes_Suc:
  assumes "takes n err as' as''" "frames_left as = frames_left as' + 1" "areas_direct as'"
  shows "takes (n + 1) err as as''"
  using assms by (auto simp: takes_def split: if_splits)

lemma create_walk_page:
  assumes "levels_ok ls" and "tree ls st pt" and "xl ls st pt virt = None"
    and al: "virt mod 0x1000 = 0" "phys mod 0x1000 = 0" and sz: "virt + 0x1000 \<le> 2 ^ 64" "phys + 0x1000 \<le> 2 ^ 56"
    and fl: "leaf_flags flags" and r: "create_walk ls pt scope phys 0x1000 virt flags huge st = Ok (st', err, k)"
  shows "(err \<noteq> 0 \<longrightarrow> (\<forall>w. xl ls st' pt w = xl ls st pt w)) \<and> (\<forall>w. fn ls st pt w \<longrightarrow> fn ls st' pt w) \<and>
    (err = 0 \<longrightarrow> page_size k = 0x1000) \<and> takes (length ls - 1) err (pool st) (pool st')"
  using assms(1-3) r
proof (induction ls arbitrary: st pt)
  case (Cons l ls)
  let ?i = "get_entry l virt"
  have p12: "page_size l = 0x1000 \<longleftrightarrow> ls = []" "0x1000 \<le> page_size l"
  proof -
    have "level l = 0 \<longleftrightarrow> ls = []" using Cons.prems(1) by (cases ls) auto
    moreover have "page_size l = 0x1000 * 2 ^ (9 * level l)"
      by (simp add: page_size_def UNTRANSLATED_BITS_def PAGE_LEVEL_BITS_def power_add mult.commute)
    moreover have "(2::nat) ^ (9 * level l) = 1 \<longleftrightarrow> level l = 0" by (cases "level l") simp_all
    ultimately show "page_size l = 0x1000 \<longleftrightarrow> ls = []" "0x1000 \<le> page_size l" by auto
  qed
  show ?case
  proof (cases "ls = []")
    case True
    have "(phys OR virt) mod 2 ^ 12 = 0" unfolding or_mod_zero using al by simp
    then have "st' = write_entry pt ?i (set_terminal l phys flags) st \<and> err = 0 \<and> k = l"
      using Cons.prems(4) p12(1) True unfolding create_walk.simps [of "l # ls"] by (auto simp: Let_def)
    then show ?thesis using True p12 by (simp add: fine.simps takes_def)
  next
    case False
    then have nh: "\<not> (page_size l > 0 \<and> page_size l \<le> 0x1000 \<and> (phys OR virt) mod page_size l = 0 \<and>
      (huge \<or> page_size l = unat PAGE_SIZE))" using p12 by auto
    note cw = create_walk.simps [of "l # ls" pt scope phys "0x1000" virt flags huge st, unfolded list.case Let_def if_not_P [OF nh]]
    note lo = levels_ok_tl [OF Cons.prems(1) False]
    have wf: "wft (p2v (pool st)) (l # ls) (tables st) pt" using Cons.prems(2) by (simp add: tree_def)
    have nl: "\<not> leaf (entry st pt ?i)" using Cons.prems(3) by (auto simp: xlate.simps(2) Let_def)
    text \<open>Both ways on go down into the table the entry points to.\<close>
    have down: "(err \<noteq> 0 \<longrightarrow> (\<forall>w. xl (l # ls) st' pt w = xl (l # ls) st1 pt w)) \<and>
        (\<forall>w. fn (l # ls) st1 pt w \<longrightarrow> fn (l # ls) st' pt w) \<and> (err = 0 \<longrightarrow> page_size k = 0x1000) \<and>
        takes (length ls - 1) err (pool st1) (pool st')"
      if t1: "tree (l # ls) st1 pt" and p: "ptr (entry st1 pt ?i)" and x: "xl (l # ls) st1 pt virt = None"
        and c: "create_walk ls (child st1 pt ?i) scope phys 0x1000 virt flags huge st1 = Ok (st', err, k)" for st1
    proof -
      have nl1: "\<not> leaf (entry st1 pt ?i)" using p leaf_not_ptr by blast
      note tc = tree_child(1) [OF t1 get_entry_less p]
      have xc: "xl ls st1 (child st1 pt ?i) virt = None" using x nl1 p by (simp add: xlate.simps(2) Let_def)
      note ih = Cons.IH [OF lo tc xc c]
      have u: "upd ls (child st1 pt ?i) UNIV st1 st'"
        using create_walk_spec [OF levels_subs_ok [OF lo] lo tc al(1) _ al(2) _ sz fl, of scope huge] c by auto
      note ch = upd_child(3) [OF t1 get_entry_less p u] and fc = fine_child [OF t1 get_entry_less p u]
      have "xl (l # ls) st1 pt w = xl ls st1 (child st1 pt ?i) w" "fn (l # ls) st1 pt w = fn ls st1 (child st1 pt ?i) w"
        if "get_entry l w = ?i" for w
        using that p nl1 by (simp_all add: xlate.simps(2) fine.simps(2) Let_def)
      then show ?thesis using ih ch fc by simp
    qed
    show ?thesis
    proof (cases "ptr (entry st pt ?i)")
      case True
      then have v: "entry_valid (entry st pt ?i)" using entry_valid_iff by blast
      have "split_hugepage (l # ls) pt virt huge scope st = Ok (st, 0)"
        using get_phys_not_leaf [OF nl] by (simp add: split_hugepage.simps Let_def)
      then have "create_walk ls (child st pt ?i) scope phys 0x1000 virt flags huge st = Ok (st', err, k)"
        using Cons.prems(4) v wft_ptr(1) [OF wf get_entry_less True] unfolding cw by (simp add: get_next_pt_def)
      note d = down [OF Cons.prems(2) True Cons.prems(3) this]
      then show ?thesis using takes_mono [of "length ls - 1" err "pool st" "pool st'" "length ls"] by simp
    next
      case np: False
      then have inv: "\<not> entry_valid (entry st pt ?i)" using nl entry_valid_iff by blast
      have "gfp_ok (pool st)" using Cons.prems(2) by (simp add: tree_def)
      then show ?thesis
      proof (cases rule: zalloc_cases)
        case full
        then have e: "st' = st \<and> err \<noteq> 0" using Cons.prems(4) inv unfolding cw by auto
        have "takes (length ls) err (pool st) (pool st)"
          using zalloc_left [OF \<open>gfp_ok (pool st)\<close> _ full] e False by (simp add: takes_def)
        then show ?thesis using e by simp
      next
        case (page st1 tb p)
        note lk = upd_link [OF Cons.prems(2) get_entry_less False page(3-7) page(9-12), of virt]
        let ?st2 = "write_entry pt ?i (set_next_pt l (unat p)) st1"
        have c: "create_walk ls (child ?st2 pt ?i) scope phys 0x1000 virt flags huge ?st2 = Ok (st', err, k)"
          using Cons.prems(4) inv page(1,2,8) lk(3) unfolding cw by simp
        have x2: "xl (l # ls) ?st2 pt w = xl (l # ls) st pt w" for w
          using lk(4) [of w] np nl by (auto simp: xlate.simps(2))
        have ne: "tb \<noteq> pt" using page(6) Cons.prems(2) by (auto simp: tree_def tset_Cons)
        have "tables ?st2 = (tables st)(tb := \<lambda>_. 0, pt := (tables st pt)(?i := set_next_pt l (unat p)))"
          using page(3) ne by simp
        note fl = fine_link [OF Cons.prems(2) get_entry_less this page(6) _ lk(4)]
        have "fn (l # ls) ?st2 pt w" if "fn (l # ls) st pt w" for w by (rule fl [OF _ that]) (simp add: page(5))
        moreover have "takes (length ls) err (pool st) (pool st')"
          if "takes (length ls - 1) err (pool ?st2) (pool st')"
          using takes_Suc [OF that] zalloc_left [OF \<open>gfp_ok (pool st)\<close> _ page(1)] page(2) False
          by (cases "areas_direct (pool st)") (auto simp: takes_def split: if_splits)
        moreover note down [OF upd_tree [OF lk(1)] lk(2) _ c] x2 Cons.prems(3)
        ultimately show ?thesis by simp
      qed
    qed
  qed
qed simp

section \<open>The interface\<close>

lemma paging_geom:
  assumes "paging_create ls pt scope phys sz virt flags huge st = Ok (st', err) \<or>
    paging_destroy ls pt scope virt sz huge st = Ok (st', err)"
  shows "map geom (pool st') = map geom (pool st)"
  using ge.paging_ends(1) [of st "map geom (pool st)" ls pt scope virt sz huge]
    ge.paging_ends(2) [of st "map geom (pool st)" ls pt scope phys sz virt flags huge] assms by auto

lemma map_page_spec:
  assumes t: "tree root_paging st pt" and v: "unat vaddr mod 0x1000 = 0" "unat vaddr + 0x1000 \<le> 2 ^ 64"
    and p: "unat paddr mod 0x1000 = 0" "unat paddr + 0x1000 \<le> 2 ^ 56" and n: "xl root_paging st pt (unat vaddr) = None"
    and fl: "flags AND (GRINCH_MEM_R OR GRINCH_MEM_W OR GRINCH_MEM_X) \<noteq> 0"
  shows "\<exists>st' err. map_range st pt vaddr paddr PAGE_SIZE flags = Ok (st', err) \<and> upd root_paging pt UNIV st st' \<and>
    map geom (pool st') = map geom (pool st) \<and> (err = 0 \<or> err = - errno_num ENOMEM) \<and>
    (\<forall>w. fn root_paging st pt w \<longrightarrow> fn root_paging st' pt w) \<and>
    (\<forall>w. xl root_paging st' pt w = (if err = 0 then mapped root_paging (unat paddr) 0x1000 (unat vaddr)
       (arch_paging_access_flags flags) (xl root_paging st pt) w else xl root_paging st pt w)) \<and>
    takes 2 err (pool st) (pool st')"
proof -
  let ?F = "arch_paging_access_flags flags" and ?sc = "tlb_scope_of st pt"
  have lf: "leaf_flags ?F" by (rule access_flags_leaf [OF fl])
  have c: "page_base vaddr = unat vaddr" "page_base paddr = unat paddr" "page_count_bytes PAGE_SIZE = 0x1000"
    using v p by (simp_all add: page_base_def page_count_bytes_def unat_page_up)
  have "unat vaddr mod 2 ^ 39 + 0x1000 \<le> 2 ^ 39"
  proof -
    obtain k where k: "unat vaddr = 0x1000 * k" using v(1) by auto
    have "0x1000 * k mod 2 ^ 39 = 0x1000 * (k mod 2 ^ 27)" using mult_mod_right [of "0x1000" k "2 ^ 27"] by simp
    moreover have "k mod 2 ^ 27 < 2 ^ 27" by simp
    ultimately show ?thesis unfolding k by simp
  qed
  then have r: "request_ok root_paging vaddr PAGE_SIZE" using v by (simp add: request_ok_def c levels_root(2))
  from paging_create_spec [OF levels_root(1) t r, of paddr ?F ?sc True] p lf obtain st' err where
    s: "paging_create root_paging pt ?sc (unat paddr) 0x1000 (unat vaddr) ?F True st = Ok (st', err)"
    "upd root_paging pt UNIV st st'" "err = 0 \<or> err = - errno_num ENOMEM"
    "err \<noteq> 0 \<or> (\<forall>w. xl root_paging st' pt w = mapped root_paging (unat paddr) 0x1000 (unat vaddr) ?F (xl root_paging st pt) w)"
    by (auto simp: c)
  have unf: "paging_create root_paging pt ?sc (unat paddr) 0x1000 (unat vaddr) ?F True st =
    create_loop root_paging pt ?sc (unat paddr) 0x1000 (unat vaddr) ?F True st"
    using v p by (simp add: paging_create.simps unat_page_up)
  from create_walk_spec [OF levels_subs_ok [OF levels_root(1)] levels_root(1) t v(1) _ p(1) _ v(2) p(2) lf, of ?sc True]
  obtain st1 err1 k where w: "create_walk root_paging pt ?sc (unat paddr) 0x1000 (unat vaddr) ?F True st = Ok (st1, err1, k)"
    by auto
  note cp = create_walk_page [OF levels_root(1) t n v(1) p(1) v(2) p(2) lf w]
  have "st' = (if err1 = 0 then flush_mapped ?sc (unat vaddr) st1 else st1) \<and> err = err1"
    using s(1) w cp unfolding unf by (auto simp: create_loop.simps split: if_splits)
  then have st': "tables st' = tables st1" "pool st' = pool st1" "err = err1" by auto
  have "xl root_paging st' pt w = (if err = 0 then mapped root_paging (unat paddr) 0x1000 (unat vaddr) ?F (xl root_paging st pt) w
      else xl root_paging st pt w)" for w
    using s(4) cp st' by auto
  moreover have "fn root_paging st' pt w" if "fn root_paging st pt w" for w using cp st' that by simp
  moreover have "map_range st pt vaddr paddr PAGE_SIZE flags = Ok (st', err)" using s(1) by (simp add: map_range_def)
  moreover have "length root_paging - 1 = 2" by (simp add: root_paging_def riscv_Sv39_def)
  then have "takes 2 err (pool st) (pool st')" using cp st' by simp
  ultimately show ?thesis using s paging_geom by blast
qed

lemma unmap_fine_spec:
  assumes t: "tree root_paging st pt" and v: "unat vaddr mod 0x1000 = 0" "unat sz mod 0x1000 = 0"
      "unat vaddr + unat sz \<le> 2 ^ 38"
    and f: "\<And>x. unat vaddr \<le> x \<Longrightarrow> x < unat vaddr + unat sz \<Longrightarrow> fn root_paging st pt x"
  shows "\<exists>st'. unmap_range st pt vaddr sz = Ok (st', 0) \<and> upd root_paging pt UNIV st st' \<and>
    map geom (pool st') = map geom (pool st) \<and> (\<forall>w. fn root_paging st pt w \<longrightarrow> fn root_paging st' pt w) \<and>
    (\<forall>w. xl root_paging st' pt w =
      (if in_range root_paging (unat vaddr) (unat sz) w then None else xl root_paging st pt w))"
proof -
  let ?sc = "tlb_scope_of st pt"
  have c: "page_base vaddr = unat vaddr" "page_count_bytes sz = unat sz"
    using v page_up_mult [of "unat sz"] by (simp_all add: page_base_def page_count_bytes_def)
  have r: "request_ok root_paging vaddr sz" using v(3) by (simp add: request_ok_def c levels_root(2))
  from paging_destroy_spec [OF levels_root(1) t r, of ?sc False] obtain st' err where
    s: "paging_destroy root_paging pt ?sc (unat vaddr) (unat sz) False st = Ok (st', err)"
    "upd root_paging pt UNIV st st'"
    "err \<noteq> 0 \<or> (\<forall>w. xl root_paging st' pt w = (if in_range root_paging (unat vaddr) (unat sz) w then None else xl root_paging st pt w))"
    unfolding c by blast
  have unf: "paging_destroy root_paging pt ?sc (unat vaddr) (unat sz) False st =
    destroy_loop root_paging pt ?sc (unat vaddr) (unat sz) False st"
    using c v(1) by (simp add: paging_destroy.simps page_count_bytes_def)
  from destroy_loop_fine [OF levels_root(1) t request_range [OF r, unfolded c] f, of ?sc False]
  have "err = 0" "cleared st st'" using s(1) unfolding unf by auto
  moreover have "map geom (pool st') = map geom (pool st)" using s(1) paging_geom by blast
  ultimately show ?thesis using s fine_cleared by (auto simp: unmap_range_def)
qed

end
