(* ===== verification/Vma.thy ===== *)
theory Vma
  imports Paging_Safety Cstring
begin

text \<open>
  User memory: the virtual memory areas of a process (\<^verbatim>\<open>mm/vma.c\<close>), the access to user
  memory from the kernel (\<^verbatim>\<open>kernel/uaccess.c\<close>), page faults and the program break
  (\<^verbatim>\<open>kernel/process.c\<close>), on top of the page tables of \<open>Paging\<close> and the page-frame
  allocator of \<open>Gfp\<close>. The bytes of memory are kept by their kernel virtual address, apart
  from the entries of page tables, which are in the paging state.
\<close>

section \<open>State\<close>

definition VMA_FLAG_LAZY :: u32 where "VMA_FLAG_LAZY = 1"
definition VMA_FLAG_USER :: u32 where "VMA_FLAG_USER = 2"
definition VMA_FLAG_R :: u32 where "VMA_FLAG_R = 4"
definition VMA_FLAG_W :: u32 where "VMA_FLAG_W = 8"
definition VMA_FLAG_X :: u32 where "VMA_FLAG_X = 16"
definition VMA_FLAG_RW :: u32 where "VMA_FLAG_RW = VMA_FLAG_R OR VMA_FLAG_W"

text \<open>A \<^verbatim>\<open>struct vma\<close> with its own address, and what a process has of memory.\<close>

record vma =
  vm_ptr :: nat
  vm_name :: "u8 list option"
  vm_base :: u64
  vm_size :: u64
  vm_flags :: u32

record process =
  mm_table :: u64
  mm_asid :: nat
  mm_vmas :: "vma list"
  brk_base :: u64
  brk_vma :: "nat option"

text \<open>
  The page tables with the page frames, the bytes of memory, the processes and their task
  locks. \<open>kmem i\<close> is what the \<open>i\<close>-th call of \<^verbatim>\<open>kmalloc\<close> returns, 0 if the heap has no
  room, and \<open>kcalls\<close> counts the calls. \<open>remote\<close> are the flushes requested from the other
  CPUs, newest first.
\<close>

record mstate =
  pg :: pgs
  ram :: bytes
  procs :: "nat \<Rightarrow> process"
  task_locked :: "nat \<Rightarrow> bool"
  kmem :: "nat \<Rightarrow> nat"
  kcalls :: nat
  remote :: "(nat \<times> u64 \<times> u64) list"

definition kmalloc_next :: "mstate \<Rightarrow> mstate \<times> nat" where
  "kmalloc_next st = (st\<lparr>kcalls := Suc (kcalls st)\<rparr>, kmem st (kcalls st))"

definition upd_proc :: "nat \<Rightarrow> (process \<Rightarrow> process) \<Rightarrow> mstate \<Rightarrow> mstate" where
  "upd_proc t f st = st\<lparr>procs := (procs st)(t := f (procs st t))\<rparr>"

abbreviation table_of :: "mstate \<Rightarrow> nat \<Rightarrow> u64" where
  "table_of st t \<equiv> mm_table (procs st t)"

abbreviation set_pool :: "areas \<Rightarrow> mstate \<Rightarrow> mstate" where
  "set_pool as st \<equiv> st\<lparr>pg := (pg st)\<lparr>pool := as\<rparr>\<rparr>"

section \<open>Backing areas with pages\<close>

definition vma_mem_flags :: "u32 \<Rightarrow> u8" where
  "vma_mem_flags flags =
     (if flags AND VMA_FLAG_R \<noteq> 0 then GRINCH_MEM_R else 0) OR
     (if flags AND VMA_FLAG_W \<noteq> 0 then GRINCH_MEM_W else 0) OR
     (if flags AND VMA_FLAG_USER \<noteq> 0 then GRINCH_MEM_U else 0) OR
     (if flags AND VMA_FLAG_X \<noteq> 0 then GRINCH_MEM_X else 0)"

definition vma_alloc_range :: "u64 \<Rightarrow> vma \<Rightarrow> u64 \<Rightarrow> u64 \<Rightarrow> nat \<Rightarrow> mstate \<Rightarrow> (mstate \<times> int) result" where
  "vma_alloc_range pt vma base sz alignment st =
     (if base AND (PAGE_SIZE - 1) \<noteq> 0 then Ok (st, - errno_num EINVAL)
      else if sz mod PAGE_SIZE \<noteq> 0 then Ok (st, - errno_num EINVAL)
      else and_then (phys_pages_alloc (pool (pg st)) (unat (PAGES sz)) alignment) (\<lambda>(as, err, res).
        let st = set_pool as st
        in case res of
             None \<Rightarrow> Ok (st, err)
           | Some phys \<Rightarrow>
               and_then (map_range (pg st) pt base phys sz (vma_mem_flags (vm_flags vma))) (\<lambda>(p, err).
                 let st = st\<lparr>pg := p\<rparr>
                 in if err \<noteq> 0
                    then let (as, _) = phys_free_pages (pool (pg st)) phys (unat (PAGES sz))
                         in Ok (set_pool as st, err)
                    else Ok (st, 0))))"

text \<open>
  The loop of \<^verbatim>\<open>uvma_dealloc_range\<close>. A step of 0 would not end and a pointer that leaves
  the address space has no defined value: both are \<open>Panic\<close>.
\<close>

function dealloc_loop :: "u64 \<Rightarrow> nat \<Rightarrow> nat \<Rightarrow> nat \<Rightarrow> mstate \<Rightarrow> (mstate \<times> int) result" where
  "dealloc_loop pt this stop step st =
     (if \<not> this < stop then Ok (st, 0)
      else if step = 0 \<or> this + step \<ge> 2 ^ 64 then Panic
      else and_then (paging_get_phys (pg st) pt (of_nat this)) (\<lambda>phys.
        if phys = INVALID_PHYS_ADDR then dealloc_loop pt (this + step) stop step st
        else and_then (unmap_range (pg st) pt (of_nat this) (of_nat step)) (\<lambda>(p, err).
          let st = st\<lparr>pg := p\<rparr>
          in if err \<noteq> 0 then Ok (st, - errno_num EINVAL)
             else let (as, err) = phys_free_pages (pool (pg st)) phys (step div unat PAGE_SIZE);
                      st = set_pool as st
                  in if err \<noteq> 0 then Ok (st, err) else dealloc_loop pt (this + step) stop step st)))"
  by auto
termination
  by (relation "measure (\<lambda>(_, this, stop, _, _). stop - this)") auto

definition uvma_dealloc_range :: "nat \<Rightarrow> vma \<Rightarrow> u64 \<Rightarrow> u64 \<Rightarrow> mstate \<Rightarrow> (mstate \<times> int) result" where
  "uvma_dealloc_range t vma base sz st =
     (let pt = table_of st t;
          step = (if vm_flags vma AND VMA_FLAG_LAZY \<noteq> 0 then PAGE_SIZE else vm_size vma)
      in and_then (dealloc_loop pt (unat base) (unat (base + sz)) (unat step) st) (\<lambda>(st, err).
           if err \<noteq> 0 then Ok (st, err)
           else and_then (unmap_range (pg st) pt base sz) (\<lambda>(p, err).
             let st = st\<lparr>pg := p\<rparr>
             in if err \<noteq> 0 then Ok (st, - errno_num EINVAL)
                else Ok (st\<lparr>remote := (mm_asid (procs st t), base, sz) # remote st\<rparr>, 0))))"

definition uvma_dealloc :: "nat \<Rightarrow> vma \<Rightarrow> mstate \<Rightarrow> (mstate \<times> int) result" where
  "uvma_dealloc t vma st = uvma_dealloc_range t vma (vm_base vma) (vm_size vma) st"

definition uvma_destroy :: "nat \<Rightarrow> vma \<Rightarrow> mstate \<Rightarrow> mstate result" where
  "uvma_destroy t vma st =
     and_then (uvma_dealloc t vma st) (\<lambda>(st, err). if err \<noteq> 0 then Panic else Ok st)"

definition vma_alloc :: "u64 \<Rightarrow> vma \<Rightarrow> nat \<Rightarrow> mstate \<Rightarrow> (mstate \<times> int) result" where
  "vma_alloc pt vma alignment st = vma_alloc_range pt vma (vm_base vma) (vm_size vma) alignment st"

definition kvma_create :: "vma \<Rightarrow> mstate \<Rightarrow> (mstate \<times> int) result" where
  "kvma_create vma st = vma_alloc (kernel_root (pg st)) vma (unat PAGE_SIZE) st"

section \<open>Finding areas\<close>

definition uvma_at_range :: "process \<Rightarrow> u64 \<Rightarrow> u64 \<Rightarrow> vma option result" where
  "uvma_at_range p base sz =
     (if base + sz < base \<or> sz = 0 then Panic
      else Ok (find (\<lambda>v. base + sz > vm_base v \<and> base < vm_base v + vm_size v) (mm_vmas p)))"

definition uvma_at :: "process \<Rightarrow> u64 \<Rightarrow> vma option result" where
  "uvma_at p base = uvma_at_range p base 1"

definition uvma_collides :: "process \<Rightarrow> u64 \<Rightarrow> u64 \<Rightarrow> bool result" where
  "uvma_collides p base sz = and_then (uvma_at_range p base sz) (\<lambda>r. Ok (r \<noteq> None))"

section \<open>Access to user memory\<close>

definition user_to_direct :: "u64 \<Rightarrow> u64 \<Rightarrow> mstate \<Rightarrow> u64 result" where
  "user_to_direct pt s st =
     and_then (paging_get_phys (pg st) pt s) (\<lambda>pa.
       if pa = INVALID_PHYS_ADDR then Ok 0 else p2v (pool (pg st)) pa)"

lemma page_bytes_left_eq: "unat (page_bytes_left p) = 0x1000 - unat p mod 0x1000"
proof -
  have lt: "unat p mod 0x1000 < 0x1000" by simp
  have m: "unat (ucast (page_voffset p) :: u64) = unat p mod 0x1000"
    using lt by (simp add: unsigned_ucast_eq unat_page_offset take_bit_nat_eq_self)
  then have "(ucast (page_voffset p) :: u64) \<le> PAGE_SIZE" using lt by (simp add: word_le_nat_alt)
  then have "unat (PAGE_SIZE - ucast (page_voffset p)) = 0x1000 - unat p mod 0x1000"
    using m by (simp add: unat_sub)
  then show ?thesis by (simp add: page_bytes_left_def unsigned_ucast_eq take_bit_nat_eq_self)
qed

lemma page_bytes_left_pos [simp]: "0 < unat (page_bytes_left p)"
  by (simp add: page_bytes_left_eq)

text \<open>
  The routines of \<^verbatim>\<open>uaccess.c\<close> and the page-fault handler call each other: clearing user
  memory faults pages in, and a page that is faulted in is cleared. Each is written over the
  next one, and \<open>user_to_direct_fault\<close> closes the circle, with a bound on how many faults
  nest; beyond it the kernel stack would overflow.
\<close>

type_synonym user_translate = "u64 \<Rightarrow> mstate \<Rightarrow> (mstate \<times> u64) result"

function umemset_with :: "user_translate \<Rightarrow> u64 \<Rightarrow> int \<Rightarrow> nat \<Rightarrow> nat \<Rightarrow> mstate \<Rightarrow> (mstate \<times> nat) result" where
  "umemset_with utd dst c n ret st =
     (if n = 0 then Ok (st, ret)
      else and_then (utd dst st) (\<lambda>(st, direct).
        if direct = 0 then Ok (st, ret)
        else let written = min n (unat (page_bytes_left direct))
             in umemset_with utd (dst + of_nat written) c (n - written) (ret + written)
                  (st\<lparr>ram := memset (ram st) (unat direct) c written\<rparr>)))"
  by auto
termination
  by (relation "measure (\<lambda>(_, _, _, n, _, _). n)") auto

definition page_align_down :: "u64 \<Rightarrow> u64" where
  "page_align_down addr = (addr - (PAGE_SIZE - 1) + (PAGE_SIZE - 1)) AND NOT (PAGE_SIZE - 1)"

definition uvma_handle_fault_with :: "user_translate \<Rightarrow> nat \<Rightarrow> vma \<Rightarrow> u64 \<Rightarrow> mstate \<Rightarrow> (mstate \<times> int) result" where
  "uvma_handle_fault_with utd t vma addr st =
     (if vm_flags vma AND VMA_FLAG_LAZY = 0 then Panic
      else let base = page_align_down addr
           in and_then (vma_alloc_range (table_of st t) vma base PAGE_SIZE (unat PAGE_SIZE) st) (\<lambda>(st, err).
                if err \<noteq> 0 then Ok (st, err)
                else and_then (umemset_with utd base 0 (unat PAGE_SIZE) 0 st) (\<lambda>(st, _). Ok (st, 0))))"

definition process_handle_fault_with :: "user_translate \<Rightarrow> nat \<Rightarrow> u64 \<Rightarrow> mstate \<Rightarrow> (mstate \<times> int) result" where
  "process_handle_fault_with utd t addr st =
     and_then (uvma_at (procs st t) addr) (\<lambda>r.
       case r of
         None \<Rightarrow> Ok (st, - errno_num ENOENT)
       | Some vma \<Rightarrow> uvma_handle_fault_with utd t vma addr st)"

primrec user_to_direct_fault :: "nat \<Rightarrow> nat \<Rightarrow> user_translate" where
  "user_to_direct_fault 0 t = (\<lambda>s st.
     and_then (user_to_direct (table_of st t) s st) (\<lambda>ret. if ret = 0 then Panic else Ok (st, ret)))"
| "user_to_direct_fault (Suc d) t = (\<lambda>s st.
     and_then (user_to_direct (table_of st t) s st) (\<lambda>ret.
       if ret = 0
       then and_then (process_handle_fault_with (user_to_direct_fault d t) t s st) (\<lambda>(st, err).
              if err \<noteq> 0 then Ok (st, 0)
              else and_then (user_to_direct (table_of st t) s st) (\<lambda>ret. Ok (st, ret)))
       else Ok (st, ret)))"

definition FAULT_NEST :: nat where "FAULT_NEST = 1"

definition umemset :: "nat \<Rightarrow> u64 \<Rightarrow> int \<Rightarrow> nat \<Rightarrow> mstate \<Rightarrow> (mstate \<times> nat) result" where
  "umemset t dst c n st = umemset_with (user_to_direct_fault FAULT_NEST t) dst c n 0 st"

definition uvma_handle_fault :: "nat \<Rightarrow> vma \<Rightarrow> u64 \<Rightarrow> mstate \<Rightarrow> (mstate \<times> int) result" where
  "uvma_handle_fault t = uvma_handle_fault_with (user_to_direct_fault FAULT_NEST t) t"

definition process_handle_fault :: "nat \<Rightarrow> u64 \<Rightarrow> mstate \<Rightarrow> (mstate \<times> int) result" where
  "process_handle_fault t = process_handle_fault_with (user_to_direct_fault FAULT_NEST t) t"

text \<open>\<open>zero_page\<close> is the address of the static page of zeroes.\<close>

definition user_to_direct_null :: "u64 \<Rightarrow> nat \<Rightarrow> u64 \<Rightarrow> mstate \<Rightarrow> u64 result" where
  "user_to_direct_null zero_page t s st =
     and_then (user_to_direct (table_of st t) s st) (\<lambda>ret.
       if ret \<noteq> 0 then Ok ret
       else and_then (uvma_at (procs st t) s) (\<lambda>r.
         case r of
           None \<Rightarrow> Ok 0
         | Some vma \<Rightarrow> if vm_flags vma AND VMA_FLAG_LAZY = 0 then Panic
                       else Ok (zero_page + ucast (page_voffset s))))"

function copy_from_user_loop :: "u64 \<Rightarrow> nat \<Rightarrow> nat \<Rightarrow> u64 \<Rightarrow> nat \<Rightarrow> nat \<Rightarrow> mstate \<Rightarrow> (mstate \<times> nat) result" where
  "copy_from_user_loop zero_page t dst src n ret st =
     (if n = 0 then Ok (st, ret)
      else and_then (user_to_direct_null zero_page t src st) (\<lambda>direct.
        if direct = 0 then Ok (st, ret)
        else let written = min n (unat (page_bytes_left direct))
             in copy_from_user_loop zero_page t (dst + written) (src + of_nat written) (n - written) (ret + written)
                  (st\<lparr>ram := memcpy (ram st) dst (unat direct) written\<rparr>)))"
  by auto
termination
  by (relation "measure (\<lambda>(_, _, _, _, n, _, _). n)") auto

definition copy_from_user :: "u64 \<Rightarrow> nat \<Rightarrow> nat \<Rightarrow> u64 \<Rightarrow> nat \<Rightarrow> mstate \<Rightarrow> (mstate \<times> nat) result" where
  "copy_from_user zero_page t dst src n st = copy_from_user_loop zero_page t dst src n 0 st"

function copy_to_user_loop :: "nat \<Rightarrow> u64 \<Rightarrow> nat \<Rightarrow> nat \<Rightarrow> nat \<Rightarrow> mstate \<Rightarrow> (mstate \<times> nat) result" where
  "copy_to_user_loop t d s n ret st =
     (if n = 0 then Ok (st, ret)
      else and_then (user_to_direct_fault FAULT_NEST t d st) (\<lambda>(st, direct).
        if direct = 0 then Ok (st, ret)
        else let written = min n (unat (page_bytes_left direct))
             in copy_to_user_loop t (d + of_nat written) (s + written) (n - written) (ret + written)
                  (st\<lparr>ram := memcpy (ram st) (unat direct) s written\<rparr>)))"
  by auto
termination
  by (relation "measure (\<lambda>(_, _, _, n, _, _). n)") auto

definition copy_to_user :: "nat \<Rightarrow> u64 \<Rightarrow> nat \<Rightarrow> nat \<Rightarrow> mstate \<Rightarrow> (mstate \<times> nat) result" where
  "copy_to_user t d s n st = copy_to_user_loop t d s n 0 st"

declare dealloc_loop.simps [simp del] umemset_with.simps [simp del] copy_from_user_loop.simps [simp del]
  copy_to_user_loop.simps [simp del]

section \<open>Creating, copying and resizing areas\<close>

text \<open>The result is the error code or the address of the new \<^verbatim>\<open>struct vma\<close>.\<close>

definition uvma_create :: "nat \<Rightarrow> u64 \<Rightarrow> u64 \<Rightarrow> u32 \<Rightarrow> u8 list option \<Rightarrow> mstate \<Rightarrow> (mstate \<times> (int + nat)) result" where
  "uvma_create t base sz flags name st =
     (if \<not> is_urange base sz then Ok (st, Inl (- errno_num ERANGE))
      else and_then (uvma_collides (procs st t) base sz) (\<lambda>collides.
        if collides then Ok (st, Inl (- errno_num EINVAL))
        else let (st, vp) = kmalloc_next st
             in if vp = 0 then Ok (st, Inl (- errno_num ENOMEM))
                else let (st, dup) = (if name = None then (st, 1) else kmalloc_next st);
                         vma = \<lparr>vm_ptr = vp, vm_name = name, vm_base = base, vm_size = sz, vm_flags = flags OR VMA_FLAG_USER\<rparr>
                     in if dup = 0 then Ok (st, Inl (- errno_num ENOMEM))
                        else and_then
                          (if vm_flags vma AND VMA_FLAG_LAZY = 0
                           then and_then (vma_alloc (table_of st t) vma (unat PAGE_SIZE) st) (\<lambda>(st, err).
                                  if err \<noteq> 0 then Ok (st, err)
                                  else and_then (umemset t base 0 (unat sz) st) (\<lambda>(st, _). Ok (st, 0)))
                           else Ok (st, 0))
                          (\<lambda>(st, err). if err \<noteq> 0 then Ok (st, Inl err)
                             else Ok (upd_proc t (\<lambda>p. p\<lparr>mm_vmas := vma # mm_vmas p\<rparr>) st, Inr vp))))"

fun uvmas_destroy_loop :: "nat \<Rightarrow> vma list \<Rightarrow> mstate \<Rightarrow> mstate result" where
  "uvmas_destroy_loop t [] st = Ok st"
| "uvmas_destroy_loop t (v # vs) st =
     and_then (uvma_destroy t v st) (\<lambda>st.
       uvmas_destroy_loop t vs (upd_proc t (\<lambda>p. p\<lparr>mm_vmas := vs\<rparr>) st))"

definition uvmas_destroy :: "nat \<Rightarrow> mstate \<Rightarrow> mstate result" where
  "uvmas_destroy t st = uvmas_destroy_loop t (mm_vmas (procs st t)) st"

text \<open>The pages of the loop of \<^verbatim>\<open>uvma_duplicate\<close>; an address past the end of memory is \<open>Panic\<close>.\<close>

function duplicate_loop :: "nat \<Rightarrow> nat \<Rightarrow> vma \<Rightarrow> nat \<Rightarrow> nat \<Rightarrow> mstate \<Rightarrow> (mstate \<times> int) result" where
  "duplicate_loop dst src new base stop st =
     (if \<not> base < stop then Ok (st, 0)
      else if base + unat PAGE_SIZE \<ge> 2 ^ 64 then Panic
      else and_then (user_to_direct (table_of st src) (of_nat base) st) (\<lambda>psrc.
        if psrc = 0 then duplicate_loop dst src new (base + unat PAGE_SIZE) stop st
        else and_then (if vm_flags new AND VMA_FLAG_LAZY \<noteq> 0
                       then uvma_handle_fault dst new (of_nat base) st else Ok (st, 0)) (\<lambda>(st, err).
          if err \<noteq> 0 then Ok (st, err)
          else and_then (copy_to_user dst (of_nat base) (unat psrc) (unat PAGE_SIZE) st) (\<lambda>(st, _).
            duplicate_loop dst src new (base + unat PAGE_SIZE) stop st))))"
  by auto
termination
  by (relation "measure (\<lambda>(_, _, _, base, stop, _). stop - base)") auto

declare duplicate_loop.simps [simp del]

definition vma_at_ptr :: "process \<Rightarrow> nat \<Rightarrow> vma option" where
  "vma_at_ptr p vp = find (\<lambda>v. vm_ptr v = vp) (mm_vmas p)"

definition uvma_duplicate :: "nat \<Rightarrow> nat \<Rightarrow> vma \<Rightarrow> mstate \<Rightarrow> (mstate \<times> int) result" where
  "uvma_duplicate dst src vma st =
     and_then (uvma_create dst (vm_base vma) (vm_size vma) (vm_flags vma) (vm_name vma) st) (\<lambda>(st, r).
       case r of
         Inl err \<Rightarrow> Ok (st, err)
       | Inr vp \<Rightarrow>
           case vma_at_ptr (procs st dst) vp of
             None \<Rightarrow> Panic
           | Some new \<Rightarrow> duplicate_loop dst src new (unat (vm_base vma)) (unat (vm_base vma + vm_size vma)) st)"

definition set_vma_size :: "nat \<Rightarrow> nat \<Rightarrow> u64 \<Rightarrow> mstate \<Rightarrow> mstate" where
  "set_vma_size t vp sz =
     upd_proc t (\<lambda>p. p\<lparr>mm_vmas := map (\<lambda>v. if vm_ptr v = vp then v\<lparr>vm_size := sz\<rparr> else v) (mm_vmas p)\<rparr>)"

definition uvma_resize :: "nat \<Rightarrow> vma \<Rightarrow> u64 \<Rightarrow> mstate \<Rightarrow> (mstate \<times> int) result" where
  "uvma_resize t vma sz st =
     (if vm_flags vma AND VMA_FLAG_LAZY = 0 then Ok (st, - errno_num ENOSYS)
      else if sz mod PAGE_SIZE \<noteq> 0 \<or> sz = 0 then Ok (st, - errno_num EINVAL)
      else if sz = vm_size vma then Ok (st, 0)
      else if sz < vm_size vma
      then and_then (uvma_dealloc_range t vma (vm_base vma + sz) (vm_size vma - sz) st) (\<lambda>(st, err).
             if err \<noteq> 0 then Ok (st, err) else Ok (set_vma_size t (vm_ptr vma) sz st, 0))
      else and_then (uvma_collides (procs st t) (vm_base vma + vm_size vma) (sz - vm_size vma)) (\<lambda>collides.
             if collides then Ok (st, - errno_num ERANGE)
             else Ok (set_vma_size t (vm_ptr vma) sz st, 0)))"

section \<open>The program break\<close>

text \<open>
  \<^verbatim>\<open>sys_brk\<close> runs under the lock of the task. Taking a lock that is held never returns,
  which is \<open>Panic\<close>; the test for page alignment leaves with the lock held.
\<close>

definition set_lock :: "nat \<Rightarrow> bool \<Rightarrow> mstate \<Rightarrow> mstate" where
  "set_lock t b st = st\<lparr>task_locked := (task_locked st)(t := b)\<rparr>"

definition heap_name :: "u8 list" where
  "heap_name = lit ''[heap]''"

definition brk_report :: "nat \<Rightarrow> u64 \<Rightarrow> mstate \<Rightarrow> (mstate \<times> u64) result" where
  "brk_report t base st =
     (case brk_vma (procs st t) of
        None \<Rightarrow> Ok (set_lock t False st, base)
      | Some vp \<Rightarrow>
          case vma_at_ptr (procs st t) vp of
            None \<Rightarrow> Panic
          | Some v \<Rightarrow> Ok (set_lock t False st, base + vm_size v))"

definition sys_brk :: "nat \<Rightarrow> u64 \<Rightarrow> mstate \<Rightarrow> (mstate \<times> u64) result" where
  "sys_brk t addr st =
     (if task_locked st t then Panic
      else let base = brk_base (procs st t);
               st = set_lock t True st;
               fail = (\<lambda>st e. Ok (set_lock t False st, word_of_int e))
           in if addr = 0 then brk_report t base st
              else if addr mod PAGE_SIZE \<noteq> 0 then Ok (st, word_of_int (- errno_num EINVAL))
              else if addr < base then fail st (- errno_num EINVAL)
              else let sz = addr - base
                   in if sz = 0 then fail st (- errno_num EINVAL)
                      else case brk_vma (procs st t) of
                        None \<Rightarrow>
                          and_then (uvma_create t base sz (VMA_FLAG_USER OR VMA_FLAG_RW OR VMA_FLAG_LAZY)
                                      (Some heap_name) st) (\<lambda>(st, r).
                            case r of
                              Inl err \<Rightarrow> fail st err
                            | Inr vp \<Rightarrow> brk_report t base (upd_proc t (\<lambda>p. p\<lparr>brk_vma := Some vp\<rparr>) st))
                      | Some vp \<Rightarrow>
                          (case vma_at_ptr (procs st t) vp of
                             None \<Rightarrow> Panic
                           | Some v \<Rightarrow> and_then (uvma_resize t v sz st) (\<lambda>(st, err).
                               if err \<noteq> 0 then fail st err else brk_report t base st)))"

text \<open>
  A page fault from user mode, for the task that runs: the second component is the exit code
  if the task is ended with a segmentation fault.
\<close>

definition task_handle_fault :: "nat \<Rightarrow> u64 \<Rightarrow> mstate \<Rightarrow> (mstate \<times> int option) result" where
  "task_handle_fault t addr st =
     (if task_locked st t then Panic
      else and_then (process_handle_fault t addr (set_lock t True st)) (\<lambda>(st, err).
        Ok (set_lock t False st, if err \<noteq> 0 then Some (- errno_num EFAULT) else None)))"

end
