(* ===== verification/Address_Space.thy ===== *)
theory Address_Space
  imports Vma Paging_Fine
begin

text \<open>
  The invariant of a user address space and what page faults and accesses from the kernel do
  to it. The pages mapped below the end of user space belong to the areas of the process; each
  has its own page frame, which is in use, is no page table and belongs to nobody else; areas
  without the lazy flag are mapped completely; lazy areas are mapped page by page. On such a
  state the contents of user memory are a partial map from addresses to bytes, in which a lazy
  page that was never touched reads as zero.
\<close>

section \<open>The invariant\<close>

definition vma_range :: "vma \<Rightarrow> nat set" where
  "vma_range v = {unat (vm_base v) ..< unat (vm_base v) + unat (vm_size v)}"

definition is_lazy :: "vma \<Rightarrow> bool" where
  "is_lazy v \<longleftrightarrow> vm_flags v AND VMA_FLAG_LAZY \<noteq> 0"

definition vma_ok :: "vma \<Rightarrow> bool" where
  "vma_ok v \<longleftrightarrow> unat (vm_base v) mod 0x1000 = 0 \<and> unat (vm_size v) mod 0x1000 = 0 \<and> vm_size v \<noteq> 0 \<and>
     unat USER_START \<le> unat (vm_base v) \<and> unat (vm_base v) + unat (vm_size v) \<le> unat USER_END \<and>
     vm_flags v AND (VMA_FLAG_R OR VMA_FLAG_W OR VMA_FLAG_X) \<noteq> 0"

definition vmas_ok :: "vma list \<Rightarrow> bool" where
  "vmas_ok vs \<longleftrightarrow> list_all vma_ok vs \<and> disjoint_list (map vma_range vs) \<and> distinct (map vm_ptr vs)"

abbreviation ux :: "mstate \<Rightarrow> nat \<Rightarrow> nat \<Rightarrow> (nat \<times> u64) option" where
  "ux st t x \<equiv> xl root_paging (pg st) (table_of st t) x"

abbreviation vmas_of :: "mstate \<Rightarrow> nat \<Rightarrow> vma list" where
  "vmas_of st t \<equiv> mm_vmas (procs st t)"

definition user_page :: "nat \<Rightarrow> bool" where
  "user_page a \<longleftrightarrow> a < unat USER_END \<and> a mod 0x1000 = 0"

text \<open>Page \<open>a\<close> is backed by one frame, which the kernel sees at \<open>d\<close>.\<close>

definition page_mapped :: "mstate \<Rightarrow> nat \<Rightarrow> nat \<Rightarrow> u64 \<Rightarrow> bool" where
  "page_mapped st t a d \<longleftrightarrow> (\<exists>ph. frame_run (pool (pg st)) ph 1 d \<and>
     (\<forall>off<0x1000. \<exists>f. ux st t (a + off) = Some (unat ph + off, f)))"

definition page_free :: "mstate \<Rightarrow> nat \<Rightarrow> nat \<Rightarrow> bool" where
  "page_free st t a \<longleftrightarrow> (\<forall>off<0x1000. ux st t (a + off) = None)"

definition dpages :: "mstate \<Rightarrow> nat \<Rightarrow> u64 set" where
  "dpages st t = {d. \<exists>a. user_page a \<and> page_mapped st t a d}"

definition in_vmas :: "mstate \<Rightarrow> nat \<Rightarrow> nat \<Rightarrow> bool" where
  "in_vmas st t x \<longleftrightarrow> (\<exists>v \<in> set (vmas_of st t). x \<in> vma_range v)"

definition aspace :: "mstate \<Rightarrow> nat \<Rightarrow> bool" where
  "aspace st t \<longleftrightarrow> tree root_paging (pg st) (table_of st t) \<and> areas_direct (pool (pg st)) \<and> vmas_ok (vmas_of st t) \<and>
     (\<forall>a. user_page a \<longrightarrow> page_free st t a \<or> (\<exists>d. page_mapped st t a d)) \<and>
     (\<forall>a b d. user_page a \<longrightarrow> user_page b \<longrightarrow> page_mapped st t a d \<longrightarrow> page_mapped st t b d \<longrightarrow> a = b) \<and>
     dpages st t \<subseteq> others root_paging (pg st) (table_of st t) \<and>
     (\<forall>x<unat USER_END. ux st t x \<noteq> None \<longrightarrow> in_vmas st t x) \<and>
     (\<forall>v \<in> set (vmas_of st t). \<forall>x \<in> vma_range v.
        if is_lazy v then fn root_paging (pg st) (table_of st t) x else ux st t x \<noteq> None)"

text \<open>
  The pages in use that are neither tables nor memory of the process, and with them the
  addresses that are no page of memory at all: what an operation for the process must not
  touch.
\<close>

definition foreign :: "mstate \<Rightarrow> nat \<Rightarrow> u64 set" where
  "foreign st t = others root_paging (pg st) (table_of st t) - dpages st t"

definition apart :: "mstate \<Rightarrow> nat \<Rightarrow> nat \<Rightarrow> bool" where
  "apart st t x \<longleftrightarrow> (let q = of_nat (x - x mod 0x1000) in q \<in> foreign st t \<or> find_area (pool (pg st)) q = None)"

definition confined :: "nat \<Rightarrow> mstate \<Rightarrow> mstate \<Rightarrow> bool" where
  "confined t st st' \<longleftrightarrow> map geom (pool (pg st')) = map geom (pool (pg st)) \<and> table_of st' t = table_of st t \<and>
     foreign st t \<subseteq> foreign st' t \<and> (\<forall>a \<in> foreign st t. tables (pg st') a = tables (pg st) a) \<and>
     (\<forall>x. apart st t x \<longrightarrow> ram st' x = ram st x) \<and> (\<forall>u. u \<noteq> t \<longrightarrow> procs st' u = procs st u) \<and>
     (\<forall>x. unat USER_END \<le> x mod 2 ^ 39 \<longrightarrow> ux st' t x = ux st t x)"

lemma confined_refl [simp]: "confined t st st"
  by (simp add: confined_def)

lemma apart_mono:
  assumes "confined t st st'" and "apart st t x"
  shows "apart st' t x"
  using assms find_area_geom [of "pool (pg st')" "pool (pg st)"] unfolding confined_def apart_def Let_def by auto

lemma confined_trans:
  assumes "confined t st st1" and "confined t st1 st2"
  shows "confined t st st2"
proof -
  have "ram st2 x = ram st x" if "apart st t x" for x
    using that apart_mono [OF assms(1) that] assms by (simp add: confined_def)
  then show ?thesis using assms unfolding confined_def by (auto simp: subset_iff)
qed

lemma confined_p2v: "confined t st st' \<Longrightarrow> p2v (pool (pg st')) = p2v (pool (pg st))"
  by (rule p2v_geom) (simp add: confined_def)

lemma USER_END_val: "unat USER_END = 2 ^ 38"
  by (simp add: USER_END_def)

lemma USER_START_val: "unat USER_START = 0x1000"
  by (simp add: USER_START_def)

lemma aspaceD:
  assumes "aspace st t"
  shows "tree root_paging (pg st) (table_of st t)" "areas_direct (pool (pg st))" "vmas_ok (vmas_of st t)"
    "gfp_ok (pool (pg st))"
    "user_page a \<Longrightarrow> page_free st t a \<or> (\<exists>d. page_mapped st t a d)"
    "user_page a \<Longrightarrow> user_page b \<Longrightarrow> page_mapped st t a d \<Longrightarrow> page_mapped st t b d \<Longrightarrow> a = b"
    "dpages st t \<subseteq> others root_paging (pg st) (table_of st t)"
    "x < unat USER_END \<Longrightarrow> ux st t x \<noteq> None \<Longrightarrow> in_vmas st t x"
    "v \<in> set (vmas_of st t) \<Longrightarrow> x \<in> vma_range v \<Longrightarrow> is_lazy v \<Longrightarrow> fn root_paging (pg st) (table_of st t) x"
    "v \<in> set (vmas_of st t) \<Longrightarrow> x \<in> vma_range v \<Longrightarrow> \<not> is_lazy v \<Longrightarrow> ux st t x \<noteq> None"
proof -
  note A = assms [unfolded aspace_def]
  show T: "tree root_paging (pg st) (table_of st t)" and "areas_direct (pool (pg st))" "vmas_ok (vmas_of st t)"
    "dpages st t \<subseteq> others root_paging (pg st) (table_of st t)" using A by simp_all
  show "gfp_ok (pool (pg st))" using T by (simp add: tree_def)
  show "page_free st t a \<or> (\<exists>d. page_mapped st t a d)" if "user_page a" using A that by simp
  show "a = b" if "user_page a" "user_page b" "page_mapped st t a d" "page_mapped st t b d"
    using A that by (elim conjE) metis
  show "in_vmas st t x" if "x < unat USER_END" "ux st t x \<noteq> None" using A that by (elim conjE) metis
  have i: "\<forall>v \<in> set (vmas_of st t). \<forall>x \<in> vma_range v.
        if is_lazy v then fn root_paging (pg st) (table_of st t) x else ux st t x \<noteq> None" using A by simp
  show "fn root_paging (pg st) (table_of st t) x" if "v \<in> set (vmas_of st t)" "x \<in> vma_range v" "is_lazy v"
    using bspec [OF bspec [OF i that(1)] that(2)] that(3) by simp
  show "ux st t x \<noteq> None" if "v \<in> set (vmas_of st t)" "x \<in> vma_range v" "\<not> is_lazy v"
    using bspec [OF bspec [OF i that(1)] that(2)] that(3) by simp
qed

section \<open>Translating user addresses\<close>

definition page_of :: "nat \<Rightarrow> nat" where
  "page_of x = x - x mod 0x1000"

lemma page_of_user [simp]: "x < unat USER_END \<Longrightarrow> user_page (page_of x)"
  by (simp add: user_page_def page_of_def minus_mod_eq_mult_div)

lemma page_of_split: "x = page_of x + x mod 0x1000"
  by (simp add: page_of_def)

lemma mapped_ux:
  assumes "page_mapped st t (page_of x) d"
  obtains ph f where "frame_run (pool (pg st)) ph 1 d" "ux st t x = Some (unat ph + x mod 0x1000, f)"
proof -
  from assms obtain ph where ph: "frame_run (pool (pg st)) ph 1 d"
    "\<And>off. off < 0x1000 \<Longrightarrow> \<exists>f. ux st t (page_of x + off) = Some (unat ph + off, f)"
    by (auto simp: page_mapped_def)
  from ph(2) [of "x mod 0x1000"] page_of_split [of x] obtain f where "ux st t x = Some (unat ph + x mod 0x1000, f)" by auto
  with ph(1) show thesis by (rule that)
qed

lemma free_ux: "page_free st t (page_of x) \<Longrightarrow> ux st t x = None"
  using page_of_split [of x] unfolding page_free_def by (metis mod_less_divisor zero_less_numeral)

lemma page_mapped_det:
  assumes "gfp_ok (pool (pg st))" and "page_mapped st t a d" and "page_mapped st t a d'"
  shows "d = d'"
proof -
  from assms(2,3) obtain p p' where p: "frame_run (pool (pg st)) p 1 d" "frame_run (pool (pg st)) p' 1 d'"
    and x: "\<exists>f. ux st t a = Some (unat p, f)" "\<exists>f. ux st t a = Some (unat p', f)"
    unfolding page_mapped_def by (metis add.right_neutral zero_less_numeral)
  then have "unat p = unat p'" by auto
  then have "p = p'" by (rule unsigned_word_eqI)
  then show ?thesis using fp.run_virt [OF assms(1) p(1), of 0] fp.run_virt [OF assms(1) p(2), of 0] by simp
qed

lemma user_to_direct_mapped:
  assumes A: "aspace st t" and x: "unat s < unat USER_END" and m: "page_mapped st t (page_of (unat s)) d"
  shows "user_to_direct (table_of st t) s st = Ok (d + of_nat (unat s mod 0x1000))"
    and "d + of_nat (unat s mod 0x1000) \<noteq> 0" and "unat (d + of_nat (unat s mod 0x1000)) = unat d + unat s mod 0x1000"
    and "unat d mod 0x1000 = 0"
proof -
  from mapped_ux [OF m] obtain ph f where p: "frame_run (pool (pg st)) ph 1 d"
    "ux st t (unat s) = Some (unat ph + unat s mod 0x1000, f)" by blast
  let ?o = "unat s mod 0x1000"
  have o: "?o < 0x1000" by simp
  have b: "unat ph + 0x1000 \<le> 2 ^ 56" "unat d mod 0x1000 = 0" "unat d + 0x1000 < 2 ^ 64" "d \<noteq> 0"
    using fp.run_bound [OF aspaceD(4,2) [OF A] p(1)] by auto
  have g: "paging_get_phys (pg st) (table_of st t) s = Ok (of_nat (unat ph + ?o))"
    using get_phys_tree [OF aspaceD(1) [OF A], of s] p(2) by (simp add: found_def)
  have "unat (of_nat (unat ph + ?o) :: u64) = unat ph + ?o"
    by (rule unat_of_nat_small) (use b(1) o in simp)
  then have ni: "(of_nat (unat ph + ?o) :: u64) \<noteq> INVALID_PHYS_ADDR" using b(1) o unat_INVALID by fastforce
  have "p2v (pool (pg st)) (of_nat (unat ph + ?o)) = Ok (d + of_nat ?o)"
    using fp.run_virt [OF aspaceD(4) [OF A] p(1), of ?o] o by simp
  then show "user_to_direct (table_of st t) s st = Ok (d + of_nat ?o)" using g ni by (simp add: user_to_direct_def)
  have "unat (of_nat ?o :: u64) = ?o" by (rule unat_of_nat_small) (use o in simp)
  then show u: "unat (d + of_nat ?o) = unat d + ?o"
    using b(3) o by (simp add: unat_word_ariths(1))
  show "d + of_nat ?o \<noteq> 0" using u b(4) by (metis add_is_0 unat_0 unat_eq_zero)
  show "unat d mod 0x1000 = 0" by (rule b(2))
qed

lemma user_to_direct_free:
  assumes "aspace st t" and "ux st t (unat s) = None"
  shows "user_to_direct (table_of st t) s st = Ok 0"
  using get_phys_tree [OF aspaceD(1) [OF assms(1)], of s] assms(2) by (simp add: user_to_direct_def found_def)

section \<open>Changing the mapping\<close>

lemma page_mapped_cong:
  assumes "map geom (pool (pg st')) = map geom (pool (pg st))" and "\<And>off. off < 0x1000 \<Longrightarrow> ux st' t (a + off) = ux st t (a + off)"
  shows "page_mapped st' t a d = page_mapped st t a d" and "page_free st' t a = page_free st t a"
  using frame_run_geom(1) [OF assms(1)] assms(2) by (simp_all add: page_mapped_def page_free_def)

lemma page_free_not_mapped: "page_free st t a \<Longrightarrow> \<not> page_mapped st t a d"
  unfolding page_free_def page_mapped_def using zero_less_numeral by fastforce

text \<open>
  The pages in \<open>C\<close> change: each loses its translation or gets a frame of \<open>N\<close> that was not
  in use. The other pages keep theirs, and their frames stay in use.
\<close>

lemma aspace_update:
  assumes A: "aspace st t" and tr: "tree root_paging (pg st') (table_of st' t)"
    and geo: "map geom (pool (pg st')) = map geom (pool (pg st))"
    and vm: "vmas_ok (vmas_of st' t)" "\<And>x. x < unat USER_END \<Longrightarrow> ux st' t x \<noteq> None \<Longrightarrow> in_vmas st' t x"
      "\<And>v x. v \<in> set (vmas_of st' t) \<Longrightarrow> x \<in> vma_range v \<Longrightarrow>
         if is_lazy v then fn root_paging (pg st') (table_of st' t) x else ux st' t x \<noteq> None"
    and keep: "\<And>a off. user_page a \<Longrightarrow> a \<notin> C \<Longrightarrow> off < 0x1000 \<Longrightarrow> ux st' t (a + off) = ux st t (a + off)"
    and chg: "\<And>a. user_page a \<Longrightarrow> a \<in> C \<Longrightarrow> page_free st' t a \<or> (\<exists>d \<in> N. page_mapped st' t a d)"
    and inj: "\<And>a b d. a \<in> C \<Longrightarrow> b \<in> C \<Longrightarrow> user_page a \<Longrightarrow> user_page b \<Longrightarrow> page_mapped st' t a d \<Longrightarrow> page_mapped st' t b d \<Longrightarrow> a = b"
    and new: "N \<inter> held (pool (pg st)) = {}" "N \<subseteq> others root_paging (pg st') (table_of st' t)"
    and oth: "\<And>q. q \<in> others root_paging (pg st) (table_of st t) \<Longrightarrow>
      (\<And>a. user_page a \<Longrightarrow> a \<in> C \<Longrightarrow> \<not> page_mapped st t a q) \<Longrightarrow> q \<in> others root_paging (pg st') (table_of st' t)"
  shows "aspace st' t" and "foreign st t \<subseteq> foreign st' t"
proof -
  have same: "page_mapped st' t a d = page_mapped st t a d" "page_free st' t a = page_free st t a"
    if "user_page a" "a \<notin> C" for a d using page_mapped_cong [OF geo keep] that by blast+
  have gN: "gfp_ok (pool (pg st'))" using tr by (simp add: tree_def)
  note det = page_mapped_det [OF gN]
  have inN: "d \<in> N" if "user_page a" "a \<in> C" "page_mapped st' t a d" for a d
    using chg [OF that(1,2)] that(3) det page_free_not_mapped by blast
  have inH: "d \<in> others root_paging (pg st) (table_of st t)" if "user_page a" "page_mapped st t a d" for a d
    using aspaceD(7) [OF A] that unfolding dpages_def by blast
  have notN: "d \<notin> N" if "user_page a" "page_mapped st t a d" for a d
    using inH [OF that] new(1) by (auto simp: others_def)
  have stays: "d \<in> others root_paging (pg st') (table_of st' t)" if "user_page a" "a \<notin> C" "page_mapped st t a d" for a d
  proof (rule oth [OF inH [OF that(1,3)]])
    fix b assume "user_page b" "b \<in> C"
    then show "\<not> page_mapped st t b d" using aspaceD(6) [OF A _ that(1) _ that(3), of b] that(2) by blast
  qed
  have D: "dpages st' t \<subseteq> others root_paging (pg st') (table_of st' t)"
    unfolding dpages_def using stays same inN new(2) by blast
  show "aspace st' t" unfolding aspace_def
  proof (intro conjI allI impI ballI)
    show "page_free st' t a \<or> (\<exists>d. page_mapped st' t a d)" if "user_page a" for a
      using chg [OF that] same [OF that] aspaceD(5) [OF A that] by blast
    show "a = b" if u: "user_page a" "user_page b" and m: "page_mapped st' t a d" "page_mapped st' t b d" for a b d
    proof (cases "a \<in> C \<or> b \<in> C")
      case True
      then have "d \<in> N" using inN u m by blast
      then have "a \<in> C" "b \<in> C" using same u m notN by blast+
      then show ?thesis using inj u m by blast
    next
      case False
      then show ?thesis using same u m aspaceD(6) [OF A u, of d] by blast
    qed
    show "areas_direct (pool (pg st'))" using frame_run_geom(2) [OF geo] aspaceD(2) [OF A] by simp
  qed (use tr vm D in blast)+
  show "foreign st t \<subseteq> foreign st' t"
  proof
    fix q assume q: "q \<in> foreign st t"
    then have o: "q \<in> others root_paging (pg st) (table_of st t)" and nd: "\<And>a. user_page a \<Longrightarrow> \<not> page_mapped st t a q"
      by (auto simp: foreign_def dpages_def)
    have "q \<in> others root_paging (pg st') (table_of st' t)" by (rule oth [OF o]) (use nd in blast)
    moreover have "q \<notin> N" using o new(1) by (auto simp: others_def)
    then have "\<not> page_mapped st' t a q" if "user_page a" for a using inN [OF that] same [OF that] nd [OF that] by blast
    ultimately show "q \<in> foreign st' t" by (auto simp: foreign_def dpages_def)
  qed
qed

section \<open>Faulting in a page\<close>

lemma tree_pool:
  assumes "tree ls st pt" and "gfp_ok as" and "p2v as = p2v (pool st)" and "tabs ls st pt \<subseteq> held as"
  shows "tree ls (st\<lparr>pool := as\<rparr>) pt"
  using assms by (simp add: tree_def)

lemma vma_flags_access:
  assumes "vma_ok v"
  shows "vma_mem_flags (vm_flags v) AND (GRINCH_MEM_R OR GRINCH_MEM_W OR GRINCH_MEM_X) \<noteq> 0"
proof -
  have "vm_flags v AND VMA_FLAG_R \<noteq> 0 \<or> vm_flags v AND VMA_FLAG_W \<noteq> 0 \<or> vm_flags v AND VMA_FLAG_X \<noteq> 0"
    using assms by (auto simp: vma_ok_def bit.conj_disj_distrib)
  then show ?thesis
    by (auto simp: vma_mem_flags_def GRINCH_MEM_R_def GRINCH_MEM_W_def GRINCH_MEM_X_def GRINCH_MEM_U_def)
qed

lemma in_range_page:
  assumes "user_page a" and "user_page b" and "off < 0x1000"
  shows "in_range root_paging a 0x1000 (b + off) \<longleftrightarrow> a = b"
proof -
  have lt: "b + off < 2 ^ 39" "a < 2 ^ 39" using assms by (simp_all add: user_page_def USER_END_val)
  have "a \<le> b + off \<and> b + off < a + 0x1000 \<longleftrightarrow> a = b"
  proof
    assume h: "a \<le> b + off \<and> b + off < a + 0x1000"
    obtain k j where kj: "a = 0x1000 * k" "b = 0x1000 * j" using assms unfolding user_page_def by (auto elim!: dvdE)
    then show "a = b" using h assms(3) by auto
  qed (use assms(3) in auto)
  then show ?thesis using lt by (simp add: in_range_def levels_root(2))
qed

lemma user_addr: "a < unat USER_END \<Longrightarrow> unat (of_nat a :: u64) = a"
  by (rule unat_of_nat_small) (simp add: USER_END_val)

lemma page_end: "user_page a \<Longrightarrow> a + 0x1000 \<le> unat USER_END"
  using slot_below [of "0x1000" "unat USER_END" a] by (simp add: user_page_def USER_END_val)

text \<open>What stays when only pages and tables change.\<close>

definition only_pages :: "mstate \<Rightarrow> mstate \<Rightarrow> bool" where
  "only_pages st st' \<longleftrightarrow> procs st' = procs st \<and> task_locked st' = task_locked st \<and> kmem st' = kmem st \<and>
     kcalls st' = kcalls st \<and> remote st' = remote st"

lemma only_pages_refl [simp]: "only_pages st st"
  by (simp add: only_pages_def)

lemma only_pages_trans: "only_pages st st1 \<Longrightarrow> only_pages st1 st2 \<Longrightarrow> only_pages st st2"
  by (simp add: only_pages_def)

lemma run_1 [simp]: "run v 1 = {v}" "run v (Suc 0) = {v}"
  by (simp_all add: run_def lessThan_Suc)

lemma PAGES_PAGE: "unat (PAGES PAGE_SIZE) = 1"
  by (simp add: unat_PAGES)

lemma aligned_mask: "x AND (PAGE_SIZE - 1) = 0 \<longleftrightarrow> unat x mod 0x1000 = 0"
proof -
  have "PAGE_SIZE - 1 = PAGE_OFFS_MASK" by (simp add: PAGE_OFFS_MASK_mask PAGE_SIZE_val mask_eq_exp_minus_1)
  then show ?thesis using unat_and_offs_mask [of x] by (metis unat_eq_zero)
qed

lemma vma_alloc_page:
  assumes A: "aspace st t" and v: "v \<in> set (vmas_of st t)" "is_lazy v" and a: "user_page a"
    and r: "{a ..< a + 0x1000} \<subseteq> vma_range v" and fr: "page_free st t a"
  shows "\<exists>st' err. vma_alloc_range (table_of st t) v (of_nat a) PAGE_SIZE (unat PAGE_SIZE) st = Ok (st', err) \<and>
    aspace st' t \<and> confined t st st' \<and> only_pages st st' \<and> ram st' = ram st \<and>
    (if err = 0 then \<exists>d. page_mapped st' t a d else page_free st' t a) \<and>
    (\<forall>b off. user_page b \<longrightarrow> b \<noteq> a \<longrightarrow> off < 0x1000 \<longrightarrow> ux st' t (b + off) = ux st t (b + off)) \<and>
    takes 3 err (pool (pg st)) (pool (pg st'))"
proof -
  let ?pt = "table_of st t" and ?R = root_paging and ?u = "of_nat a :: u64"
  have ua: "unat ?u = a" and am: "a mod 0x1000 = 0" using a by (simp_all add: user_addr user_page_def)
  have vok: "vma_ok v" using aspaceD(3) [OF A] v(1) by (simp add: vmas_ok_def list_all_iff)
  have unf: "vma_alloc_range ?pt v ?u PAGE_SIZE (unat PAGE_SIZE) st =
      and_then (phys_pages_alloc (pool (pg st)) 1 (unat PAGE_SIZE)) (\<lambda>(as, err, res).
        let st = set_pool as st
        in case res of
             None \<Rightarrow> Ok (st, err)
           | Some phys \<Rightarrow>
               and_then (map_range (pg st) ?pt ?u phys PAGE_SIZE (vma_mem_flags (vm_flags v))) (\<lambda>(p, err).
                 let st = st\<lparr>pg := p\<rparr>
                 in if err \<noteq> 0 then let (as, _) = phys_free_pages (pool (pg st)) phys 1 in Ok (set_pool as st, err)
                    else Ok (st, 0)))"
    unfolding vma_alloc_range_def PAGES_PAGE using ua am aligned_mask [of ?u] by simp
  from fp.palloc_law [OF aspaceD(4,2) [OF A], of 1]
  consider (none) e where "phys_pages_alloc (pool (pg st)) 1 (unat PAGE_SIZE) = Ok (pool (pg st), e, None)" "e \<noteq> 0"
    | (some) as p d where "phys_pages_alloc (pool (pg st)) 1 (unat PAGE_SIZE) = Ok (as, 0, Some p)" "gfp_ok as" "areas_direct as"
      "frame_run as = frame_run (pool (pg st))" "p2v as = p2v (pool (pg st))" "frame_run (pool (pg st)) p 1 d"
      "d \<notin> held (pool (pg st))" "held as = insert d (held (pool (pg st)))" by auto
  then show ?thesis
  proof cases
    case none
    have "takes 3 e (pool (pg st)) (pool (pg st))" using palloc_left [OF aspaceD(4) [OF A] none(1)] none(2) by (simp add: takes_def)
    then show ?thesis unfolding unf using A fr none by simp
  next
    case some
    have geo1: "map geom as = map geom (pool (pg st))"
      using phys_alloc_law [OF aspaceD(4,2) [OF A], of 1] some(1) by auto
    let ?g1 = "(pg st)\<lparr>pool := as\<rparr>"
    note T = aspaceD(1) [OF A]
    have tb: "tabs ?R ?g1 ?pt = tabs ?R (pg st) ?pt" using some(5) by simp
    have T1: "tree ?R ?g1 ?pt" by (rule tree_pool [OF T some(2,5)]) (use T some(8) in \<open>auto simp: tree_def\<close>)
    have x1: "xl ?R ?g1 ?pt x = ux st t x" "fn ?R ?g1 ?pt x = fn ?R (pg st) ?pt x" for x using some(5) by simp_all
    have o1: "others ?R ?g1 ?pt = insert d (others ?R (pg st) ?pt)"
      using some(7,8) T tb by (auto simp: others_def tree_def)
    have b: "unat p mod 0x1000 = 0" "unat p + 0x1000 \<le> 2 ^ 56"
      using fp.run_bound [OF aspaceD(4,2) [OF A] some(6)] by auto
    have n1: "xl ?R ?g1 ?pt (unat ?u) = None" using fr x1 ua unfolding page_free_def
      by (metis add.right_neutral zero_less_numeral)
    have v2: "unat ?u mod 0x1000 = 0" "unat ?u + 0x1000 \<le> 2 ^ 64" using ua am page_end [OF a] by (simp_all add: USER_END_val)
    from map_page_spec [OF T1 v2 b n1 vma_flags_access [OF vok]] obtain g2 err where
      m: "map_range ?g1 ?pt ?u p PAGE_SIZE (vma_mem_flags (vm_flags v)) = Ok (g2, err)" "upd ?R ?pt UNIV ?g1 g2"
        "map geom (pool g2) = map geom as" "\<And>w. fn ?R (pg st) ?pt w \<Longrightarrow> fn ?R g2 ?pt w"
        "\<And>w. xl ?R g2 ?pt w = (if err = 0 then mapped ?R (unat p) 0x1000 a
           (arch_paging_access_flags (vma_mem_flags (vm_flags v))) (ux st t) w else ux st t w)"
        "takes 2 err as (pool g2)"
      unfolding ua x1 by auto
    have tk: "takes 3 err (pool (pg st)) as'" if "takes 2 err as as'" for as'
      using takes_Suc [OF that _ some(3)] palloc_left [OF aspaceD(4) [OF A] some(1)] by simp
    have T2: "tree ?R g2 ?pt" and o2: "others ?R ?g1 ?pt \<subseteq> others ?R g2 ?pt" and p2: "p2v (pool g2) = p2v (pool (pg st))"
      and t2: "\<And>q. q \<in> others ?R (pg st) ?pt \<Longrightarrow> tables g2 q = tables (pg st) q"
      using m(2) o1 some(5) unfolding upd_def by auto
    have d2: "d \<in> held (pool g2)" "d \<notin> tabs ?R g2 ?pt" using o1 o2 by (auto simp: others_def)
    have geo2: "map geom (pool g2) = map geom (pool (pg st))" using m(3) geo1 by simp
    have fn2: "frame_run (pool g2) p 1 d" using frame_run_geom(1) [OF geo2] some(6) by simp
    have high: "\<not> in_range ?R a 0x1000 x" if "unat USER_END \<le> x mod 2 ^ 39" for x
      using that page_end [OF a] a by (simp add: in_range_def levels_root(2) user_page_def USER_END_val)
    show ?thesis
    proof (cases "err = 0")
      case False
      obtain as3 where f: "phys_free_pages (pool g2) p 1 = (as3, 0)" "gfp_ok as3" "map geom as3 = map geom (pool g2)"
        "held as3 = held (pool g2) - {d}"
        using phys_free_law [OF _ fn2] T2 by (auto simp: tree_def)
      have p3: "p2v as3 = p2v (pool g2)" by (rule p2v_geom [OF f(3)])
      let ?st3 = "st\<lparr>pg := g2\<lparr>pool := as3\<rparr>\<rparr>"
      have T3: "tree ?R (g2\<lparr>pool := as3\<rparr>) ?pt"
        by (rule tree_pool [OF T2 f(2) p3]) (use T2 d2 f(4) in \<open>auto simp: tree_def\<close>)
      have ux3: "ux ?st3 t x = ux st t x" "fn ?R (pg st) ?pt x \<Longrightarrow> fn ?R (pg ?st3) ?pt x" for x
        using m(4,5) False p3 by simp_all
      have oth: "q \<in> others ?R (pg ?st3) ?pt" if "q \<in> others ?R (pg st) ?pt" for q
        using that o1 o2 f(4) some(7) p3 by (auto simp: others_def)
      have geo3: "map geom (pool (pg ?st3)) = map geom (pool (pg st))" using f(3) geo2 by simp
      have "aspace ?st3 t \<and> foreign st t \<subseteq> foreign ?st3 t"
        by (intro conjI aspace_update [OF A, where C = "{}" and N = "{}" and st' = ?st3])
           (use T3 geo3 ux3 oth aspaceD(3,8,9,10) [OF A] in \<open>auto simp: in_vmas_def\<close>)
      moreover from this have "confined t st ?st3"
        using geo3 ux3(1) t2 by (auto simp: confined_def foreign_def)
      moreover have "vma_alloc_range ?pt v ?u PAGE_SIZE (unat PAGE_SIZE) st = Ok (?st3, err)"
        unfolding unf using some(1) m(1) f(1) False by simp
      moreover have "takes 3 err (pool (pg st)) (pool (pg ?st3))"
        by (rule tk) (use m(6) False in \<open>simp add: takes_def\<close>)
      ultimately show ?thesis using False ux3(1) fr by (auto simp: only_pages_def page_free_def)
    next
      case True
      let ?st2 = "st\<lparr>pg := g2\<rparr>" and ?F = "arch_paging_access_flags (vma_mem_flags (vm_flags v))"
      have ux2: "ux ?st2 t x = mapped ?R (unat p) 0x1000 a ?F (ux st t) x" for x using m(5) True by simp
      have new: "ux ?st2 t (a + off) = Some (unat p + off, term_flags (hd ?R) ?F)" if "off < 0x1000" for off
        using in_range_page [OF a a that] that page_end [OF a] unfolding ux2 mapped_def
        by (simp add: levels_root(2) USER_END_val)
      have old: "ux ?st2 t (b + off) = ux st t (b + off)" if "user_page b" "b \<noteq> a" "off < 0x1000" for b off
        using in_range_page [OF a that(1,3)] that(2) unfolding ux2 mapped_def by simp
      have pm: "page_mapped ?st2 t a d" unfolding page_mapped_def using fn2 new by auto
      have inv: "in_vmas ?st2 t x" if "x < unat USER_END" "ux ?st2 t x \<noteq> None" for x
      proof (cases "in_range ?R a 0x1000 x")
        case True
        then have "x \<in> {a ..< a + 0x1000}" using that(1) page_end [OF a] by (simp add: in_range_def levels_root(2) USER_END_val)
        then show ?thesis using r v(1) by (auto simp: in_vmas_def)
      next
        case False
        then show ?thesis using that aspaceD(8) [OF A] unfolding ux2 mapped_def by (simp add: in_vmas_def)
      qed
      have full: "ux ?st2 t x \<noteq> None" if "ux st t x \<noteq> None" for x using that unfolding ux2 mapped_def by simp
      have fine2: "fn ?R g2 ?pt x" if "w \<in> set (vmas_of st t)" "x \<in> vma_range w" "is_lazy w" for w x
        using that aspaceD(9) [OF A] m(4) by blast
      have full2: "\<exists>y z. xl ?R g2 ?pt x = Some (y, z)" if "w \<in> set (vmas_of st t)" "x \<in> vma_range w" "\<not> is_lazy w" for w x
        using full [OF aspaceD(10) [OF A that]] by auto
      have "aspace ?st2 t \<and> foreign st t \<subseteq> foreign ?st2 t"
        by (intro conjI aspace_update [OF A, where C = "{a}" and N = "{d}" and st' = ?st2])
           (use T2 geo2 old pm inv some(7) d2 o1 o2 fine2 full2 aspaceD(3) [OF A] in \<open>auto simp: others_def\<close>)
      moreover from this have "confined t st ?st2"
        using geo2 t2 high ux2 by (auto simp: confined_def foreign_def mapped_def)
      moreover have "vma_alloc_range ?pt v ?u PAGE_SIZE (unat PAGE_SIZE) st = Ok (?st2, 0)"
        unfolding unf using some(1) m(1) True by simp
      moreover have "takes 3 0 (pool (pg st)) (pool (pg ?st2))" using tk [OF m(6)] True by simp
      ultimately show ?thesis using pm old by (auto simp: only_pages_def)
    qed
  qed
qed

section \<open>The contents of user memory\<close>

definition ubyte :: "mstate \<Rightarrow> nat \<Rightarrow> nat \<Rightarrow> u8" where
  "ubyte st t x =
     (case ux st t x of
        None \<Rightarrow> 0
      | Some (ph, _) \<Rightarrow> (case p2v (pool (pg st)) (of_nat ph) of Ok d \<Rightarrow> ram st (unat d) | _ \<Rightarrow> 0))"

definition umem :: "mstate \<Rightarrow> nat \<Rightarrow> nat \<rightharpoonup> u8" where
  "umem st t x = (if in_vmas st t x then Some (ubyte st t x) else None)"

lemma in_vmas_user: "aspace st t \<Longrightarrow> in_vmas st t x \<Longrightarrow> x < unat USER_END"
  using aspaceD(3) [of st t] by (fastforce simp: in_vmas_def vmas_ok_def list_all_iff vma_ok_def vma_range_def)

lemma ubyte_mapped:
  assumes A: "aspace st t" and m: "page_mapped st t (page_of x) d"
  shows "ubyte st t x = ram st (unat d + x mod 0x1000)"
proof -
  from mapped_ux [OF m] obtain ph f where p: "frame_run (pool (pg st)) ph 1 d" "ux st t x = Some (unat ph + x mod 0x1000, f)" by blast
  have o: "x mod 0x1000 < 0x1000" by simp
  have b: "unat d + 0x1000 < 2 ^ 64" using fp.run_bound [OF aspaceD(4,2) [OF A] p(1)] by auto
  have "unat (of_nat (x mod 0x1000) :: u64) = x mod 0x1000" by (rule unat_of_nat_small) (use o in simp)
  then have "unat (d + of_nat (x mod 0x1000)) = unat d + x mod 0x1000" using b o by (simp add: unat_word_ariths(1))
  then show ?thesis
    using p fp.run_virt [OF aspaceD(4) [OF A] p(1), of "x mod 0x1000"] o by (simp add: ubyte_def)
qed

lemma ubyte_free: "ux st t x = None \<Longrightarrow> ubyte st t x = 0"
  by (simp add: ubyte_def)

lemma dpage_not_apart:
  assumes A: "aspace st t" and m: "user_page a" "page_mapped st t a d" and x: "unat d \<le> x" "x < unat d + 0x1000"
  shows "\<not> apart st t x"
proof -
  from m(2) obtain ph where fr: "frame_run (pool (pg st)) ph 1 d" by (auto simp: page_mapped_def)
  have b: "unat d mod 0x1000 = 0" using fp.run_bound [OF aspaceD(4,2) [OF A] fr] by auto
  then have "x - x mod 0x1000 = unat d" using x by (auto elim!: dvdE simp: minus_mod_eq_mult_div)
  moreover obtain i s where "owned_run (pool (pg st)) i s 1" "v_base (pool (pg st) ! i) \<noteq> 0"
    "d = v_base (pool (pg st) ! i) + of_nat s * PAGE_SIZE" using fr unfolding frame_run_def by blast
  then have "find_area (pool (pg st)) d = Some i"
    using find_area_run [OF aspaceD(4) [OF A], of i s] by (simp add: owned_run_def)
  moreover have "d \<notin> foreign st t" using m by (auto simp: foreign_def dpages_def)
  ultimately show ?thesis by (simp add: apart_def)
qed

lemma frames_disjoint:
  assumes A: "aspace st t" and "user_page a" "page_mapped st t a d" "user_page b" "page_mapped st t b e" "a \<noteq> b"
  shows "unat d + 0x1000 \<le> unat e \<or> unat e + 0x1000 \<le> unat d"
proof -
  have "d \<noteq> e" using aspaceD(6) [OF A assms(2,4)] assms(3,5,6) by blast
  then have "unat d \<noteq> unat e" by (metis unsigned_word_eqI)
  moreover have "unat d mod 0x1000 = 0" "unat e mod 0x1000 = 0"
    using assms(3,5) fp.run_bound [OF aspaceD(4,2) [OF A]] unfolding page_mapped_def by blast+
  ultimately show ?thesis by (auto elim!: dvdE)
qed

lemma aspace_ram [simp]:
  "page_mapped (st\<lparr>ram := m\<rparr>) t a d = page_mapped st t a d" "page_free (st\<lparr>ram := m\<rparr>) t a = page_free st t a"
  "aspace (st\<lparr>ram := m\<rparr>) t = aspace st t" "foreign (st\<lparr>ram := m\<rparr>) t = foreign st t"
  "in_vmas (st\<lparr>ram := m\<rparr>) t x = in_vmas st t x"
  by (simp_all add: page_mapped_def page_free_def aspace_def foreign_def dpages_def in_vmas_def)

text \<open>Writing to the frame of a mapped page.\<close>

lemma write_page:
  assumes A: "aspace st t" and m: "user_page a" "page_mapped st t a d"
    and w: "\<And>x. x < unat d \<or> unat d + 0x1000 \<le> x \<Longrightarrow> m' x = ram st x"
  defines "st' \<equiv> st\<lparr>ram := m'\<rparr>"
  shows "aspace st' t" and "confined t st st'" and "only_pages st st'"
    and "ubyte st' t x = (if page_of x = a then m' (unat d + x mod 0x1000) else if x < unat USER_END then ubyte st t x else ubyte st' t x)"
proof -
  show A': "aspace st' t" using A by (simp add: st'_def)
  show "only_pages st st'" by (simp add: st'_def only_pages_def)
  have "m' x = ram st x" if "apart st t x" for x using dpage_not_apart [OF A m] that w by (meson not_le)
  then show "confined t st st'" by (simp add: st'_def confined_def)
  have m': "page_mapped st' t a d" using m by (simp add: st'_def)
  show "ubyte st' t x = (if page_of x = a then m' (unat d + x mod 0x1000) else if x < unat USER_END then ubyte st t x else ubyte st' t x)"
  proof (cases "page_of x = a \<or> \<not> x < unat USER_END")
    case False
    then have u: "user_page (page_of x)" and ne: "page_of x \<noteq> a" by auto
    from aspaceD(5) [OF A u] show ?thesis
    proof (elim disjE exE)
      fix e assume e: "page_mapped st t (page_of x) e"
      then have e': "page_mapped st' t (page_of x) e" by (simp add: st'_def)
      have "x mod 0x1000 < 0x1000" by simp
      then have "unat e + x mod 0x1000 < unat d \<or> unat d + 0x1000 \<le> unat e + x mod 0x1000"
        using frames_disjoint [OF A m u e] ne by linarith
      then have "m' (unat e + x mod 0x1000) = ram st (unat e + x mod 0x1000)" by (rule w)
      then show ?thesis
        using ubyte_mapped [OF A e] ubyte_mapped [OF A' e'] False by (simp add: st'_def)
    next
      assume "page_free st t (page_of x)"
      then have "ux st t x = None" "ux st' t x = None" using free_ux [of st t x] by (simp_all add: st'_def)
      then show ?thesis using False by (simp add: ubyte_free)
    qed
  next
    case True
    then show ?thesis using ubyte_mapped [OF A', of x d] m' by (auto simp: st'_def)
  qed
qed

section \<open>Page faults\<close>

text \<open>A translation that may fault finds a mapped page without changing anything.\<close>

definition utd_ok :: "user_translate \<Rightarrow> nat \<Rightarrow> bool" where
  "utd_ok utd t \<longleftrightarrow> (\<forall>st s d. aspace st t \<longrightarrow> unat s < unat USER_END \<longrightarrow> page_mapped st t (page_of (unat s)) d \<longrightarrow>
     utd s st = Ok (st, d + of_nat (unat s mod 0x1000)))"

lemma utd_ok_fault: "utd_ok (user_to_direct_fault n t) t"
  unfolding utd_ok_def by (cases n) (simp_all add: user_to_direct_mapped)

lemma page_align_down_eq: "page_align_down addr = of_nat (page_of (unat addr))"
proof -
  have "page_align_down addr = addr AND PAGE_MASK" by (simp add: page_align_down_def PAGE_MASK_def PMASK_def)
  then have "unat (page_align_down addr) = page_of (unat addr)"
    by (simp add: unat_and_PAGE_MASK page_of_def minus_mod_eq_mult_div)
  from this [symmetric] show ?thesis by simp
qed

lemma page_of_page [simp]: "user_page a \<Longrightarrow> page_of a = a" "user_page a \<Longrightarrow> a mod 0x1000 = 0"
  by (simp_all add: page_of_def user_page_def)

lemma page_in_vma:
  assumes "vma_ok v" and "x \<in> vma_range v"
  shows "{page_of x ..< page_of x + 0x1000} \<subseteq> vma_range v" and "x < unat USER_END"
proof -
  obtain k n where k: "unat (vm_base v) = 0x1000 * k" "unat (vm_size v) = 0x1000 * n"
    using assms(1) by (auto simp: vma_ok_def elim!: dvdE)
  show "{page_of x ..< page_of x + 0x1000} \<subseteq> vma_range v"
  proof
    fix y assume y: "y \<in> {page_of x ..< page_of x + 0x1000}"
    have "k \<le> x div 0x1000" "x div 0x1000 < k + n"
      using assms(2) k by (auto simp: vma_range_def less_eq_div_iff_mult_less_eq div_less_iff_less_mult mult.commute)
    then show "y \<in> vma_range v" using y k by (auto simp: vma_range_def page_of_def minus_mod_eq_mult_div)
  qed
  show "x < unat USER_END" using assms by (simp add: vma_ok_def vma_range_def)
qed

lemma clear_page:
  assumes A: "aspace st t" and u: "utd_ok utd t" and m: "user_page a" "page_mapped st t a d"
  shows "umemset_with utd (of_nat a) 0 (unat PAGE_SIZE) 0 st =
    Ok (st\<lparr>ram := memset (ram st) (unat d) 0 0x1000\<rparr>, 0x1000)"
proof -
  have ua: "unat (of_nat a :: u64) = a" using m(1) by (simp add: user_addr user_page_def)
  have lt: "a < unat USER_END" using m(1) by (simp add: user_page_def)
  have "utd (of_nat a) st = Ok (st, d)" using u A m ua lt by (auto simp: utd_ok_def)
  moreover have "d \<noteq> 0" "unat d mod 0x1000 = 0" using user_to_direct_mapped(2,4) [OF A, of "of_nat a" d] m ua lt by auto
  ultimately show ?thesis
    by (subst umemset_with.simps) (simp add: page_bytes_left_eq umemset_with.simps [where n = 0])
qed

lemma fault_spec:
  assumes A: "aspace st t" and v: "v \<in> set (vmas_of st t)" "is_lazy v" and x: "unat addr \<in> vma_range v"
    and fr: "page_free st t (page_of (unat addr))" and u: "utd_ok utd t"
  shows "\<exists>st' err. uvma_handle_fault_with utd t v addr st = Ok (st', err) \<and> aspace st' t \<and> confined t st st' \<and>
    only_pages st st' \<and> umem st' t = umem st t \<and>
    (if err = 0 then \<exists>d. page_mapped st' t (page_of (unat addr)) d else page_free st' t (page_of (unat addr))) \<and>
    takes 3 err (pool (pg st)) (pool (pg st'))"
proof -
  let ?a = "page_of (unat addr)"
  have vok: "vma_ok v" using aspaceD(3) [OF A] v(1) by (simp add: vmas_ok_def list_all_iff)
  note pv = page_in_vma [OF vok x]
  then have ua: "user_page ?a" by simp
  from vma_alloc_page [OF A v ua pv(1) fr] obtain st1 err where
    s: "vma_alloc_range (table_of st t) v (of_nat ?a) PAGE_SIZE (unat PAGE_SIZE) st = Ok (st1, err)" "aspace st1 t"
      "confined t st st1" "only_pages st st1" "ram st1 = ram st"
      "if err = 0 then \<exists>d. page_mapped st1 t ?a d else page_free st1 t ?a"
      "\<forall>b off. user_page b \<longrightarrow> b \<noteq> ?a \<longrightarrow> off < 0x1000 \<longrightarrow> ux st1 t (b + off) = ux st t (b + off)"
      "takes 3 err (pool (pg st)) (pool (pg st1))" by (elim exE conjE) (rule that)
  have lz: "vm_flags v AND VMA_FLAG_LAZY \<noteq> 0" using v(2) by (simp add: is_lazy_def)
  note p1 = confined_p2v [OF s(3)]
  have iv: "in_vmas st1 t y = in_vmas st t y" for y using s(4) by (simp add: in_vmas_def only_pages_def)
  have other: "ubyte st1 t y = ubyte st t y" if "page_of y \<noteq> ?a" "y < unat USER_END" for y
  proof -
    have "ux st1 t (page_of y + y mod 0x1000) = ux st t (page_of y + y mod 0x1000)"
      by (rule s(7) [rule_format, OF page_of_user [OF that(2)] that(1)]) simp
    then show ?thesis unfolding page_of_split [of y, symmetric] ubyte_def p1 s(5) by (simp only:)
  qed
  have zero: "ubyte st t y = 0" if "page_of y = ?a" for y using free_ux [of st t y] fr that by (simp add: ubyte_free)
  show ?thesis
  proof (cases "err = 0")
    case True
    then obtain d where d: "page_mapped st1 t ?a d" using s(6) by auto
    let ?m = "memset (ram st1) (unat d) 0 0x1000"
    let ?st2 = "st1\<lparr>ram := ?m\<rparr>"
    have w: "?m y = ram st1 y" if "y < unat d \<or> unat d + 0x1000 \<le> y" for y
      unfolding memset_eq using that by auto
    note wp = write_page [OF s(2) ua d w]
    have r: "uvma_handle_fault_with utd t v addr st = Ok (?st2, 0)"
      unfolding uvma_handle_fault_with_def Let_def page_align_down_eq if_not_P [OF lz] s(1) and_then.simps prod.case
        clear_page [OF s(2) u ua d] using True by simp
    have z: "?m (unat d + y mod 0x1000) = 0" for y unfolding memset_eq by simp
    have "ubyte ?st2 t y = ubyte st t y" if "y < unat USER_END" for y
      using wp(4) [of y] z [of y] that other [of y] zero [of y] by (cases "page_of y = ?a") simp_all
    then have "umem ?st2 t = umem st t"
      using iv in_vmas_user [OF A] by (auto simp: umem_def)
    moreover have "page_mapped ?st2 t ?a d" using d by simp
    moreover have "takes 3 0 (pool (pg st)) (pool (pg ?st2))" using s(8) True by simp
    ultimately show ?thesis
      using r wp(1) confined_trans [OF s(3) wp(2)] only_pages_trans [OF s(4) wp(3)]
      by (intro exI [of _ ?st2] exI [of _ 0]) (simp only: if_P simp_thms, blast)
  next
    case False
    then have f1: "page_free st1 t ?a" using s(6) by simp
    have "ubyte st1 t y = ubyte st t y" if "y < unat USER_END" for y
      using other [of y] zero [of y] that free_ux [of st1 t y] f1 by (cases "page_of y = ?a") (simp_all add: ubyte_free)
    then have "umem st1 t = umem st t" using iv in_vmas_user [OF A] by (auto simp: umem_def)
    moreover have "uvma_handle_fault_with utd t v addr st = Ok (st1, err)"
      unfolding uvma_handle_fault_with_def Let_def page_align_down_eq if_not_P [OF lz] s(1) and_then.simps prod.case
      using False by simp
    ultimately show ?thesis using s(2-4,8) f1 False by (intro exI [of _ st1] exI [of _ err]) simp
  qed
qed

end
