(* ===== verification/User_Access.thy ===== *)
theory User_Access
  imports Address_Space
begin

text \<open>
  Access to user memory from the kernel: on a well-formed address space the copies of
  \<^verbatim>\<open>kernel/uaccess.c\<close> return, fault in what is missing, and read and write exactly the bytes
  of user memory, as long as the addresses are user addresses.
\<close>

section \<open>Translation with faults\<close>

lemma vma_in_range:
  assumes "vma_ok v" and "unat s < unat USER_END"
  shows "s + 1 > vm_base v \<and> s < vm_base v + vm_size v \<longleftrightarrow> unat s \<in> vma_range v"
proof -
  have "unat (s + 1) = unat s + 1" using assms(2) by (simp add: unat_word_ariths(1) USER_END_val)
  moreover have "unat (vm_base v + vm_size v) = unat (vm_base v) + unat (vm_size v)"
    using assms(1) by (simp add: vma_ok_def unat_word_ariths(1) USER_END_val)
  ultimately show ?thesis by (auto simp: vma_range_def word_less_nat_alt)
qed

lemma uvma_at_spec:
  assumes "aspace st t" and "unat s < unat USER_END"
  shows "\<exists>r. uvma_at (procs st t) s = Ok r \<and>
    (case r of None \<Rightarrow> \<not> in_vmas st t (unat s) | Some v \<Rightarrow> v \<in> set (vmas_of st t) \<and> unat s \<in> vma_range v)"
proof -
  have "unat (s + 1) = unat s + 1" using assms(2) by (simp add: unat_word_ariths(1) USER_END_val)
  then have "\<not> s + 1 < s" by (simp add: word_less_nat_alt)
  then have e: "uvma_at (procs st t) s =
      Ok (find (\<lambda>v. s + 1 > vm_base v \<and> s < vm_base v + vm_size v) (vmas_of st t))"
    by (simp add: uvma_at_def uvma_at_range_def)
  have "vma_ok v" if "v \<in> set (vmas_of st t)" for v
    using aspaceD(3) [OF assms(1)] that by (simp add: vmas_ok_def list_all_iff)
  note r = vma_in_range [OF this assms(2)]
  show ?thesis unfolding e
    by (auto simp: in_vmas_def find_None_iff find_Some_iff r split: option.split)
       (use r nth_mem in blast)+
qed

lemma utd_spec:
  assumes A: "aspace st t" and s: "unat s < unat USER_END"
  shows "\<exists>st' r. user_to_direct_fault FAULT_NEST t s st = Ok (st', r) \<and> aspace st' t \<and> confined t st st' \<and>
    only_pages st st' \<and> umem st' t = umem st t \<and>
    (if r = 0 then ux st' t (unat s) = None
     else \<exists>d. page_mapped st' t (page_of (unat s)) d \<and> r = d + of_nat (unat s mod 0x1000)) \<and>
    (if r = 0 then in_vmas st t (unat s) \<longrightarrow> frames_left (pool (pg st)) < 3
     else frames_left (pool (pg st)) \<le> frames_left (pool (pg st')) + 3)"
  using aspaceD(5) [OF A page_of_user [OF s]]
proof (elim disjE exE)
  fix d assume d: "page_mapped st t (page_of (unat s)) d"
  have "user_to_direct_fault FAULT_NEST t s st = Ok (st, d + of_nat (unat s mod 0x1000))"
    using utd_ok_fault A s d unfolding utd_ok_def by blast
  then show ?thesis using A d user_to_direct_mapped(2) [OF A s d] by auto
next
  assume fr: "page_free st t (page_of (unat s))"
  note n = free_ux [OF fr]
  note z = user_to_direct_free [OF A n]
  from uvma_at_spec [OF A s] obtain r where r: "uvma_at (procs st t) s = Ok r"
    "case r of None \<Rightarrow> \<not> in_vmas st t (unat s) | Some v \<Rightarrow> v \<in> set (vmas_of st t) \<and> unat s \<in> vma_range v" by blast
  show ?thesis
  proof (cases r)
    case None
    then have "user_to_direct_fault FAULT_NEST t s st = Ok (st, 0)"
      using r(1) z by (simp add: FAULT_NEST_def process_handle_fault_with_def)
    then show ?thesis using A n r(2) None by simp
  next
    case (Some v)
    then have v: "v \<in> set (vmas_of st t)" "unat s \<in> vma_range v" using r(2) by simp_all
    have lz: "is_lazy v" using aspaceD(10) [OF A v] n by blast
    from fault_spec [OF A v(1) lz v(2) fr utd_ok_fault [of 0]] obtain st' err where
      f: "uvma_handle_fault_with (user_to_direct_fault 0 t) t v s st = Ok (st', err)" "aspace st' t" "confined t st st'"
        "only_pages st st'" "umem st' t = umem st t"
        "if err = 0 then \<exists>d. page_mapped st' t (page_of (unat s)) d else page_free st' t (page_of (unat s))"
        "takes 3 err (pool (pg st)) (pool (pg st'))"
      by (elim exE conjE) (rule that)
    have tk: "if err = 0 then frames_left (pool (pg st)) \<le> frames_left (pool (pg st')) + 3 else frames_left (pool (pg st)) < 3"
      using f(7) aspaceD(2) [OF A] by (simp add: takes_def)
    have u: "user_to_direct_fault FAULT_NEST t s st =
        (if err \<noteq> 0 then Ok (st', 0) else and_then (user_to_direct (table_of st' t) s st') (\<lambda>ret. Ok (st', ret)))"
      using r(1) Some z f(1) by (simp add: FAULT_NEST_def process_handle_fault_with_def del: user_to_direct_fault.simps(1))
    show ?thesis
    proof (cases "err = 0")
      case True
      then obtain d where d: "page_mapped st' t (page_of (unat s)) d" using f(6) by auto
      note m = user_to_direct_mapped(1,2) [OF f(2) s d]
      show ?thesis using u True m d f(2-5) tk by auto
    next
      case False
      then show ?thesis using u f(2-6) tk free_ux [of st' t "unat s"] by auto
    qed
  qed
qed

section \<open>Copying to user memory\<close>

definition overwritten :: "(nat \<rightharpoonup> u8) \<Rightarrow> nat \<Rightarrow> nat \<Rightarrow> (nat \<Rightarrow> u8) \<Rightarrow> nat \<rightharpoonup> u8" where
  "overwritten u x k b = (\<lambda>y. if x \<le> y \<and> y < x + k then Some (b (y - x)) else u y)"

lemma overwritten_0 [simp]: "overwritten u x 0 b = u"
  by (rule ext) (auto simp: overwritten_def)

lemma overwritten_cong: "(\<And>i. i < k \<Longrightarrow> b i = c i) \<Longrightarrow> overwritten u x k b = overwritten u x k c"
  by (rule ext) (auto simp: overwritten_def)

lemma overwritten_add:
  "overwritten (overwritten u x w b) (x + w) k (\<lambda>i. b (w + i)) = overwritten u x (w + k) b"
  by (rule ext) (auto simp: overwritten_def)

lemma page_part:
  assumes "w \<le> 0x1000 - x mod 0x1000"
  shows "x \<le> y \<and> y < x + w \<longleftrightarrow> page_of y = page_of x \<and> x mod 0x1000 \<le> y mod 0x1000 \<and> y mod 0x1000 < x mod 0x1000 + w"
proof -
  have x: "x = page_of x + x mod 0x1000" and y: "y = page_of y + y mod 0x1000" by (rule page_of_split)+
  have l: "x mod 0x1000 < 0x1000" "y mod 0x1000 < 0x1000" by simp_all
  show ?thesis
  proof
    assume h: "x \<le> y \<and> y < x + w"
    then have "page_of x \<le> y" "y < page_of x + 0x1000" using assms x l by linarith+
    moreover obtain k j where "page_of x = 0x1000 * k" "page_of y = 0x1000 * j"
      by (simp add: page_of_def minus_mod_eq_mult_div)
    ultimately have "page_of y = page_of x" using y l by auto
    then show "page_of y = page_of x \<and> x mod 0x1000 \<le> y mod 0x1000 \<and> y mod 0x1000 < x mod 0x1000 + w"
      using h x y by linarith
  next
    assume "page_of y = page_of x \<and> x mod 0x1000 \<le> y mod 0x1000 \<and> y mod 0x1000 < x mod 0x1000 + w"
    then show "x \<le> y \<and> y < x + w" using x y by linarith
  qed
qed

text \<open>One round of the loop: the part of the buffer up to the end of the page.\<close>

lemma write_part:
  assumes A: "aspace st t" and x: "x < unat USER_END" and m: "page_mapped st t (page_of x) d"
    and w: "w \<le> 0x1000 - x mod 0x1000" and src: "\<And>i. i < w \<Longrightarrow> apart st t (s + i)"
  defines "st' \<equiv> st\<lparr>ram := memcpy (ram st) (unat d + x mod 0x1000) s w\<rparr>"
  shows "aspace st' t" and "confined t st st'" and "only_pages st st'"
    and "umem st' t = overwritten (umem st t) x w (\<lambda>i. ram st (s + i))"
proof -
  let ?o = "x mod 0x1000" and ?a = "page_of x"
  let ?m = "memcpy (ram st) (unat d + ?o) s w"
  have ua: "user_page ?a" using x by simp
  have o: "?o < 0x1000" by simp
  have "unat d + ?o \<le> s \<or> s + w \<le> unat d + ?o"
  proof (rule ccontr)
    assume "\<not> ?thesis"
    then have "s < unat d + ?o" "unat d + ?o - s < w" by auto
    moreover have "\<not> apart st t (unat d + ?o)" by (rule dpage_not_apart [OF A ua m]) (use o in simp_all)
    ultimately show False using src [of "unat d + ?o - s"] by simp
  qed
  then have mc: "?m = copied (ram st) (unat d + ?o) s w" by (rule memcpy_copied)
  have keep: "?m y = ram st y" if "y < unat d \<or> unat d + 0x1000 \<le> y" for y
    unfolding mc copied_def using that w by auto
  note wp = write_page [OF A ua m keep, folded st'_def]
  show "aspace st' t" by (rule wp(1))
  show "confined t st st'" by (rule wp(2))
  show "only_pages st st'" by (rule wp(3))
  have iv: "in_vmas st' t y = in_vmas st t y" for y by (simp add: st'_def)
  have "umem st' t y = overwritten (umem st t) x w (\<lambda>i. ram st (s + i)) y" for y
  proof (cases "page_of y = ?a")
    case True
    have yu: "y < unat USER_END" using page_end [OF ua] True page_of_split [of y] mod_less_divisor [of "0x1000" y] by linarith
    have "ux st t y \<noteq> None" by (rule mapped_ux [OF m [folded True]]) simp
    then have y: "in_vmas st t y" using aspaceD(8) [OF A yu] by blast
    have my: "page_mapped st t (page_of y) d" using m True by simp
    have u: "ubyte st' t y = ?m (unat d + y mod 0x1000)" using wp(4) [of y] True by simp
    note u0 = ubyte_mapped [OF A my]
    have c: "?m (unat d + y mod 0x1000) =
        (if ?o \<le> y mod 0x1000 \<and> y mod 0x1000 < ?o + w then ram st (s + (y mod 0x1000 - ?o)) else ram st (unat d + y mod 0x1000))"
      unfolding mc copied_def by (simp add: add.assoc)
    have d: "y - x = y mod 0x1000 - ?o" using True page_of_split [of y] page_of_split [of x] by linarith
    show ?thesis using page_part [OF w, of y] True u u0 c d y iv by (auto simp: umem_def overwritten_def)
  next
    case False
    then have "\<not> (x \<le> y \<and> y < x + w)" using page_part [OF w, of y] by blast
    then show ?thesis using wp(4) [of y] False iv in_vmas_user [OF A, of y] by (auto simp: umem_def overwritten_def)
  qed
  then show "umem st' t = overwritten (umem st t) x w (\<lambda>i. ram st (s + i))" by blast
qed

lemma direct_left:
  fixes s :: u64
  assumes A: "aspace st t" and x: "unat s < unat USER_END" and m: "page_mapped st t (page_of (unat s)) d"
  shows "unat (page_bytes_left (d + of_nat (unat s mod 0x1000))) = 0x1000 - unat s mod 0x1000"
proof -
  note u = user_to_direct_mapped(3,4) [OF A x m]
  have "(unat d + unat s mod 0x1000) mod 0x1000 = unat s mod 0x1000" using u(2) by (simp add: mod_add_left_eq [symmetric])
  then show ?thesis by (simp only: page_bytes_left_eq u(1))
qed

text \<open>The pages a copy of \<open>n\<close> bytes at \<open>x\<close> touches.\<close>

definition pages_touched :: "nat \<Rightarrow> nat \<Rightarrow> nat" where
  "pages_touched x n = (if n = 0 then 0 else (x mod 0x1000 + n + 0xfff) div 0x1000)"

lemma pages_touched_step:
  assumes "0 < n" and w: "w = min n (0x1000 - x mod 0x1000)"
  shows "pages_touched (x + w) (n - w) + 1 \<le> pages_touched x n"
proof (cases "n \<le> 0x1000 - x mod 0x1000")
  case True
  then have "w = n" using w by simp
  moreover have "1 \<le> (x mod 0x1000 + n + 0xfff) div 0x1000" using assms(1) by (simp add: less_eq_div_iff_mult_less_eq)
  ultimately show ?thesis using assms(1) by (simp add: pages_touched_def)
next
  case False
  have l: "x mod 0x1000 < 0x1000" by simp
  have w': "w = 0x1000 - x mod 0x1000" using False w by simp
  then have "x mod 0x1000 + w = 0x1000" using l by simp
  then have "x + w = 0x1000 * (x div 0x1000) + 0x1000" using mult_div_mod_eq [of "0x1000" x] by linarith
  then have "(x + w) mod 0x1000 = 0" by simp
  moreover have "w < n" using False w' by linarith
  ultimately have 1: "pages_touched (x + w) (n - w) = (n - w + 0xfff) div 0x1000" by (simp only: pages_touched_def) simp
  have "x mod 0x1000 + n + 0xfff = (n - w + 0xfff) + 0x1000" using w' False l by linarith
  then have "pages_touched x n = ((n - w + 0xfff) + 0x1000) div 0x1000" using assms(1) by (simp only: pages_touched_def) simp
  also have "\<dots> = (n - w + 0xfff) div 0x1000 + 1" by (rule div_add_self2) simp
  finally show ?thesis using 1 by simp
qed

lemma copy_to_user_spec:
  assumes "aspace st t" and "unat d + n \<le> unat USER_END" and "\<And>i. i < n \<Longrightarrow> apart st t (s + i)"
  shows "\<exists>st' k. copy_to_user_loop t d s n ret st = Ok (st', ret + k) \<and> k \<le> n \<and> aspace st' t \<and> confined t st st' \<and>
    only_pages st st' \<and> umem st' t = overwritten (umem st t) (unat d) k (\<lambda>i. ram st (s + i)) \<and>
    (k < n \<longrightarrow> ux st' t (unat d + k) = None) \<and>
    (k < n \<longrightarrow> 3 * pages_touched (unat d) n \<le> frames_left (pool (pg st)) \<longrightarrow> \<not> in_vmas st t (unat d + k))"
  using assms
proof (induction n arbitrary: d s ret st rule: less_induct)
  case (less n)
  show ?case
  proof (cases "n = 0")
    case False
    then have du: "unat d < unat USER_END" using less.prems(2) by simp
    from utd_spec [OF less.prems(1) du] obtain st1 r where
      f: "user_to_direct_fault FAULT_NEST t d st = Ok (st1, r)" "aspace st1 t" "confined t st st1" "only_pages st st1"
        "umem st1 t = umem st t"
        "if r = 0 then ux st1 t (unat d) = None else \<exists>e. page_mapped st1 t (page_of (unat d)) e \<and> r = e + of_nat (unat d mod 0x1000)"
        "if r = 0 then in_vmas st t (unat d) \<longrightarrow> frames_left (pool (pg st)) < 3
         else frames_left (pool (pg st)) \<le> frames_left (pool (pg st1)) + 3"
      by (elim exE conjE) (rule that)
    have pt: "pages_touched (unat d + min n (0x1000 - unat d mod 0x1000)) (n - min n (0x1000 - unat d mod 0x1000)) + 1
        \<le> pages_touched (unat d) n"
      by (rule pages_touched_step) (use False in simp_all)
    show ?thesis
    proof (cases "r = 0")
      case True
      then have "copy_to_user_loop t d s n ret st = Ok (st1, ret + 0)"
        using f(1) False by (subst copy_to_user_loop.simps) simp
      then show ?thesis using True f(2-7) pt by (intro exI [of _ st1] exI [of _ 0]) auto
    next
      case r: False
      then obtain e where e: "page_mapped st1 t (page_of (unat d)) e" "r = e + of_nat (unat d mod 0x1000)" using f(6) by auto
      define w where "w = min n (0x1000 - unat d mod 0x1000)"
      have w: "w \<le> 0x1000 - unat d mod 0x1000" "w \<le> n" "0 < w" using False by (simp_all add: w_def)
      let ?st2 = "st1\<lparr>ram := memcpy (ram st1) (unat e + unat d mod 0x1000) s w\<rparr>"
      have ap1: "apart st1 t (s + i)" if "i < w" for i
        by (rule apart_mono [OF f(3) less.prems(3)]) (use that w(2) in linarith)
      have wp: "aspace ?st2 t" "confined t st1 ?st2" "only_pages st1 ?st2"
        "umem ?st2 t = overwritten (umem st1 t) (unat d) w (\<lambda>i. ram st1 (s + i))"
        by (rule write_part [OF f(2) du e(1) w(1)], erule ap1)+
      have c2: "confined t st ?st2" by (rule confined_trans [OF f(3) wp(2)])
      have ud: "unat (d + of_nat w) = unat d + w"
        using less.prems(2) w(2) by (simp add: unat_word_ariths(1) unat_of_nat take_bit_nat_eq_self USER_END_val)
      have n2: "n - w < n" using w by simp
      have b2: "unat (d + of_nat w) + (n - w) \<le> unat USER_END" using ud less.prems(2) w(2) by simp
      have a2: "apart ?st2 t (s + w + i)" if "i < n - w" for i
        using apart_mono [OF c2 less.prems(3), of "w + i"] that by (simp add: add.assoc)
      note ih = less.IH [OF n2 wp(1) b2, of "s + w" "ret + w"]
      have "\<exists>st' k. copy_to_user_loop t (d + of_nat w) (s + w) (n - w) (ret + w) ?st2 = Ok (st', ret + w + k) \<and> k \<le> n - w \<and>
          aspace st' t \<and> confined t ?st2 st' \<and> only_pages ?st2 st' \<and>
          umem st' t = overwritten (umem ?st2 t) (unat d + w) k (\<lambda>i. ram ?st2 (s + w + i)) \<and>
          (k < n - w \<longrightarrow> ux st' t (unat d + w + k) = None) \<and>
          (k < n - w \<longrightarrow> 3 * pages_touched (unat d + w) (n - w) \<le> frames_left (pool (pg ?st2)) \<longrightarrow>
            \<not> in_vmas ?st2 t (unat d + w + k))"
        unfolding ud [symmetric] by (rule ih) (use a2 in blast)+
      then obtain st' k where
        h: "copy_to_user_loop t (d + of_nat w) (s + w) (n - w) (ret + w) ?st2 = Ok (st', ret + w + k)" "k \<le> n - w" "aspace st' t"
          "confined t ?st2 st'" "only_pages ?st2 st'"
          "umem st' t = overwritten (umem ?st2 t) (unat d + w) k (\<lambda>i. ram ?st2 (s + w + i))"
          "k < n - w \<longrightarrow> ux st' t (unat d + w + k) = None"
          "k < n - w \<longrightarrow> 3 * pages_touched (unat d + w) (n - w) \<le> frames_left (pool (pg ?st2)) \<longrightarrow>
            \<not> in_vmas ?st2 t (unat d + w + k)"
        by (elim exE conjE) (rule that)
      have ur: "unat r = unat e + unat d mod 0x1000" and left: "unat (page_bytes_left r) = 0x1000 - unat d mod 0x1000"
        using user_to_direct_mapped(3) [OF f(2) du e(1)] direct_left [OF f(2) du e(1)] e(2) by simp_all
      have st: "copy_to_user_loop t d s n ret st = Ok (st', ret + (w + k))"
        using f(1) False r h(1) unfolding copy_to_user_loop.simps [of t d s n ret st]
        by (simp add: left ur w_def [symmetric] Let_def add.assoc)
      have rs: "ram st1 (s + i) = ram st (s + i)" if "i < n" for i
        using f(3) less.prems(3) [OF that] by (simp add: confined_def)
      have r2: "ram ?st2 (s + i) = ram st (s + i)" if "i < n" for i
        using c2 less.prems(3) [OF that] by (simp add: confined_def)
      have "umem st' t = overwritten (umem st t) (unat d) (w + k) (\<lambda>i. ram st (s + i))"
      proof -
        have 1: "umem ?st2 t = overwritten (umem st t) (unat d) w (\<lambda>i. ram st (s + i))"
          unfolding wp(4) f(5) by (rule overwritten_cong, rule rs) (use w(2) in linarith)
        have 2: "ram ?st2 (s + w + i) = ram st (s + (w + i))" if "i < k" for i
          using r2 [of "w + i"] that h(2) by (simp add: add.assoc)
        show ?thesis unfolding h(6) overwritten_add [symmetric] 1 by (rule overwritten_cong) (rule 2)
      qed
      moreover have "\<not> in_vmas st t (unat d + (w + k))"
        if "w + k < n" "3 * pages_touched (unat d) n \<le> frames_left (pool (pg st))"
      proof -
        have "3 * pages_touched (unat d + w) (n - w) \<le> frames_left (pool (pg ?st2))"
          using that(2) pt f(7) r by (simp add: w_def)
        then have "\<not> in_vmas ?st2 t (unat d + (w + k))" using h(8) that(1) by (simp add: add.assoc)
        then show ?thesis using f(4) by (simp add: in_vmas_def only_pages_def)
      qed
      ultimately show ?thesis
        using st h(2-5,7) w(2) confined_trans [OF c2 h(4)] only_pages_trans [OF only_pages_trans [OF f(4) wp(3)] h(5)]
        by (intro exI [of _ st'] exI [of _ "w + k"]) (auto simp: add.assoc)
    qed
  qed (use less.prems in \<open>simp add: copy_to_user_loop.simps\<close>)
qed

section \<open>Copying from user memory\<close>

definition zero_page_ok :: "u64 \<Rightarrow> mstate \<Rightarrow> bool" where
  "zero_page_ok zp st \<longleftrightarrow> zp \<noteq> 0 \<and> unat zp mod 0x1000 = 0 \<and> unat zp + 0x1000 < 2 ^ 64 \<and> (\<forall>i<0x1000. ram st (unat zp + i) = 0)"

definition zero_page_addr :: "u64 \<Rightarrow> nat \<Rightarrow> bool" where
  "zero_page_addr zp x \<longleftrightarrow> unat zp \<le> x \<and> x < unat zp + 0x1000"

lemma apart_ram [simp]: "apart (st\<lparr>ram := m\<rparr>) t x = apart st t x"
  by (simp add: apart_def)

lemma ubyte_ram:
  assumes A: "aspace st t" and x: "x < unat USER_END" and m: "\<And>a. \<not> apart st t a \<Longrightarrow> m a = ram st a"
  shows "ubyte (st\<lparr>ram := m\<rparr>) t x = ubyte st t x"
  using aspaceD(5) [OF A page_of_user [OF x]]
proof (elim disjE exE)
  fix d assume d: "page_mapped st t (page_of x) d"
  have A': "aspace (st\<lparr>ram := m\<rparr>) t" and d': "page_mapped (st\<lparr>ram := m\<rparr>) t (page_of x) d" using A d by simp_all
  have "\<not> apart st t (unat d + x mod 0x1000)" by (rule dpage_not_apart [OF A page_of_user [OF x] d]) simp_all
  then show ?thesis using ubyte_mapped [OF A d] ubyte_mapped [OF A' d'] m by simp
next
  assume "page_free st t (page_of x)"
  then show ?thesis using free_ux [of st t x] by (simp add: ubyte_def)
qed

lemma page_next:
  assumes "i < 0x1000 - x mod 0x1000"
  shows "page_of (x + i) = page_of x" and "(x + i) mod 0x1000 = x mod 0x1000 + i"
proof -
  have "x \<le> x + i \<and> x + i < x + Suc i" "Suc i \<le> 0x1000 - x mod 0x1000" using assms by simp_all
  then show p: "page_of (x + i) = page_of x" using page_part [of "Suc i" x "x + i"] by blast
  show "(x + i) mod 0x1000 = x mod 0x1000 + i" using p page_of_split [of x] page_of_split [of "x + i"] by linarith
qed

lemma null_spec:
  assumes A: "aspace st t" and s: "unat s < unat USER_END" and z: "zero_page_ok zp st"
  defines "left \<equiv> 0x1000 - unat s mod 0x1000"
  shows "\<exists>r. user_to_direct_null zp t s st = Ok r \<and>
    (if r = 0 then \<not> in_vmas st t (unat s)
     else unat (page_bytes_left r) = left \<and>
       (\<forall>i<left. in_vmas st t (unat s + i) \<and> ram st (unat r + i) = ubyte st t (unat s + i) \<and>
          (\<not> apart st t (unat r + i) \<or> zero_page_addr zp (unat r + i))))"
  using aspaceD(5) [OF A page_of_user [OF s]]
proof (elim disjE exE)
  fix d assume d: "page_mapped st t (page_of (unat s)) d"
  let ?r = "d + of_nat (unat s mod 0x1000)"
  note u = user_to_direct_mapped [OF A s d]
  have "in_vmas st t (unat s + i) \<and> ram st (unat ?r + i) = ubyte st t (unat s + i) \<and> \<not> apart st t (unat ?r + i)"
    if i: "i < left" for i
  proof -
    note pn = page_next [OF i [unfolded left_def]]
    have d': "page_mapped st t (page_of (unat s + i)) d" using d pn by simp
    have lt: "unat s mod 0x1000 + i < 0x1000" using i by (simp add: left_def)
    have su: "unat s + i < unat USER_END"
      using page_end [OF page_of_user [OF s]] page_of_split [of "unat s"] lt by linarith
    have "ux st t (unat s + i) \<noteq> None" by (rule mapped_ux [OF d']) simp
    then have "in_vmas st t (unat s + i)" by (rule aspaceD(8) [OF A su])
    moreover have "\<not> apart st t (unat ?r + i)"
      by (rule dpage_not_apart [OF A page_of_user [OF s] d]) (use u(3) lt in simp_all)
    ultimately show ?thesis using ubyte_mapped [OF A d'] u(3) pn(2) by (simp add: add.assoc)
  qed
  then show ?thesis
    using u(1,2) direct_left [OF A s d] unfolding left_def by (intro exI [of _ ?r]) (simp add: user_to_direct_null_def)
next
  assume fr: "page_free st t (page_of (unat s))"
  note n = free_ux [OF fr]
  note zr = user_to_direct_free [OF A n]
  from uvma_at_spec [OF A s] obtain r where r: "uvma_at (procs st t) s = Ok r"
    "case r of None \<Rightarrow> \<not> in_vmas st t (unat s) | Some v \<Rightarrow> v \<in> set (vmas_of st t) \<and> unat s \<in> vma_range v" by blast
  show ?thesis
  proof (cases r)
    case None
    then show ?thesis using r zr by (intro exI [of _ 0]) (simp add: user_to_direct_null_def)
  next
    case (Some v)
    then have v: "v \<in> set (vmas_of st t)" "unat s \<in> vma_range v" using r(2) by simp_all
    have lz: "vm_flags v AND VMA_FLAG_LAZY \<noteq> 0" using aspaceD(10) [OF A v] n by (auto simp: is_lazy_def)
    have vok: "vma_ok v" using aspaceD(3) [OF A] v(1) by (simp add: vmas_ok_def list_all_iff)
    let ?o = "unat s mod 0x1000" and ?r = "zp + ucast (page_voffset s)"
    have o: "?o < 0x1000" by simp
    have uo: "unat (ucast (page_voffset s) :: u64) = ?o"
      by (simp add: unsigned_ucast_eq unat_page_offset take_bit_nat_eq_self)
    have zp: "zp \<noteq> 0" "unat zp mod 0x1000 = 0" "unat zp + 0x1000 < 2 ^ 64" "\<And>i. i < 0x1000 \<Longrightarrow> ram st (unat zp + i) = 0"
      using z by (simp_all add: zero_page_ok_def)
    have ur: "unat ?r = unat zp + ?o" using uo zp(3) o by (simp add: unat_word_ariths(1))
    have r0: "?r \<noteq> 0" using ur zp(1) by (metis add_is_0 unat_0 unat_eq_zero)
    have "(unat zp + ?o) mod 0x1000 = ?o" using zp(2) by (simp add: mod_add_left_eq [symmetric])
    then have left: "unat (page_bytes_left ?r) = left" by (simp only: page_bytes_left_eq ur left_def)
    have "in_vmas st t (unat s + i) \<and> ram st (unat ?r + i) = ubyte st t (unat s + i) \<and> zero_page_addr zp (unat ?r + i)"
      if i: "i < left" for i
    proof -
      note pn = page_next [OF i [unfolded left_def]]
      have lt: "?o + i < 0x1000" using i by (simp add: left_def)
      have "ux st t (unat s + i) = None" using free_ux [of st t "unat s + i"] fr pn(1) by simp
      moreover have "unat s + i \<in> vma_range v"
        using page_in_vma(1) [OF vok v(2)] page_of_split [of "unat s + i"] pn lt by auto
      ultimately show ?thesis using v(1) zp(4) [OF lt] ur lt by (auto simp: in_vmas_def ubyte_free add.assoc zero_page_addr_def)
    qed
    then show ?thesis using r(1) Some lz zr r0 left by (intro exI [of _ ?r]) (simp add: user_to_direct_null_def)
  qed
qed

definition fetched :: "mstate \<Rightarrow> nat \<Rightarrow> nat \<Rightarrow> nat \<Rightarrow> nat \<Rightarrow> bytes" where
  "fetched st t dst x k = (\<lambda>a. if dst \<le> a \<and> a < dst + k then ubyte st t (x + (a - dst)) else ram st a)"

lemma copy_from_user_spec:
  assumes "aspace st t" and "unat s + n \<le> unat USER_END" and "zero_page_ok zp st"
    and "\<And>i. i < n \<Longrightarrow> apart st t (dst + i) \<and> \<not> zero_page_addr zp (dst + i)"
  shows "\<exists>k \<le> n. copy_from_user_loop zp t dst s n ret st = Ok (st\<lparr>ram := fetched st t dst (unat s) k\<rparr>, ret + k) \<and>
    (\<forall>i<k. in_vmas st t (unat s + i)) \<and> (k < n \<longrightarrow> \<not> in_vmas st t (unat s + k))"
  using assms
proof (induction n arbitrary: s dst ret st rule: less_induct)
  case (less n)
  show ?case
  proof (cases "n = 0")
    case True
    have "fetched st t dst (unat s) 0 = ram st" by (rule ext) (auto simp: fetched_def)
    then show ?thesis using True by (simp add: copy_from_user_loop.simps)
  next
    case False
    then have su: "unat s < unat USER_END" using less.prems(2) by simp
    let ?o = "unat s mod 0x1000"
    from null_spec [OF less.prems(1) su less.prems(3)] obtain r where
      r: "user_to_direct_null zp t s st = Ok r"
        "if r = 0 then \<not> in_vmas st t (unat s)
         else unat (page_bytes_left r) = 0x1000 - ?o \<and>
           (\<forall>i<0x1000 - ?o. in_vmas st t (unat s + i) \<and> ram st (unat r + i) = ubyte st t (unat s + i) \<and>
              (\<not> apart st t (unat r + i) \<or> zero_page_addr zp (unat r + i)))" by blast
    show ?thesis
    proof (cases "r = 0")
      case True
      have "fetched st t dst (unat s) 0 = ram st" by (rule ext) (auto simp: fetched_def)
      then have "copy_from_user_loop zp t dst s n ret st = Ok (st\<lparr>ram := fetched st t dst (unat s) 0\<rparr>, ret + 0)"
        using True False r(1) by (subst copy_from_user_loop.simps) simp
      then show ?thesis using True r(2) by (intro exI [of _ 0]) simp
    next
      case r0: False
      then have left: "unat (page_bytes_left r) = 0x1000 - ?o"
        and byte: "\<And>i. i < 0x1000 - ?o \<Longrightarrow> in_vmas st t (unat s + i) \<and> ram st (unat r + i) = ubyte st t (unat s + i) \<and>
              (\<not> apart st t (unat r + i) \<or> zero_page_addr zp (unat r + i))" using r(2) by auto
      define w where "w = min n (0x1000 - ?o)"
      have w: "w \<le> 0x1000 - ?o" "w \<le> n" "0 < w" using False by (simp_all add: w_def)
      have "dst \<le> unat r \<or> unat r + w \<le> dst"
      proof (rule ccontr)
        assume h: "\<not> ?thesis"
        then have "unat r < dst" "dst - unat r < w" by auto
        then show False using byte [of "dst - unat r"] less.prems(4) [of 0] False w(1) by auto
      qed
      then have mc: "memcpy (ram st) dst (unat r) w = copied (ram st) dst (unat r) w" by (rule memcpy_copied)
      have eq: "memcpy (ram st) dst (unat r) w = fetched st t dst (unat s) w"
      proof
        fix a
        show "memcpy (ram st) dst (unat r) w a = fetched st t dst (unat s) w a"
          using byte [of "a - dst"] w(1) by (auto simp: mc copied_def fetched_def)
      qed
      let ?st2 = "st\<lparr>ram := fetched st t dst (unat s) w\<rparr>"
      have stay: "fetched st t dst (unat s) w a = ram st a" if "\<not> apart st t a \<or> zero_page_addr zp a" for a
      proof (cases "dst \<le> a \<and> a < dst + w")
        case True
        then have "a - dst < n" "dst + (a - dst) = a" using w(2) by linarith+
        then show ?thesis using less.prems(4) [of "a - dst"] that by metis
      qed (auto simp: fetched_def)
      have z2: "zero_page_ok zp ?st2"
        using less.prems(3) stay by (auto simp: zero_page_ok_def zero_page_addr_def)
      have ub: "ubyte ?st2 t x = ubyte st t x" if "x < unat USER_END" for x
        by (rule ubyte_ram [OF less.prems(1) that]) (use stay in blast)
      have us: "unat (s + of_nat w) = unat s + w"
        using less.prems(2) w(2) by (simp add: unat_word_ariths(1) unat_of_nat take_bit_nat_eq_self USER_END_val)
      have A2: "aspace ?st2 t" using less.prems(1) by simp
      have n2: "n - w < n" and b2: "unat (s + of_nat w) + (n - w) \<le> unat USER_END" using us less.prems(2) w by simp_all
      have a2: "apart ?st2 t (dst + w + i) \<and> \<not> zero_page_addr zp (dst + w + i)" if "i < n - w" for i
        using less.prems(4) [of "w + i"] that by (simp add: add.assoc)
      have "\<exists>k \<le> n - w. copy_from_user_loop zp t (dst + w) (s + of_nat w) (n - w) (ret + w) ?st2 =
          Ok (?st2\<lparr>ram := fetched ?st2 t (dst + w) (unat (s + of_nat w)) k\<rparr>, ret + w + k) \<and>
          (\<forall>i<k. in_vmas ?st2 t (unat (s + of_nat w) + i)) \<and> (k < n - w \<longrightarrow> \<not> in_vmas ?st2 t (unat (s + of_nat w) + k))"
        by (rule less.IH [OF n2 A2 b2 z2]) (rule a2)
      then obtain k where k: "k \<le> n - w" "copy_from_user_loop zp t (dst + w) (s + of_nat w) (n - w) (ret + w) ?st2 =
          Ok (?st2\<lparr>ram := fetched ?st2 t (dst + w) (unat s + w) k\<rparr>, ret + w + k)"
          "\<forall>i<k. in_vmas st t (unat s + w + i)" "k < n - w \<longrightarrow> \<not> in_vmas st t (unat s + w + k)"
        unfolding us by auto
      have f: "fetched ?st2 t (dst + w) (unat s + w) k = fetched st t dst (unat s) (w + k)"
      proof
        fix a
        have "unat s + (a - dst) < unat USER_END" if "dst \<le> a" "a < dst + (w + k)" using that k(1) w(2) less.prems(2) by linarith
        then show "fetched ?st2 t (dst + w) (unat s + w) k a = fetched st t dst (unat s) (w + k) a"
          using ub [of "unat s + (a - dst)"] by (auto simp: fetched_def add.assoc)
      qed
      have "copy_from_user_loop zp t dst s n ret st = Ok (st\<lparr>ram := fetched st t dst (unat s) (w + k)\<rparr>, ret + (w + k))"
        using k(2) r(1) False r0 unfolding copy_from_user_loop.simps [of zp t dst s n ret st]
        by (simp add: left w_def [symmetric] Let_def add.assoc eq f)
      moreover have "in_vmas st t (unat s + i)" if "i < w + k" for i
        using byte [of i] k(3) [rule_format, of "i - w"] that w(1) by (cases "i < w") auto
      ultimately show ?thesis using k(1,4) w(2) by (intro exI [of _ "w + k"]) (auto simp: add.assoc)
    qed
  qed
qed

end
