(* ===== verification/User_Safety.thy ===== *)
theory User_Safety
  imports User_Access
begin

text \<open>
  What a user process can rely on and what the kernel can rely on when it handles page faults
  and copies to and from user memory, and where the checks of addresses are missing.
\<close>

section \<open>Page faults\<close>

lemma set_lock_select [simp]:
  "pg (set_lock t b st) = pg st" "ram (set_lock t b st) = ram st" "procs (set_lock t b st) = procs st"
  "task_locked (set_lock t b st) = (task_locked st)(t := b)"
  by (simp_all add: set_lock_def)

lemma aspace_lock [simp]: "aspace (set_lock t b st) u = aspace st u"
  by (simp only: aspace_def page_mapped_def page_free_def dpages_def in_vmas_def set_lock_select)

lemma umem_lock [simp]: "umem (set_lock t b st) u = umem st u"
  by (rule ext) (simp only: umem_def in_vmas_def ubyte_def set_lock_select)

lemma apart_lock [simp]: "apart (set_lock t b st) u x = apart st u x"
  by (simp only: apart_def foreign_def dpages_def page_mapped_def set_lock_select)

lemma confined_lock [simp]:
  "confined u (set_lock t b st) st' = confined u st st'" "confined u st (set_lock t b st') = confined u st st'"
  by (simp_all only: confined_def apart_lock foreign_def dpages_def page_mapped_def set_lock_select)

lemma page_free_lock [simp]: "page_free (set_lock t b st) u a = page_free st u a"
  by (simp add: page_free_def)

lemma unmapped_free:
  assumes "aspace st t" and "x < unat USER_END" and "ux st t x = None"
  shows "page_free st t (page_of x)"
  using aspaceD(5) [OF assms(1) page_of_user [OF assms(2)]] assms(3) mapped_ux [of st t x] by fastforce

lemma process_fault_spec:
  assumes A: "aspace st t" and s: "unat addr < unat USER_END" and n: "ux st t (unat addr) = None"
  shows "\<exists>st' err. process_handle_fault t addr st = Ok (st', err) \<and> aspace st' t \<and> confined t st st' \<and>
    only_pages st st' \<and> umem st' t = umem st t \<and> (err = 0 \<longleftrightarrow> ux st' t (unat addr) \<noteq> None) \<and>
    (\<not> in_vmas st t (unat addr) \<longrightarrow> st' = st)"
proof -
  note fr = unmapped_free [OF A s n]
  from uvma_at_spec [OF A s] obtain r where r: "uvma_at (procs st t) addr = Ok r"
    "case r of None \<Rightarrow> \<not> in_vmas st t (unat addr) | Some v \<Rightarrow> v \<in> set (vmas_of st t) \<and> unat addr \<in> vma_range v" by blast
  show ?thesis
  proof (cases r)
    case None
    then show ?thesis using r(1) A n by (simp add: process_handle_fault_def process_handle_fault_with_def)
  next
    case (Some v)
    then have v: "v \<in> set (vmas_of st t)" "unat addr \<in> vma_range v" using r(2) by simp_all
    have lz: "is_lazy v" using aspaceD(10) [OF A v] n by blast
    have iv: "in_vmas st t (unat addr)" using v by (auto simp: in_vmas_def)
    from fault_spec [OF A v(1) lz v(2) fr utd_ok_fault [of FAULT_NEST]] obtain st' err where
      f: "uvma_handle_fault_with (user_to_direct_fault FAULT_NEST t) t v addr st = Ok (st', err)" "aspace st' t" "confined t st st'"
        "only_pages st st'" "umem st' t = umem st t"
        "if err = 0 then \<exists>d. page_mapped st' t (page_of (unat addr)) d else page_free st' t (page_of (unat addr))"
      by (elim exE conjE) (rule that)
    have "err = 0 \<longleftrightarrow> ux st' t (unat addr) \<noteq> None"
      using f(6) mapped_ux [of st' t "unat addr"] free_ux [of st' t "unat addr"] by (auto split: if_splits) blast
    then show ?thesis using f(1-5) r(1) Some iv by (simp add: process_handle_fault_def process_handle_fault_with_def)
  qed
qed

text \<open>C9. A page fault at an unmapped user address always returns with the lock of the task released.
  If the page is mapped afterwards, the address is in an area of the process; otherwise the
  task is ended with \<open>-EFAULT\<close>, and if there is no area nothing has changed. In every case the
  address space stays well-formed, user memory has the same contents, and the page tables,
  pages and areas of everybody else are untouched.\<close>

theorem page_fault_isolated:
  assumes "aspace st t" and "unat addr < unat USER_END" and "ux st t (unat addr) = None" and "\<not> task_locked st t"
  shows "\<exists>st' r. task_handle_fault t addr st = Ok (st', r) \<and> aspace st' t \<and> confined t st st' \<and>
    umem st' t = umem st t \<and> procs st' = procs st \<and> task_locked st' = task_locked st \<and>
    r = (if ux st' t (unat addr) \<noteq> None then None else Some (- errno_num EFAULT)) \<and>
    (\<not> in_vmas st t (unat addr) \<longrightarrow> st' = st \<and> r \<noteq> None)"
proof -
  let ?s = "set_lock t True st"
  have "aspace ?s t" "ux ?s t (unat addr) = None" using assms(1,3) by simp_all
  from process_fault_spec [OF this(1) assms(2) this(2)] obtain st1 err where
    p: "process_handle_fault t addr ?s = Ok (st1, err)" "aspace st1 t" "confined t ?s st1" "only_pages ?s st1"
      "umem st1 t = umem st t" "err = 0 \<longleftrightarrow> ux st1 t (unat addr) \<noteq> None"
      "\<not> in_vmas st t (unat addr) \<longrightarrow> st1 = ?s" by (auto simp: in_vmas_def)
  have "set_lock t False st = st" using assms(4) by (simp add: set_lock_def fun_upd_idem)
  moreover have "set_lock t False ?s = set_lock t False st" by (simp add: set_lock_def)
  moreover have "(task_locked st1)(t := False) = task_locked st"
    using p(4) assms(4) by (simp add: only_pages_def fun_upd_idem)
  ultimately show ?thesis using p assms(3,4) by (auto simp: task_handle_fault_def only_pages_def)
qed

text \<open>
  A process with one untouched lazy area of two pages over the empty page table of the sample
  memory; the page at \<open>0x2000\<close> plays the page of zeroes.
\<close>

definition sample_vma :: vma where
  "sample_vma = \<lparr>vm_ptr = 1, vm_name = None, vm_base = 0x10000, vm_size = 0x2000, vm_flags = 0xF\<rparr>"

definition sample_mem :: mstate where
  "sample_mem = \<lparr>pg = sample_paging, ram = \<lambda>x. if 0x2000 \<le> x \<and> x < 0x3000 then 0 else 7,
     procs = \<lambda>_. \<lparr>mm_table = 0xffffffc000000000, mm_asid = 1, mm_vmas = [sample_vma], brk_base = 0x20000, brk_vma = None\<rparr>,
     task_locked = \<lambda>_. False, kmem = \<lambda>_. 0, kcalls = 0, remote = []\<rparr>"

lemma sample_ux: "ux sample_mem t x = None"
  by (simp add: sample_mem_def sample_paging_def root_paging_def riscv_Sv39_def xlate.simps(2))

lemma sample_in_vmas: "in_vmas sample_mem t x \<longleftrightarrow> 0x10000 \<le> x \<and> x < 0x12000"
  by (auto simp: in_vmas_def sample_mem_def sample_vma_def vma_range_def)

lemma sample_aspace: "aspace sample_mem t"
proof -
  have m: "\<not> page_mapped sample_mem t a d" for a d
    using sample_ux by (auto simp: page_mapped_def intro: exI [of _ 0])
  have "page_free sample_mem t a" for a by (simp add: page_free_def sample_ux)
  moreover have "dpages sample_mem t = {}" using m by (simp add: dpages_def)
  moreover have "tree root_paging (pg sample_mem) (table_of sample_mem t)"
    using sample_tree [OF levels_root(1)] by (simp add: sample_mem_def)
  moreover have "areas_direct (pool (pg sample_mem))"
    by (simp add: areas_direct_def sample_mem_def sample_paging_def sample_areas_def live_def)
  moreover have "vmas_of sample_mem t = [sample_vma]" by (simp add: sample_mem_def)
  moreover have "vmas_ok [sample_vma]"
    by (simp add: vmas_ok_def vma_ok_def sample_vma_def USER_START_val USER_END_val VMA_FLAG_R_def VMA_FLAG_W_def VMA_FLAG_X_def)
  moreover have "is_lazy sample_vma" by (simp add: is_lazy_def sample_vma_def VMA_FLAG_LAZY_def)
  ultimately show ?thesis unfolding aspace_def using m xlate_None_fine [OF sample_ux] sample_ux by simp
qed

lemma sample_apart: "x < 0x100000 \<Longrightarrow> apart sample_mem t x"
proof -
  assume x: "x < 0x100000"
  have "unat (of_nat (x - x mod 0x1000) :: u64) = x - x mod 0x1000" by (rule unat_of_nat_small) (use x in simp)
  then have "unat (of_nat (x - x mod 0x1000) :: u64) \<le> 0x100000" using x by linarith
  then have "\<not> in_area (hd sample_areas) (of_nat (x - x mod 0x1000))"
    by (simp add: in_area_def sample_areas_def word_le_nat_alt)
  then show ?thesis by (simp add: apart_def sample_mem_def sample_paging_def sample_areas_def)
qed

theorem page_fault_isolated_witness:
  "(\<exists>st' r. task_handle_fault 1 0x11234 sample_mem = Ok (st', r) \<and> aspace st' 1 \<and> umem st' 1 = umem sample_mem 1) \<and>
   task_handle_fault 1 0x5000 sample_mem = Ok (sample_mem, Some (- errno_num EFAULT))"
proof -
  note p = page_fault_isolated [OF sample_aspace [of 1] _ sample_ux]
  have l: "\<not> task_locked sample_mem 1" by (simp add: sample_mem_def)
  have "\<exists>st' r. task_handle_fault 1 0x11234 sample_mem = Ok (st', r) \<and> aspace st' 1 \<and> umem st' 1 = umem sample_mem 1"
    using p [of "0x11234"] l by (auto simp: USER_END_val)
  moreover have "task_handle_fault 1 0x5000 sample_mem = Ok (sample_mem, Some (- errno_num EFAULT))"
    using p [of "0x5000"] l by (auto simp: USER_END_val sample_in_vmas sample_ux)
  ultimately show ?thesis by blast
qed

section \<open>Copies\<close>



text \<open>C11. Copying from user addresses to a kernel buffer always returns. It copies up to the first
  address outside the areas of the process and fills the buffer with the contents of user
  memory, in which untouched lazy pages read as zero. No page is faulted in and no other byte
  changes.\<close>

theorem copy_from_user_reads:
  assumes "aspace st t" and "unat s + n \<le> unat USER_END" and "zero_page_ok zp st"
    and "\<And>i. i < n \<Longrightarrow> apart st t (dst + i) \<and> \<not> zero_page_addr zp (dst + i)"
  shows "\<exists>m k. copy_from_user zp t dst s n st = Ok (st\<lparr>ram := m\<rparr>, k) \<and> k \<le> n \<and>
    (\<forall>i<k. umem st t (unat s + i) = Some (m (dst + i))) \<and> (\<forall>x. x < dst \<or> dst + k \<le> x \<longrightarrow> m x = ram st x) \<and>
    (k < n \<longrightarrow> umem st t (unat s + k) = None)"
proof -
  have "\<exists>k \<le> n. copy_from_user_loop zp t dst s n 0 st = Ok (st\<lparr>ram := fetched st t dst (unat s) k\<rparr>, 0 + k) \<and>
    (\<forall>i<k. in_vmas st t (unat s + i)) \<and> (k < n \<longrightarrow> \<not> in_vmas st t (unat s + k))"
    by (rule copy_from_user_spec [OF assms])
  then obtain k where "k \<le> n" "copy_from_user_loop zp t dst s n 0 st = Ok (st\<lparr>ram := fetched st t dst (unat s) k\<rparr>, 0 + k)"
    "\<forall>i<k. in_vmas st t (unat s + i)" "k < n \<longrightarrow> \<not> in_vmas st t (unat s + k)" by blast
  then show ?thesis
    by (intro exI [of _ "fetched st t dst (unat s) k"] exI [of _ k]) (auto simp: copy_from_user_def umem_def fetched_def)
qed

theorem copy_from_user_reads_witness:
  "\<exists>m. copy_from_user 0x2000 1 0x5000 0x11ffe 4 sample_mem = Ok (sample_mem\<lparr>ram := m\<rparr>, 2) \<and>
     m 0x5000 = 0 \<and> m 0x5001 = 0 \<and> m 0x5002 = 7"
proof -
  have z: "zero_page_ok 0x2000 sample_mem" by (simp add: zero_page_ok_def sample_mem_def)
  have "\<exists>m k. copy_from_user 0x2000 1 0x5000 0x11ffe 4 sample_mem = Ok (sample_mem\<lparr>ram := m\<rparr>, k) \<and> k \<le> 4 \<and>
    (\<forall>i<k. umem sample_mem 1 (unat (0x11ffe :: u64) + i) = Some (m (0x5000 + i))) \<and>
    (\<forall>x. x < 0x5000 \<or> 0x5000 + k \<le> x \<longrightarrow> m x = ram sample_mem x) \<and>
    (k < 4 \<longrightarrow> umem sample_mem 1 (unat (0x11ffe :: u64) + k) = None)"
    by (rule copy_from_user_reads [OF sample_aspace _ z]) (simp_all add: USER_END_val sample_apart zero_page_addr_def)
  then obtain m k where m: "copy_from_user 0x2000 1 0x5000 0x11ffe 4 sample_mem = Ok (sample_mem\<lparr>ram := m\<rparr>, k)" "k \<le> 4"
    "\<And>i. i < k \<Longrightarrow> umem sample_mem 1 (0x11ffe + i) = Some (m (0x5000 + i))"
    "\<And>x. 0x5000 + k \<le> x \<Longrightarrow> m x = ram sample_mem x" "k < 4 \<Longrightarrow> umem sample_mem 1 (0x11ffe + k) = None" by auto
  have u: "umem sample_mem 1 x = (if 0x10000 \<le> x \<and> x < 0x12000 then Some 0 else None)" for x
    by (simp add: umem_def sample_in_vmas ubyte_free [OF sample_ux])
  have "k = 2"
  proof -
    have "\<not> k < 2" using m(5) u [of "0x11ffe + k"] by auto
    moreover have "\<not> 2 < k" using m(3) [of 2] u [of "0x12000"] by auto
    ultimately show ?thesis by simp
  qed
  moreover from this have "ram sample_mem 0x5002 = m 0x5002" using m(4) [of "0x5002"] by simp
  moreover have "ram sample_mem 0x5002 = 7" by (simp add: sample_mem_def)
  ultimately show ?thesis using m(1) m(3) [of 0] m(3) [of 1] u [of "0x11ffe"] u [of "0x11fff"] by auto
qed

section \<open>Addresses that are not checked\<close>

text \<open>C29. No routine checks that the addresses a system call passes are user addresses. At any address
  that the page table of the process translates, the kernel half included, the copy goes
  through, whether or not a user could access the page. And a fault or a copy at the last
  address of memory, which no table translates, stops the kernel, because the search for the
  area computes an end that wraps.\<close>

theorem user_pointers_unchecked:
  "(0 < n \<and> paging_get_phys (pg st) (table_of st t) d = Ok pa \<and> pa \<noteq> INVALID_PHYS_ADDR \<and>
      p2v (pool (pg st)) pa = Ok v \<and> v \<noteq> 0 \<and> n \<le> unat (page_bytes_left v) \<longrightarrow>
      copy_to_user t d s n st = Ok (st\<lparr>ram := memcpy (ram st) (unat v) s n\<rparr>, n)) \<and>
   task_handle_fault t (- 1) st = Panic \<and>
   (0 < n \<and> paging_get_phys (pg st) (table_of st t) (- 1) = Ok INVALID_PHYS_ADDR \<longrightarrow>
      copy_to_user t (- 1) s n st = Panic \<and> copy_from_user zp t dst (- 1) n st = Panic)"
proof (intro conjI impI)
  have b: "uvma_at p (- 1) = Panic" for p by (simp add: uvma_at_def uvma_at_range_def word_gt_0)
  show "task_handle_fault t (- 1) st = Panic"
    by (simp add: task_handle_fault_def process_handle_fault_def process_handle_fault_with_def b)
  assume h: "0 < n \<and> paging_get_phys (pg st) (table_of st t) (- 1) = Ok INVALID_PHYS_ADDR"
  show "copy_to_user t (- 1) s n st = Panic"
    using h by (simp add: copy_to_user_def copy_to_user_loop.simps FAULT_NEST_def user_to_direct_def process_handle_fault_with_def b)
  show "copy_from_user zp t dst (- 1) n st = Panic"
    using h by (simp add: copy_from_user_def copy_from_user_loop.simps user_to_direct_null_def user_to_direct_def b)
next
  assume h: "0 < n \<and> paging_get_phys (pg st) (table_of st t) d = Ok pa \<and> pa \<noteq> INVALID_PHYS_ADDR \<and>
      p2v (pool (pg st)) pa = Ok v \<and> v \<noteq> 0 \<and> n \<le> unat (page_bytes_left v)"
  then have "user_to_direct_fault FAULT_NEST t d st = Ok (st, v)" by (simp add: FAULT_NEST_def user_to_direct_def)
  then show "copy_to_user t d s n st = Ok (st\<lparr>ram := memcpy (ram st) (unat v) s n\<rparr>, n)"
    using h unfolding copy_to_user_def copy_to_user_loop.simps [of t d s n 0 st]
    by (simp add: Let_def min_absorb1 copy_to_user_loop.simps)
qed

text \<open>A page table whose entry 256 maps the memory at its kernel address, without user access.\<close>

definition sample_kernel_half :: mstate where
  "sample_kernel_half = sample_mem\<lparr>pg := sample_paging\<lparr>tables := \<lambda>_ i. if i = 256 then 0x200000CF else 0\<rparr>\<rparr>"

theorem user_pointers_unchecked_witness:
  "copy_to_user 1 0xffffffc000006008 0x5000 4 sample_kernel_half =
     Ok (sample_kernel_half\<lparr>ram := memcpy (ram sample_kernel_half) 0xffffffc000006008 0x5000 4\<rparr>, 4) \<and>
   task_handle_fault 1 (- 1) sample_kernel_half = Panic \<and>
   copy_from_user 0x2000 1 0x5000 (- 1) 1 sample_kernel_half = Panic"
proof -
  have m: "unat (- 1 :: u64) = 0xffffffffffffffff" by (simp add: unsigned_minus_1_eq_mask mask_eq_exp_minus_1)
  have k: "paging_get_phys (pg sample_kernel_half) (table_of sample_kernel_half 1) 0xffffffc000006008 = Ok 0x80006008"
    "p2v (pool (pg sample_kernel_half)) 0x80006008 = Ok 0xffffffc000006008"
    "paging_get_phys (pg sample_kernel_half) (table_of sample_kernel_half 1) (- 1) = Ok INVALID_PHYS_ADDR"
    by (simp_all add: paging_get_phys_def sample_kernel_half_def sample_mem_def sample_paging_def root_paging_def riscv_Sv39_def
        sv_level_def get_entry_def UNTRANSLATED_BITS_def nr_entries_def PAGE_LEVEL_BITS_def entry_valid_def get_phys_def
        pte2phys_def pte_flag_defs sample_areas_def p_in_area_def unat_INVALID m word_unat_eq_iff [of INVALID_PHYS_ADDR])
  have l: "unat (page_bytes_left 0xffffffc000006008) = 0xff8" by (simp add: page_bytes_left_eq)
  show ?thesis
    using user_pointers_unchecked [of 4 sample_kernel_half 1 "0xffffffc000006008" "0x80006008" "0xffffffc000006008" "0x5000"]
      user_pointers_unchecked [of 1 sample_kernel_half 1 "0" "0" "0" "0" "0x2000" "0x5000"] k l
    by (simp add: INVALID_PHYS_ADDR_def)
qed

end
