(* ===== verification/Spec2Isabelle.thy ===== *)
theory Spec2Isabelle
  imports Errno Ringbuf Bitmap Layout Gfp Page_Ownership Asid Ioremap Cstring Bootparam Vsprintf Salloc Kheap Ktime
    Task Scheduler Timers Family Task_Run Task_Safety Page_Pool Frame_Pool Paging Paging_Tree Paging_Ops Paging_Inv
    Paging_Safety Paging_Flush Paging_Fine Vma Address_Space User_Access User_Safety
begin

text \<open>
  Grinch is a small operating system kernel for 64-bit machines. The development models its
  memory management, its task system and the routines both are built from, for the RISC-V
  (rv64) build, and proves what each part promises to the others. File names are relative to
  \<^verbatim>\<open>src/\<close>.

  \<^bold>\<open>How the parts interact.\<close> Physical memory is a list of areas with a bitmap of page frames
  each (\<^verbatim>\<open>mm/gfp.c\<close> over \<^verbatim>\<open>lib/bitmap.c\<close>). Page tables are trees of frames taken from there
  (\<^verbatim>\<open>mm/paging.c\<close> with the entry format of \<^verbatim>\<open>arch/riscv/paging.c\<close>). The I/O window (\<^verbatim>\<open>mm/ioremap.c\<close>)
  and the address-space identifiers (\<^verbatim>\<open>mm/asid.c\<close>) are two more bitmaps. The areas of a process
  (\<^verbatim>\<open>mm/vma.c\<close>) are backed by frames and mapped by page tables, at once or on the first page fault;
  system calls reach user memory through \<^verbatim>\<open>kernel/uaccess.c\<close>, which takes such faults itself. The
  kernel heap (\<^verbatim>\<open>mm/alloc.c\<close>) is the chunk allocator \<^verbatim>\<open>common/src/salloc.c\<close> in one large area. Tasks,
  the scheduler and timers (\<^verbatim>\<open>kernel/task.c\<close>, \<^verbatim>\<open>kernel/timer.c\<close>) run on several CPUs under locks, and
  system calls and interrupts are their steps. Boot parameters, formatted printing and the string
  routines (\<^verbatim>\<open>kernel/bootparam.c\<close>, \<^verbatim>\<open>common/src\<close>) serve all of them.

  \<^bold>\<open>Conventions.\<close> C integers are words at their width, or \<^verbatim>\<open>nat\<close>/\<^verbatim>\<open>int\<close> where the text of a theory
  says so, with each wrap-around and narrowing written out. A routine ends in a \<^verbatim>\<open>result\<close>: a value,
  an errno, or \<^verbatim>\<open>Panic\<close>, which stands for \<^verbatim>\<open>BUG()\<close>, \<^verbatim>\<open>panic()\<close>, a null or freed pointer, an index past
  an array, and a lock that is never released. Routines that return an \<^verbatim>\<open>int\<close> code return
  \<^verbatim>\<open>Ok (state, code)\<close>. Memory is an explicit store of bytes, of heap chunks or of page-table entries.
  Critical sections are atomic steps.

  \<^bold>\<open>Theories, bottom up.\<close>
  \<^item> Prelude: integer types, \<^verbatim>\<open>result\<close>, sequencing, shared lemmas. Errno: \<^verbatim>\<open>errno.h\<close>, error pointers and
    names. Layout: page arithmetic and the address-space constants.
  \<^item> Cstring, Bootparam, Vsprintf, Ktime: \<^verbatim>\<open>common/src/string.c\<close>, \<^verbatim>\<open>ctype.h\<close>; \<^verbatim>\<open>strtox.c\<close> and
    \<^verbatim>\<open>kernel/bootparam.c\<close>; \<^verbatim>\<open>vsprintf.c\<close>; \<^verbatim>\<open>lib/time.c\<close> and \<^verbatim>\<open>kernel/timer.c\<close>. The lemmas give exact
    results (comparison, overlapping copies, parsed values, dispatch of the command line), that a
    print stays in its buffer and ends, that printing and parsing numbers are inverse, and that the
    fast decimal conversion equals division by ten.
  \<^item> Ringbuf: \<^verbatim>\<open>lib/ringbuf.c\<close>, shown to implement the bounded queue interface \<^verbatim>\<open>byte_queue\<close>.
  \<^item> Bitmap: \<^verbatim>\<open>lib/bitmap.c\<close>; the interface \<^verbatim>\<open>area_pool\<close> is what allocators over a bitmap rely on, and
    Asid and Ioremap (\<^verbatim>\<open>mm/asid.c\<close>, \<^verbatim>\<open>mm/ioremap.c\<close>) are such allocators.
  \<^item> Gfp: \<^verbatim>\<open>mm/gfp.c\<close>, \<^verbatim>\<open>mm/mm.c\<close>. Page_Ownership runs allocations and releases in any order and
    accounts for every frame. Page_Pool and Frame_Pool state what users of single pages and of
    physical runs rely on (\<^verbatim>\<open>page_pool\<close>, and \<^verbatim>\<open>frame_pool\<close>, which extends it) and discharge it for Gfp.
  \<^item> Salloc, Kheap: \<^verbatim>\<open>common/src/salloc.c\<close> and \<^verbatim>\<open>mm/alloc.c\<close>; Kheap has the client interface \<^verbatim>\<open>block_heap\<close>
    and the runs of allocations and releases.
  \<^item> Paging: \<^verbatim>\<open>mm/paging.c\<close>, \<^verbatim>\<open>arch/riscv/paging.c\<close>. Paging_Tree says what tables in memory mean: a tree,
    its tables and its translation. Paging_Ops proves splitting, mapping and unmapping against that
    meaning, Paging_Safety and Paging_Fine state it for the interface (any range; single pages),
    Paging_Inv has the rule \<^verbatim>\<open>table_property\<close> for what all routines keep, and Paging_Flush uses it for
    the order of TLB flushes and table releases.
  \<^item> Vma: \<^verbatim>\<open>mm/vma.c\<close>, \<^verbatim>\<open>kernel/uaccess.c\<close>, and faults and \<^verbatim>\<open>brk\<close> of \<^verbatim>\<open>kernel/process.c\<close>. Address_Space has
    the invariant of a process's memory and its meaning, a partial map from addresses to bytes.
    User_Access proves faults and copies against that map; User_Safety has the properties.
  \<^item> Task: \<^verbatim>\<open>kernel/task.c\<close> with the system calls, interrupts and the parts of \<^verbatim>\<open>arch/riscv/vmm\<close> and
    \<^verbatim>\<open>fs/devfs.c\<close> that block and wake tasks. Scheduler, Timers and Family hold the invariants of CPU
    ownership, timers and the family tree. Task_Run is the step relation with one rule for each
    operation, and Task_Safety what holds in every run from boot.

  \<^bold>\<open>What is shown.\<close> Safety of the allocators in every run (frames, heap blocks, identifiers, I/O
  window); mapping and unmapping change exactly the requested translations, return, and flush before
  they release; a page fault or a copy affects only the memory of its process and acts on its contents
  as specified; in every interleaving the task system keeps its invariants and reaches no \<^verbatim>\<open>BUG()\<close>; the
  scheduler is fair while all tasks want to run; and the functional properties of the library routines.
  Where the code does not do what it means to, a theorem states what it does: the reserved kernel image
  at the end of memory, the lost end mark of the heap, a zombie PID 1 is not told about, WFI without a
  timer, mappings without access rights, zero nanoseconds, unchecked user pointers.

  \<^bold>\<open>Loops and bounds.\<close> Loops are total functions with a measure, except where they follow pointers in
  memory or look for a NUL: those are partial functions with \<^verbatim>\<open>None\<close> for not ending, and that they end
  on intact data is part of the properties. The only fuel is \<^verbatim>\<open>FAULT_NEST\<close> in Vma, the number of page
  faults that nest when clearing a page faults again. One is enough: on a well-formed address space
  the page that is being cleared has just been mapped, so the nested access never faults, and running
  out of it would be \<^verbatim>\<open>Panic\<close>, which the properties exclude.

  \<^bold>\<open>Parameters.\<close> The clock, what \<^verbatim>\<open>kmalloc\<close> returns to \<^verbatim>\<open>mm/vma.c\<close>, the address of the page of zeroes,
  the handlers of boot parameters, and for \<^verbatim>\<open>mm/ioremap.c\<close> and \<^verbatim>\<open>mm/alloc.c\<close> the return codes of the
  mapping calls. Where a property assumes something about one of them, its witness has an instance.

  \<^bold>\<open>Not modelled.\<close>
  \<^item> The AArch64 port (\<^verbatim>\<open>arch/arm64\<close>): the same kernel above another entry format.
  \<^item> Assembly and control registers (\<^verbatim>\<open>arch/riscv\<close> entry, traps, MMU enabling, SMP start, SBI calls):
    no source-level semantics to translate; their effects on tasks are steps of Task_Run.
  \<^item> Device drivers, interrupt controllers, console, PCI (\<^verbatim>\<open>drivers\<close>, \<^verbatim>\<open>kernel/console.c\<close>): accesses to
    device registers.
  \<^item> The file systems (\<^verbatim>\<open>fs/vfs.c\<close>, \<^verbatim>\<open>fs/tmpfs.c\<close>, \<^verbatim>\<open>fs/initrd.c\<close>, most of \<^verbatim>\<open>fs/devfs.c\<close>), and with them
    \<^verbatim>\<open>execve\<close>, the ELF loader and \<^verbatim>\<open>getcwd\<close> in \<^verbatim>\<open>kernel/process.c\<close>, and the string and environment
    copies of \<^verbatim>\<open>kernel/uaccess.c\<close>.
  \<^item> Caches and the TLB themselves: flushes are recorded as events. The weak memory order and the
    spin locks: a critical section is one step, which is what the locks are for.
  \<^item> Trap emulation and register state of guests in \<^verbatim>\<open>arch/riscv/vmm\<close>.
  \<^item> The vendored device-tree library (\<^verbatim>\<open>lib/libfdt\<close>) and its callers, generated and data files (fonts),
    user programs and host tools.
\<close>

end
